(* ===== verification/Prelude.thy ===== *)
theory Prelude
  imports Main "HOL-Library.Word"
begin

text \<open>
  Shared vocabulary of the little-db development: the model's machine types, Go slices,
  the fixed-width integer codecs of Go's \<open>encoding/binary\<close>, and the generic lemmas on
  byte strings the components rest on.

  \<^item> A Go \<open>byte\<close> is an \<open>8 word\<close>, a \<open>[]byte\<close> a list of them, \<open>uint16\<close>, \<open>uint32\<close> and
    \<open>uint64\<close> are words of their width.
  \<^item> An \<open>int64\<close> (time stamps, file offsets) is an \<open>int\<close> together with the explicit
    wrap-around \<open>wrap64\<close> where the code can overflow; its on-disk form goes through
    \<open>64 word\<close>.
  \<^item> \<open>len\<close> of a slice is a \<open>nat\<close>.
  \<^item> The interface of a fixed-width integer field is the locale \<open>int_codec\<close>; it is
    interpreted for every width and byte order the program uses.
\<close>

section \<open>Machine types\<close>

type_synonym byte = "8 word"
type_synonym bytes = "8 word list"
type_synonym u16 = "16 word"
type_synonym u32 = "32 word"
type_synonym u64 = "64 word"

named_theorems codec_simps \<open>lengths and inverses of the integer codecs\<close>
named_theorems slice_simps \<open>slices of concatenations\<close>

text \<open>Two's complement wrap-around of a Go \<open>int64\<close>.\<close>

definition wrap64 :: "int \<Rightarrow> int" where
  "wrap64 x = sint (word_of_int x :: 64 word)"

definition int64_range :: "int \<Rightarrow> bool" where
  "int64_range x \<longleftrightarrow> - (2 ^ 63) \<le> x \<and> x < 2 ^ 63"

text \<open>\<open>uint64(x)\<close> and \<open>int64(w)\<close>: the conversions at the on-disk boundary.\<close>

definition u64_of_int64 :: "int \<Rightarrow> u64" where
  "u64_of_int64 x = word_of_int x"

definition int64_of_u64 :: "u64 \<Rightarrow> int" where
  "int64_of_u64 w = sint w"

lemma wrap64_id [simp]: "int64_range x \<Longrightarrow> wrap64 x = x"
  by (simp add: wrap64_def int64_range_def signed_of_int signed_take_bit_int_eq_self)

lemma int64_of_u64_inverse [simp]: "int64_range x \<Longrightarrow> int64_of_u64 (u64_of_int64 x) = x"
  by (simp add: int64_of_u64_def u64_of_int64_def int64_range_def signed_of_int
      signed_take_bit_int_eq_self)

lemma u64_of_int64_inverse [simp]: "u64_of_int64 (int64_of_u64 w) = w"
  by (simp add: int64_of_u64_def u64_of_int64_def)

lemma int64_range_int64_of_u64 [simp]: "int64_range (int64_of_u64 w)"
  using sint_ge [of w] sint_lt [of w] by (simp add: int64_range_def int64_of_u64_def)

lemma int64_range_wrap64 [simp]: "int64_range (wrap64 x)"
  using sint_ge [of "word_of_int x :: 64 word"] sint_lt [of "word_of_int x :: 64 word"]
  by (simp add: int64_range_def wrap64_def)

lemma unat_word_of_nat_u32: "n < 2 ^ 32 \<Longrightarrow> unat (word_of_nat n :: u32) = n"
  by (simp add: unat_of_nat take_bit_nat_eq_self)

lemma unat_word_of_nat_u16: "n < 2 ^ 16 \<Longrightarrow> unat (word_of_nat n :: u16) = n"
  by (simp add: unat_of_nat take_bit_nat_eq_self)

section \<open>Slices\<close>

text \<open>Go's \<open>bs[a:b]\<close>; every use in the program is guarded so that \<open>a \<le> b \<le> len(bs)\<close>.\<close>

definition slice :: "nat \<Rightarrow> nat \<Rightarrow> 'a list \<Rightarrow> 'a list" where
  "slice a b xs = take (b - a) (drop a xs)"

lemma length_slice [simp]: "length (slice a b xs) = min (b - a) (length xs - a)"
  by (simp add: slice_def)

lemma slice_append1 [slice_simps]:
  "b \<le> length xs \<Longrightarrow> slice a b (xs @ ys) = slice a b xs"
  by (simp add: slice_def)

lemma slice_append2 [slice_simps]:
  "length xs \<le> a \<Longrightarrow> slice a b (xs @ ys) = slice (a - length xs) (b - length xs) ys"
  by (simp add: slice_def)

lemma slice_full [slice_simps]: "length xs \<le> b \<Longrightarrow> slice 0 b xs = xs"
  by (simp add: slice_def)

lemma slice_prefix: "n \<le> length xs \<Longrightarrow> slice 0 n (xs @ ys) = take n xs"
  by (simp add: slice_def)

lemma slice_take: "b \<le> n \<Longrightarrow> slice a b (take n xs) = slice a b xs"
  by (simp add: slice_def drop_take min_def)

lemma take_slice: "take n (slice a b xs) = slice a (min b (a + n)) xs"
  by (cases "b \<le> a + n") (auto simp: slice_def min_def intro: arg_cong2 [of _ _ _ _ take])

lemma slice_mid: "length xs = a \<Longrightarrow> a + length ys = b \<Longrightarrow> slice a b (xs @ ys @ zs) = ys"
  by (auto simp: slice_def)

lemma slice_drop: "slice a b (drop n xs) = slice (n + a) (n + b) xs"
  by (simp add: slice_def add.commute)

lemma slice_join: "a \<le> b \<Longrightarrow> b \<le> c \<Longrightarrow> slice a b xs @ slice b c xs = slice a c xs"
proof -
  assume "a \<le> b" "b \<le> c"
  then have "take (c - a) (drop a xs) = take (b - a + (c - b)) (drop a xs)" by simp
  also have "\<dots> = take (b - a) (drop a xs) @ take (c - b) (drop (b - a) (drop a xs))"
    by (rule take_add)
  also have "drop (b - a) (drop a xs) = drop b xs" using \<open>a \<le> b\<close> by simp
  finally show ?thesis by (simp add: slice_def)
qed

lemma slice_single: "i < length xs \<Longrightarrow> slice i (Suc i) xs = [xs ! i]"
  by (simp add: slice_def take_Suc_conv_app_nth)

lemma slice_update: "i < a \<or> b \<le> i \<Longrightarrow> slice a b (xs[i := x]) = slice a b xs"
proof (erule disjE)
  assume "b \<le> i"
  then show ?thesis
    by (cases "a \<le> i") (simp_all add: slice_def drop_update_swap take_update_cancel)
qed (simp add: slice_def drop_update_cancel)

section \<open>Integer codecs\<close>

fun put_le :: "nat \<Rightarrow> nat \<Rightarrow> bytes" where
  "put_le 0 x = []"
| "put_le (Suc n) x = word_of_nat x # put_le n (x div 256)"

fun get_le :: "bytes \<Rightarrow> nat" where
  "get_le [] = 0"
| "get_le (b # bs) = unat b + 256 * get_le bs"

lemma length_put_le [simp]: "length (put_le n x) = n"
  by (induction n arbitrary: x) auto

lemma get_le_bound: "get_le bs < 256 ^ length bs"
proof (induction bs)
  case (Cons b bs)
  have "unat b < 256" using unsigned_less [of b, where ?'a = nat] by simp
  with Cons show ?case by simp
qed simp

lemma get_put_le: "get_le (put_le n x) = x mod 256 ^ n"
proof (induction n arbitrary: x)
  case (Suc n)
  have "unat (word_of_nat x :: byte) = x mod 256"
    by (simp add: unat_of_nat take_bit_eq_mod)
  then show ?case using Suc by (simp add: mod_mult2_eq)
qed simp

lemma put_get_le: "put_le (length bs) (get_le bs) = bs"
proof (induction bs)
  case (Cons b bs)
  have "unat b < 256" using unsigned_less [of b, where ?'a = nat] by simp
  moreover have "(256 :: byte) = 0" by simp
  then have "word_of_nat (unat b + 256 * get_le bs) = b"
    by (simp only: of_nat_add of_nat_mult of_nat_numeral mult_zero_left add_0_right of_nat_unat ucast_id)
  ultimately show ?case using Cons by simp
qed simp

text \<open>
  The methods of \<open>binary.LittleEndian\<close> and \<open>binary.BigEndian\<close> the program calls. A
  \<open>Put\<close> fills exactly its width; a getter is always applied to a slice of that width.
\<close>

definition LE_PutUint16 :: "u16 \<Rightarrow> bytes" where "LE_PutUint16 w = put_le 2 (unat w)"
definition LE_PutUint32 :: "u32 \<Rightarrow> bytes" where "LE_PutUint32 w = put_le 4 (unat w)"
definition LE_PutUint64 :: "u64 \<Rightarrow> bytes" where "LE_PutUint64 w = put_le 8 (unat w)"
definition BE_PutUint16 :: "u16 \<Rightarrow> bytes" where "BE_PutUint16 w = rev (put_le 2 (unat w))"
definition BE_PutUint32 :: "u32 \<Rightarrow> bytes" where "BE_PutUint32 w = rev (put_le 4 (unat w))"
definition BE_PutUint64 :: "u64 \<Rightarrow> bytes" where "BE_PutUint64 w = rev (put_le 8 (unat w))"

definition LE_Uint16 :: "bytes \<Rightarrow> u16" where "LE_Uint16 bs = word_of_nat (get_le bs)"
definition LE_Uint32 :: "bytes \<Rightarrow> u32" where "LE_Uint32 bs = word_of_nat (get_le bs)"
definition LE_Uint64 :: "bytes \<Rightarrow> u64" where "LE_Uint64 bs = word_of_nat (get_le bs)"
definition BE_Uint16 :: "bytes \<Rightarrow> u16" where "BE_Uint16 bs = word_of_nat (get_le (rev bs))"
definition BE_Uint32 :: "bytes \<Rightarrow> u32" where "BE_Uint32 bs = word_of_nat (get_le (rev bs))"
definition BE_Uint64 :: "bytes \<Rightarrow> u64" where "BE_Uint64 bs = word_of_nat (get_le (rev bs))"

text \<open>
  The contract of a fixed-width field: its width, and that putting and getting are
  mutually inverse. What a decoder needs of a field (reading it back in the middle of a
  buffer, that equal bytes mean equal values) is proved once from these laws.
\<close>

locale int_codec =
  fixes put :: "'w \<Rightarrow> bytes" and get :: "bytes \<Rightarrow> 'w" and width :: nat
  assumes length_put: "length (put w) = width"
    and get_put: "get (put w) = w"
    and put_get: "length bs = width \<Longrightarrow> put (get bs) = bs"
begin

lemma get_field: "length pre = a \<Longrightarrow> b = a + width \<Longrightarrow> get (slice a b (pre @ put w @ post)) = w"
  by (simp add: slice_mid length_put get_put)

lemma get_first: "b = width \<Longrightarrow> get (slice 0 b (put w @ post)) = w"
  using get_field [of "[]" 0] by simp

lemma put_inject: "put v = put w \<longleftrightarrow> v = w"
  by (metis get_put)

lemma get_inject: "length bs = width \<Longrightarrow> length cs = width \<Longrightarrow> get bs = get cs \<longleftrightarrow> bs = cs"
  by (metis put_get)

lemma take_put: "n = width \<Longrightarrow> take n (put w @ bs) = put w"
  by (simp add: length_put)

lemma drop_put: "n = width \<Longrightarrow> drop n (put w @ bs) = bs"
  by (simp add: length_put)

end

lemma get_le_word:
  "x < 256 ^ n \<Longrightarrow> get_le (put_le n x) = x"
  by (simp add: get_put_le)

interpretation le16: int_codec LE_PutUint16 LE_Uint16 2
proof unfold_locales
  fix w :: u16 and bs :: bytes
  show "length (LE_PutUint16 w) = 2" by (simp add: LE_PutUint16_def)
  show "LE_Uint16 (LE_PutUint16 w) = w"
    using unsigned_less [of w, where ?'a = nat] by (simp add: LE_PutUint16_def LE_Uint16_def get_le_word)
  assume "length bs = 2"
  then show "LE_PutUint16 (LE_Uint16 bs) = bs"
    using get_le_bound [of bs] put_get_le [of bs]
    by (simp add: LE_PutUint16_def LE_Uint16_def unat_word_of_nat_u16)
qed

interpretation le32: int_codec LE_PutUint32 LE_Uint32 4
proof unfold_locales
  fix w :: u32 and bs :: bytes
  show "length (LE_PutUint32 w) = 4" by (simp add: LE_PutUint32_def)
  show "LE_Uint32 (LE_PutUint32 w) = w"
    using unsigned_less [of w, where ?'a = nat] by (simp add: LE_PutUint32_def LE_Uint32_def get_le_word)
  assume "length bs = 4"
  then show "LE_PutUint32 (LE_Uint32 bs) = bs"
    using get_le_bound [of bs] put_get_le [of bs]
    by (simp add: LE_PutUint32_def LE_Uint32_def unat_word_of_nat_u32)
qed

lemma unat_word_of_nat_u64: "n < 2 ^ 64 \<Longrightarrow> unat (word_of_nat n :: u64) = n"
  by (simp add: unat_of_nat take_bit_nat_eq_self)

interpretation le64: int_codec LE_PutUint64 LE_Uint64 8
proof unfold_locales
  fix w :: u64 and bs :: bytes
  show "length (LE_PutUint64 w) = 8" by (simp add: LE_PutUint64_def)
  show "LE_Uint64 (LE_PutUint64 w) = w"
    using unsigned_less [of w, where ?'a = nat] by (simp add: LE_PutUint64_def LE_Uint64_def get_le_word)
  assume "length bs = 8"
  then show "LE_PutUint64 (LE_Uint64 bs) = bs"
    using get_le_bound [of bs] put_get_le [of bs]
    by (simp add: LE_PutUint64_def LE_Uint64_def unat_word_of_nat_u64)
qed

text \<open>The big-endian codecs are the little-endian ones on the reversed field.\<close>

lemma BE_LE_16: "BE_PutUint16 w = rev (LE_PutUint16 w)" "BE_Uint16 bs = LE_Uint16 (rev bs)"
  by (simp_all add: BE_PutUint16_def LE_PutUint16_def BE_Uint16_def LE_Uint16_def)

lemma BE_LE_32: "BE_PutUint32 w = rev (LE_PutUint32 w)" "BE_Uint32 bs = LE_Uint32 (rev bs)"
  by (simp_all add: BE_PutUint32_def LE_PutUint32_def BE_Uint32_def LE_Uint32_def)

lemma BE_LE_64: "BE_PutUint64 w = rev (LE_PutUint64 w)" "BE_Uint64 bs = LE_Uint64 (rev bs)"
  by (simp_all add: BE_PutUint64_def LE_PutUint64_def BE_Uint64_def LE_Uint64_def)

interpretation be16: int_codec BE_PutUint16 BE_Uint16 2
  by unfold_locales (simp_all add: BE_LE_16 le16.length_put le16.get_put le16.put_get)

interpretation be32: int_codec BE_PutUint32 BE_Uint32 4
  by unfold_locales (simp_all add: BE_LE_32 le32.length_put le32.get_put le32.put_get)

interpretation be64: int_codec BE_PutUint64 BE_Uint64 8
  by unfold_locales (simp_all add: BE_LE_64 le64.length_put le64.get_put le64.put_get)

lemmas codec_lengths [simp, codec_simps] =
  le16.length_put le32.length_put le64.length_put be16.length_put be32.length_put be64.length_put

lemmas codec_inverses [simp, codec_simps] =
  le16.get_put le32.get_put le64.get_put be16.get_put be32.get_put be64.get_put

section \<open>Results\<close>

text \<open>A Go function returning \<open>(T, error)\<close> yields \<open>Inr t\<close> or \<open>Inl e\<close>.\<close>

abbreviation Err :: "'e \<Rightarrow> 'e + 'a" where "Err \<equiv> Inl"
abbreviation Ok :: "'a \<Rightarrow> 'e + 'a" where "Ok \<equiv> Inr"

definition is_ok :: "'e + 'a \<Rightarrow> bool" where
  "is_ok r \<longleftrightarrow> (case r of Inl _ \<Rightarrow> False | Inr _ \<Rightarrow> True)"

lemma is_ok_simps [simp]: "is_ok (Inr x)" "\<not> is_ok (Inl e)"
  by (simp_all add: is_ok_def)

lemma is_ok_iff: "is_ok r \<longleftrightarrow> (\<exists>x. r = Inr x)"
  by (cases r) auto

section \<open>Winding down\<close>

text \<open>
  The contract of concurrent parts that finish by themselves: every step keeps the invariant and lowers a rank, and as long as the goal
  is not reached some step is possible. Then no run is longer than the rank, and every run can be continued to the goal.
\<close>

locale winding =
  fixes step :: "'s \<Rightarrow> 's \<Rightarrow> bool" and inv :: "'s \<Rightarrow> bool" and rank :: "'s \<Rightarrow> nat" and goal :: "'s \<Rightarrow> bool"
  assumes step_inv: "inv s \<Longrightarrow> step s t \<Longrightarrow> inv t"
    and step_rank: "inv s \<Longrightarrow> step s t \<Longrightarrow> rank t < rank s"
    and progress: "inv s \<Longrightarrow> \<not> goal s \<Longrightarrow> \<exists>t. step s t"
begin

lemma run_rank: "(step ^^ n) s t \<Longrightarrow> inv s \<Longrightarrow> inv t \<and> n + rank t \<le> rank s"
proof (induction n arbitrary: t)
  case (Suc n)
  then obtain u where u: "(step ^^ n) s u" "step u t" by auto
  then show ?case using Suc step_inv [OF _ u(2)] step_rank [OF _ u(2)] by fastforce
qed simp

lemma steps_inv: "step\<^sup>*\<^sup>* s t \<Longrightarrow> inv s \<Longrightarrow> inv t"
  by (induction rule: rtranclp_induct) (auto intro: step_inv)

lemma no_infinite_run:
  assumes "inv s"
  shows "\<nexists>f. f 0 = s \<and> (\<forall>n. step (f n) (f (Suc n)))"
proof
  assume "\<exists>f. f 0 = s \<and> (\<forall>n. step (f n) (f (Suc n)))"
  then obtain f where f: "f 0 = s" "\<forall>n. step (f n) (f (Suc n))" by blast
  have "(step ^^ n) s (f n)" for n by (induction n) (use f in auto)
  then have "n \<le> rank s" for n using run_rank [of n s "f n"] assms by auto
  then show False using Suc_n_not_le_n by blast
qed

lemma reaches_goal: "inv s \<Longrightarrow> \<exists>t. step\<^sup>*\<^sup>* s t \<and> goal t"
proof (induction "rank s" arbitrary: s rule: less_induct)
  case less
  show ?case
  proof (cases "goal s")
    case False
    then obtain t where t: "step s t" using progress less.prems by blast
    then show ?thesis
      using less.hyps [OF step_rank [OF less.prems t] step_inv [OF less.prems t]] by (auto intro: converse_rtranclp_into_rtranclp)
  qed blast
qed

end

end
