(* ===== verification/Crc32c.thy ===== *)
theory Crc32c
  imports Prelude
begin

text \<open>
  CRC32C (Castagnoli), the checksum \<open>hash/crc32\<close> computes for the table
  \<open>crc32cTable\<close> of \<open>internal/engine/record.go\<close>: the reflected polynomial
  \<open>0x82f63b78\<close>, initial value and final complement all ones. The lemmas are those the
  storage formats rely on: writing the header tail and the body one after the other is
  the checksum of their concatenation, and any change confined to one byte changes the
  checksum.
\<close>

unbundle bit_operations_syntax

definition castagnoli :: u32 where
  "castagnoli = 0x82f63b78"

definition crc_bit :: "u32 \<Rightarrow> u32" where
  "crc_bit s = (if bit s 0 then drop_bit 1 s XOR castagnoli else drop_bit 1 s)"

definition crc_byte :: "u32 \<Rightarrow> byte \<Rightarrow> u32" where
  "crc_byte s b = (let s0 = s XOR ucast b; s1 = crc_bit s0; s2 = crc_bit s1; s3 = crc_bit s2;
     s4 = crc_bit s3; s5 = crc_bit s4; s6 = crc_bit s5; s7 = crc_bit s6 in crc_bit s7)"

definition crc_write :: "u32 \<Rightarrow> bytes \<Rightarrow> u32" where
  "crc_write s bs = foldl crc_byte s bs"

definition crc_init :: u32 where
  "crc_init = NOT 0"

text \<open>\<open>crc32.New(crc32cTable)\<close>, a sequence of \<open>Write\<close>s, then \<open>Sum32\<close>.\<close>

definition crc_sum :: "u32 \<Rightarrow> u32" where
  "crc_sum s = NOT s"

text \<open>\<open>crc32.Checksum(data, crc32cTable)\<close>.\<close>

definition crc32c :: "bytes \<Rightarrow> u32" where
  "crc32c bs = crc_sum (crc_write crc_init bs)"

section \<open>Streaming\<close>

lemma crc_write_append: "crc_write s (xs @ ys) = crc_write (crc_write s xs) ys"
  by (simp add: crc_write_def)

lemma crc_stream: "crc_sum (crc_write (crc_write crc_init xs) ys) = crc32c (xs @ ys)"
  by (simp add: crc32c_def crc_write_append)

section \<open>Single-byte changes are detected\<close>

lemma bit_castagnoli_31: "bit castagnoli 31"
  by (simp add: castagnoli_def)

lemma bit_crc_bit_31: "bit (crc_bit s) 31 \<longleftrightarrow> bit s 0"
proof -
  have "\<not> bit (drop_bit 1 s) 31"
    using bit_imp_le_length [of s 32] by (auto simp: bit_drop_bit_eq)
  then show ?thesis
    using bit_castagnoli_31 by (simp add: crc_bit_def bit_xor_iff)
qed

lemma bit0_drop_bit_inject:
  fixes s t :: u32
  assumes "bit s 0 = bit t 0" "drop_bit 1 s = drop_bit 1 t"
  shows "s = t"
proof (rule bit_eqI)
  fix n
  show "bit s n = bit t n"
  proof (cases n)
    case 0
    with assms(1) show ?thesis by simp
  next
    case (Suc m)
    from assms(2) have "bit (drop_bit 1 s) m = bit (drop_bit 1 t) m" by simp
    with Suc show ?thesis by (simp add: bit_drop_bit_eq)
  qed
qed

lemma crc_bit_inject: "crc_bit s = crc_bit t \<longleftrightarrow> s = t"
proof
  assume eq: "crc_bit s = crc_bit t"
  then have par: "bit s 0 = bit t 0"
    by (metis bit_crc_bit_31)
  have "drop_bit 1 s = drop_bit 1 t"
  proof (cases "bit s 0")
    case True
    with par eq have "drop_bit 1 s XOR castagnoli = drop_bit 1 t XOR castagnoli"
      by (simp add: crc_bit_def)
    then have "(drop_bit 1 s XOR castagnoli) XOR castagnoli = (drop_bit 1 t XOR castagnoli) XOR castagnoli"
      by simp
    then show ?thesis by (simp add: xor.assoc)
  next
    case False
    with par eq show ?thesis by (simp add: crc_bit_def)
  qed
  with par show "s = t" by (rule bit0_drop_bit_inject)
qed simp

lemma xor_right_inject: "x XOR y = x XOR z \<longleftrightarrow> y = z" for x y z :: "'a::len word"
  by (metis xor.assoc xor_self_eq xor.left_neutral)

lemma xor_left_inject: "y XOR x = z XOR x \<longleftrightarrow> y = z" for x y z :: "'a::len word"
  by (metis xor.commute xor_right_inject)

lemma ucast_byte_inject: "(ucast b :: u32) = ucast c \<longleftrightarrow> b = c" for b c :: byte
proof
  assume eq: "(ucast b :: u32) = ucast c"
  have "bit b n = bit c n" if "n < 8" for n
    using arg_cong [OF eq, of "\<lambda>w. bit w n"] that by (simp add: bit_ucast_iff)
  then show "b = c" by (intro bit_word_eqI) simp
qed simp

lemma crc_byte_inject_state: "crc_byte s b = crc_byte t b \<longleftrightarrow> s = t"
  by (simp add: crc_byte_def crc_bit_inject xor_left_inject Let_def)

lemma crc_byte_inject_byte: "crc_byte s b = crc_byte s c \<longleftrightarrow> b = c"
  by (simp add: crc_byte_def crc_bit_inject xor_right_inject ucast_byte_inject Let_def)

lemma crc_write_inject: "crc_write s bs = crc_write t bs \<longleftrightarrow> s = t"
  by (induction bs arbitrary: s t) (simp_all add: crc_write_def crc_byte_inject_state)

lemma crc32c_byte_change:
  "crc32c (pre @ b # post) = crc32c (pre @ c # post) \<longleftrightarrow> b = c"
proof -
  have "crc32c (pre @ b # post) = crc32c (pre @ c # post) \<longleftrightarrow>
      crc_write (crc_byte (crc_write crc_init pre) b) post
      = crc_write (crc_byte (crc_write crc_init pre) c) post"
    by (simp add: crc32c_def crc_sum_def crc_write_def)
  then show ?thesis
    by (simp add: crc_write_inject crc_byte_inject_byte)
qed

lemma crc32c_update_change:
  assumes "i < length bs" "b \<noteq> bs ! i"
  shows "crc32c (bs[i := b]) \<noteq> crc32c bs"
  using crc32c_byte_change [of "take i bs" b "drop (Suc i) bs" "bs ! i"] assms
  by (simp add: upd_conv_take_nth_drop id_take_nth_drop [symmetric])

text \<open>The published check value of CRC32C, for the string ``123456789''.\<close>

lemma crc32c_check_value:
  "crc32c [0x31, 0x32, 0x33, 0x34, 0x35, 0x36, 0x37, 0x38, 0x39] = 0xe3069283"
  by (simp add: crc32c_def crc_write_def crc_byte_def crc_bit_def crc_init_def crc_sum_def castagnoli_def)

end
