(* ===== verification/Log_Record.thy ===== *)
theory Log_Record
  imports Crc32c
begin

text \<open>
  The on-disk record format, \<open>internal/engine/record.go\<close>: single PUT and TOMBSTONE
  records, BATCH records, their encoders, the sequential reader \<open>readRecord\<close> and the
  batch-body parser \<open>decodeBatchBody\<close>. A reader is modelled by the bytes it still has to
  deliver; \<open>io.ReadFull\<close> is \<open>readFull\<close>. Offsets into a buffer are \<open>nat\<close>; absolute file
  offsets are \<open>int\<close>, as \<open>int64\<close> in the code.
\<close>

section \<open>Constants and data\<close>

definition recordHeaderSize :: nat where "recordHeaderSize = 21"
definition maxKeyLen :: nat where "maxKeyLen = 64 * 1024"
definition maxValLen :: nat where "maxValLen = 16 * 1024 * 1024"
definition batchCountSize :: nat where "batchCountSize = 4"
definition batchEntryHeaderSize :: nat where "batchEntryHeaderSize = 9"
definition maxBatchBodyLen :: nat where "maxBatchBodyLen = 1024 * 1024 * 1024"
definition maxBatchEntries :: nat where "maxBatchEntries = 1024 * 1024"

definition recordFlagPut :: byte where "recordFlagPut = 0"
definition recordFlagTombstone :: byte where "recordFlagTombstone = 1"
definition recordFlagBatch :: byte where "recordFlagBatch = 2"

lemmas record_consts = recordHeaderSize_def maxKeyLen_def maxValLen_def batchCountSize_def
  batchEntryHeaderSize_def maxBatchBodyLen_def maxBatchEntries_def

lemmas record_flags = recordFlagPut_def recordFlagTombstone_def recordFlagBatch_def

text \<open>The in-memory form of one log entry (\<open>type record struct\<close>).\<close>

record log_record =
  rec_tstamp :: int
  rec_flag :: byte
  rec_key :: bytes
  rec_value :: bytes

text \<open>One operation of a \<open>BatchPut\<close> (\<open>type BatchEntry struct\<close>).\<close>

record batch_entry =
  be_key :: bytes
  be_value :: bytes
  be_delete :: bool

text \<open>One parsed entry of a BATCH body (\<open>type batchEntryDecoded struct\<close>).\<close>

record batchEntryDecoded =
  bd_flag :: byte
  bd_key :: bytes
  bd_value :: bytes
  bd_valuePos :: int

text \<open>Why a batch body is malformed: the wrapped messages of \<open>errBadBatchBody\<close>.\<close>

datatype batch_reason =
    BodyTooShortForCount
  | CountExceedsMaxEntries
  | CountExceedsCapacity
  | EntryHeaderPastEnd nat
  | EntryUnknownFlag nat byte
  | EntryBadKeyLen nat
  | EntryBadValLen nat
  | EntryTombstoneWithValue nat
  | EntryBodyPastEnd nat
  | TrailingBytes
  | BadBatchLength

datatype record_error =
    ErrBadCRC
  | ErrBadFlag
  | ErrRecKeyTooLarge
  | ErrRecValueTooLarge
  | ErrBadBatchBody batch_reason
  | ErrShortBuffer
  | ErrEOF
  | ErrUnexpectedEOF

section \<open>Encoding single records\<close>

definition encodedSize :: "log_record \<Rightarrow> nat" where
  "encodedSize r = recordHeaderSize + length (rec_key r) + length (rec_value r)"

text \<open>Header bytes 4 to 20: time stamp, flag, key length, value length.\<close>

definition header_tail :: "int \<Rightarrow> byte \<Rightarrow> u32 \<Rightarrow> u32 \<Rightarrow> bytes" where
  "header_tail ts fl kl vl =
     LE_PutUint64 (u64_of_int64 ts) @ [fl] @ LE_PutUint32 kl @ LE_PutUint32 vl"

text \<open>A whole record on disk: the checksum of everything after it, then header tail and body.\<close>

definition frame_bytes :: "int \<Rightarrow> byte \<Rightarrow> u32 \<Rightarrow> u32 \<Rightarrow> bytes \<Rightarrow> bytes" where
  "frame_bytes ts fl kl vl body =
     (let tl = header_tail ts fl kl vl @ body in LE_PutUint32 (crc32c tl) @ tl)"

text \<open>
  \<open>func (r *record) encode(buf []byte) (int, error)\<close>: the number of bytes written and the
  buffer afterwards; bytes of \<open>buf\<close> past the record keep their old contents.
\<close>

definition encode :: "log_record \<Rightarrow> bytes \<Rightarrow> record_error + nat \<times> bytes" where
  "encode r buf =
     (if length (rec_key r) = 0 \<or> length (rec_key r) > maxKeyLen then Err ErrRecKeyTooLarge
      else if length (rec_value r) > maxValLen then Err ErrRecValueTooLarge
      else let n = encodedSize r in
        if length buf < n then Err ErrShortBuffer
        else Ok (n, frame_bytes (rec_tstamp r) (rec_flag r) (word_of_nat (length (rec_key r)))
                      (word_of_nat (length (rec_value r))) (rec_key r @ rec_value r) @ drop n buf))"

section \<open>Reading records\<close>

text \<open>
  \<open>io.ReadFull\<close> on a reader with \<open>src\<close> still to deliver: \<open>EOF\<close> when nothing could be
  read, \<open>ErrUnexpectedEOF\<close> when only part could.
\<close>

definition readFull :: "nat \<Rightarrow> bytes \<Rightarrow> record_error + bytes \<times> bytes" where
  "readFull n src =
     (if n = 0 then Ok ([], src)
      else if src = [] then Err ErrEOF
      else if length src < n then Err ErrUnexpectedEOF
      else Ok (take n src, drop n src))"

text \<open>The five header fields, read at their fixed offsets.\<close>

definition hdr_crc :: "bytes \<Rightarrow> u32" where "hdr_crc hdr = LE_Uint32 (slice 0 4 hdr)"
definition hdr_tstamp :: "bytes \<Rightarrow> int" where "hdr_tstamp hdr = int64_of_u64 (LE_Uint64 (slice 4 12 hdr))"
definition hdr_flag :: "bytes \<Rightarrow> byte" where "hdr_flag hdr = hdr ! 12"
definition hdr_keyLen :: "bytes \<Rightarrow> u32" where "hdr_keyLen hdr = LE_Uint32 (slice 13 17 hdr)"
definition hdr_valLen :: "bytes \<Rightarrow> u32" where "hdr_valLen hdr = LE_Uint32 (slice 17 21 hdr)"

lemmas hdr_defs = hdr_crc_def hdr_tstamp_def hdr_flag_def hdr_keyLen_def hdr_valLen_def

text \<open>The flag and length checks of \<open>readRecord\<close>, in its order.\<close>

definition check_header :: "byte \<Rightarrow> u32 \<Rightarrow> u32 \<Rightarrow> record_error option" where
  "check_header fl kl vl =
     (if fl \<noteq> recordFlagPut \<and> fl \<noteq> recordFlagTombstone \<and> fl \<noteq> recordFlagBatch then Some ErrBadFlag
      else if fl = recordFlagBatch then
        (if kl \<noteq> 0 then Some ErrBadFlag
         else if unat vl < batchCountSize then Some (ErrBadBatchBody BadBatchLength)
         else if unat vl > maxBatchBodyLen then Some (ErrBadBatchBody BadBatchLength)
         else None)
      else if kl = 0 \<or> unat kl > maxKeyLen then Some ErrRecKeyTooLarge
      else if unat vl > maxValLen then Some ErrRecValueTooLarge
      else None)"

text \<open>
  \<open>func readRecord(r io.Reader) (*record, int, error)\<close>: the record, the bytes consumed and
  what the reader has left; or the error and the count the code reports with it.
\<close>

definition readRecord :: "bytes \<Rightarrow> (record_error \<times> nat) + (log_record \<times> nat \<times> bytes)" where
  "readRecord src =
     (case readFull recordHeaderSize src of
        Inl e \<Rightarrow> Err (e, 0)
      | Inr (hdr, src1) \<Rightarrow>
          let fl = hdr_flag hdr; kl = hdr_keyLen hdr; vl = hdr_valLen hdr in
          (case check_header fl kl vl of
             Some e \<Rightarrow> Err (e, recordHeaderSize)
           | None \<Rightarrow>
               (case readFull (unat (kl + vl)) src1 of
                  Inl e \<Rightarrow> Err (e, recordHeaderSize)
                | Inr (body, src2) \<Rightarrow>
                    if crc_sum (crc_write (crc_write crc_init (drop 4 hdr)) body) \<noteq> hdr_crc hdr
                    then Err (ErrBadCRC, recordHeaderSize + length body)
                    else Ok (\<lparr>rec_tstamp = hdr_tstamp hdr, rec_flag = fl,
                              rec_key = take (unat kl) body,
                              rec_value = (if fl = recordFlagPut then drop (unat kl) body
                                           else if fl = recordFlagBatch then body else [])\<rparr>,
                             recordHeaderSize + length body, src2))))"

section \<open>Batch bodies\<close>

definition encodedBatchBodySize :: "batch_entry list \<Rightarrow> nat" where
  "encodedBatchBodySize es = foldl (\<lambda>n e. n + (batchEntryHeaderSize + length (be_key e)) +
       (if \<not> be_delete e then length (be_value e) else 0)) batchCountSize es"

text \<open>The value bytes an entry contributes: a delete contributes none.\<close>

definition entry_value :: "batch_entry \<Rightarrow> bytes" where
  "entry_value e = (if be_delete e then [] else be_value e)"

definition entry_flag :: "batch_entry \<Rightarrow> byte" where
  "entry_flag e = (if be_delete e then recordFlagTombstone else recordFlagPut)"

definition entry_bytes :: "batch_entry \<Rightarrow> bytes" where
  "entry_bytes e = [entry_flag e] @ LE_PutUint32 (word_of_nat (length (be_key e))) @
     LE_PutUint32 (word_of_nat (length (entry_value e))) @ be_key e @ entry_value e"

fun encodeBatchEntries :: "batch_entry list \<Rightarrow> record_error + bytes" where
  "encodeBatchEntries [] = Ok []"
| "encodeBatchEntries (e # es) =
     (if length (be_key e) = 0 \<or> length (be_key e) > maxKeyLen then Err ErrRecKeyTooLarge
      else if \<not> be_delete e \<and> length (be_value e) > maxValLen then Err ErrRecValueTooLarge
      else (case encodeBatchEntries es of Inl x \<Rightarrow> Err x | Inr bs \<Rightarrow> Ok (entry_bytes e @ bs)))"

definition batch_body :: "batch_entry list \<Rightarrow> bytes" where
  "batch_body es = LE_PutUint32 (word_of_nat (length es)) @ concat (map entry_bytes es)"

definition encodeBatchRecord :: "bytes \<Rightarrow> int \<Rightarrow> batch_entry list \<Rightarrow> record_error + nat \<times> bytes" where
  "encodeBatchRecord buf ts es =
     (let bodyLen = encodedBatchBodySize es; total = recordHeaderSize + bodyLen in
      if length buf < total then Err ErrShortBuffer
      else (case encodeBatchEntries es of
              Inl x \<Rightarrow> Err x
            | Inr bs \<Rightarrow> Ok (total, frame_bytes ts recordFlagBatch 0 (word_of_nat bodyLen)
                              (LE_PutUint32 (word_of_nat (length es)) @ bs) @ drop total buf)))"

text \<open>The loop of \<open>decodeBatchBody\<close>: \<open>i\<close> is the entry index, \<open>n\<close> the entries left, \<open>off\<close> the offset.\<close>

fun decodeBatchEntries ::
  "bytes \<Rightarrow> int \<Rightarrow> nat \<Rightarrow> nat \<Rightarrow> nat \<Rightarrow> record_error + batchEntryDecoded list \<times> nat" where
  "decodeBatchEntries body recordStart i 0 off = Ok ([], off)"
| "decodeBatchEntries body recordStart i (Suc n) off =
     (if off + batchEntryHeaderSize > length body then Err (ErrBadBatchBody (EntryHeaderPastEnd i))
      else
        let innerFlag = body ! off;
            kLen = unat (LE_Uint32 (slice (off + 1) (off + 5) body));
            vLen = unat (LE_Uint32 (slice (off + 5) (off + 9) body)) in
        if innerFlag \<noteq> recordFlagPut \<and> innerFlag \<noteq> recordFlagTombstone
        then Err (ErrBadBatchBody (EntryUnknownFlag i innerFlag))
        else if kLen = 0 \<or> kLen > maxKeyLen then Err (ErrBadBatchBody (EntryBadKeyLen i))
        else if vLen > maxValLen then Err (ErrBadBatchBody (EntryBadValLen i))
        else if innerFlag = recordFlagTombstone \<and> vLen \<noteq> 0
        then Err (ErrBadBatchBody (EntryTombstoneWithValue i))
        else
          let kvEnd = off + batchEntryHeaderSize + kLen + vLen in
          if kvEnd > length body then Err (ErrBadBatchBody (EntryBodyPastEnd i))
          else
            let keyStart = off + batchEntryHeaderSize;
                e = \<lparr>bd_flag = innerFlag,
                     bd_key = slice keyStart (keyStart + kLen) body,
                     bd_value = (if innerFlag = recordFlagPut
                                 then slice (keyStart + kLen) kvEnd body else []),
                     bd_valuePos = recordStart + int (recordHeaderSize + off + batchEntryHeaderSize + kLen)\<rparr> in
            (case decodeBatchEntries body recordStart (Suc i) n kvEnd of
               Inl x \<Rightarrow> Err x
             | Inr (es, off') \<Rightarrow> Ok (e # es, off')))"

definition decodeBatchBody :: "bytes \<Rightarrow> int \<Rightarrow> record_error + batchEntryDecoded list" where
  "decodeBatchBody body recordStart =
     (if length body < batchCountSize then Err (ErrBadBatchBody BodyTooShortForCount)
      else
        let count = unat (LE_Uint32 (slice 0 4 body)) in
        if count > maxBatchEntries then Err (ErrBadBatchBody CountExceedsMaxEntries)
        else if count > (length body - batchCountSize) div (batchEntryHeaderSize + 1)
        then Err (ErrBadBatchBody CountExceedsCapacity)
        else (case decodeBatchEntries body recordStart 0 count batchCountSize of
                Inl x \<Rightarrow> Err x
              | Inr (es, off) \<Rightarrow> if off \<noteq> length body then Err (ErrBadBatchBody TrailingBytes) else Ok es))"


section \<open>The header\<close>

lemma length_header_tail [simp]: "length (header_tail ts fl kl vl) = 17"
  by (simp add: header_tail_def)

lemma length_frame_bytes [simp]: "length (frame_bytes ts fl kl vl body) = recordHeaderSize + length body"
  by (simp add: frame_bytes_def Let_def recordHeaderSize_def)

lemma hdr_fields [simp]:
  shows "hdr_crc (LE_PutUint32 c @ header_tail ts fl kl vl) = c"
    and "hdr_tstamp (LE_PutUint32 c @ header_tail ts fl kl vl) = int64_of_u64 (u64_of_int64 ts)"
    and "hdr_flag (LE_PutUint32 c @ header_tail ts fl kl vl) = fl"
    and "hdr_keyLen (LE_PutUint32 c @ header_tail ts fl kl vl) = kl"
    and "hdr_valLen (LE_PutUint32 c @ header_tail ts fl kl vl) = vl"
  by (simp_all add: hdr_defs header_tail_def slice_def nth_append)

lemma frame_bytes_split:
  "frame_bytes ts fl kl vl body =
     (LE_PutUint32 (crc32c (header_tail ts fl kl vl @ body)) @ header_tail ts fl kl vl) @ body"
  by (simp add: frame_bytes_def Let_def)

lemma take_header_frame:
  "take 21 (frame_bytes ts fl kl vl body @ rest) =
     LE_PutUint32 (crc32c (header_tail ts fl kl vl @ body)) @ header_tail ts fl kl vl"
  by (simp add: frame_bytes_split)

lemma drop_header_frame: "drop 21 (frame_bytes ts fl kl vl body @ rest) = body @ rest"
  by (simp add: frame_bytes_split)

lemma header_of_bytes:
  assumes "length hdr = 21"
  shows "hdr = LE_PutUint32 (hdr_crc hdr) @
    header_tail (hdr_tstamp hdr) (hdr_flag hdr) (hdr_keyLen hdr) (hdr_valLen hdr)"
proof -
  have "[hdr ! 12] = slice 12 13 hdr"
    using assms slice_single [of 12 hdr] by simp
  then have "hdr = slice 0 4 hdr @ slice 4 12 hdr @ [hdr ! 12] @ slice 13 17 hdr @ slice 17 21 hdr"
    using assms by (simp only: slice_join le_numeral_extra numeral_le_iff semiring_norm zero_le)
      (simp add: slice_full)
  then show ?thesis
    using assms by (simp add: hdr_defs header_tail_def le32.put_get le64.put_get)
qed

lemma check_header_body_bound:
  "check_header fl kl vl = None \<Longrightarrow> unat (kl + vl) = unat kl + unat vl \<and> 0 < unat (kl + vl)"
proof -
  assume a: "check_header fl kl vl = None"
  then have "unat kl + unat vl < 2 ^ 32"
    by (auto simp: check_header_def record_consts split: if_splits)
  then have "unat (kl + vl) = unat kl + unat vl"
    by (simp add: unat_word_ariths)
  moreover from a have "0 < unat kl + unat vl"
    by (auto simp: check_header_def record_consts unat_gt_0 split: if_splits)
  ultimately show ?thesis by simp
qed

section \<open>Reading what was written\<close>

lemma readFull_exact [simp]:
  "0 < n \<Longrightarrow> length xs = n \<Longrightarrow> readFull n (xs @ ys) = Ok (xs, ys)"
  by (auto simp: readFull_def)

lemma readFull_Ok_iff:
  "readFull n src = Ok (xs, ys) \<longleftrightarrow> src = xs @ ys \<and> length xs = n"
  by (auto simp: readFull_def)

text \<open>The record \<open>readRecord\<close> returns for a header and body that pass every check.\<close>

definition parsed_record :: "int \<Rightarrow> byte \<Rightarrow> u32 \<Rightarrow> bytes \<Rightarrow> log_record" where
  "parsed_record ts fl kl body = \<lparr>rec_tstamp = ts, rec_flag = fl, rec_key = take (unat kl) body,
     rec_value = (if fl = recordFlagPut then drop (unat kl) body
                  else if fl = recordFlagBatch then body else [])\<rparr>"

lemma readRecord_frame:
  assumes "check_header fl kl vl = None" "length body = unat (kl + vl)"
  shows "readRecord (frame_bytes ts fl kl vl body @ rest) =
    Ok (parsed_record (int64_of_u64 (u64_of_int64 ts)) fl kl body, recordHeaderSize + length body, rest)"
proof -
  let ?h = "LE_PutUint32 (crc32c (header_tail ts fl kl vl @ body)) @ header_tail ts fl kl vl"
  have "readFull recordHeaderSize (frame_bytes ts fl kl vl body @ rest) = Ok (?h, body @ rest)"
    unfolding frame_bytes_split append_assoc [of ?h]
    by (rule readFull_exact) (simp_all add: recordHeaderSize_def)
  moreover have "readFull (unat (kl + vl)) (body @ rest) = Ok (body, rest)"
    using check_header_body_bound [OF assms(1)] assms(2) by (intro readFull_exact) auto
  ultimately show ?thesis
    using assms(1)
    by (simp only: readRecord_def sum.case prod.case Let_def hdr_fields option.case)
      (simp add: crc_stream parsed_record_def)
qed

lemma readRecord_Ok_frame:
  assumes "readRecord src = Ok (r, n, rest)"
  obtains ts fl kl vl body where "int64_range ts" "check_header fl kl vl = None"
    "length body = unat (kl + vl)" "src = frame_bytes ts fl kl vl body @ rest"
    "r = parsed_record ts fl kl body" "n = recordHeaderSize + length body"
proof -
  from assms obtain hdr src1 where h: "readFull recordHeaderSize src = Ok (hdr, src1)"
    by (auto simp: readRecord_def split: sum.splits)
  then have src: "src = hdr @ src1" and len: "length hdr = 21"
    by (auto simp: readFull_Ok_iff recordHeaderSize_def)
  let ?fl = "hdr_flag hdr" and ?kl = "hdr_keyLen hdr" and ?vl = "hdr_valLen hdr"
  from assms h have chk: "check_header ?fl ?kl ?vl = None"
    by (auto simp: readRecord_def Let_def split: option.splits)
  with assms h obtain body where b: "readFull (unat (?kl + ?vl)) src1 = Ok (body, rest)"
    and crc: "crc32c (drop 4 hdr @ body) = hdr_crc hdr"
    and r: "r = parsed_record (hdr_tstamp hdr) ?fl ?kl body"
    and n: "n = recordHeaderSize + length body"
    by (auto simp: readRecord_def Let_def crc_stream parsed_record_def split: sum.splits if_splits)
  from b have src1: "src1 = body @ rest" and bl: "length body = unat (?kl + ?vl)"
    by (auto simp: readFull_Ok_iff)
  have hb: "hdr = LE_PutUint32 (hdr_crc hdr) @ header_tail (hdr_tstamp hdr) ?fl ?kl ?vl"
    using len by (rule header_of_bytes)
  have "drop 4 hdr = header_tail (hdr_tstamp hdr) ?fl ?kl ?vl"
    using arg_cong [OF hb, of "drop 4"] by simp
  then have "hdr @ body = frame_bytes (hdr_tstamp hdr) ?fl ?kl ?vl body"
    using hb crc by (simp add: frame_bytes_def Let_def)
  then have "src = frame_bytes (hdr_tstamp hdr) ?fl ?kl ?vl body @ rest"
    using src src1 by simp
  moreover have "int64_range (hdr_tstamp hdr)" by (simp add: hdr_tstamp_def)
  ultimately show ?thesis using that chk bl r n by blast
qed


section \<open>Single records\<close>

text \<open>The bytes a single record occupies on disk.\<close>

definition record_bytes :: "log_record \<Rightarrow> bytes" where
  "record_bytes r = frame_bytes (rec_tstamp r) (rec_flag r) (word_of_nat (length (rec_key r)))
     (word_of_nat (length (rec_value r))) (rec_key r @ rec_value r)"

text \<open>What the writer emits: a PUT, or a TOMBSTONE without a value, within the size limits.\<close>

definition valid_record :: "log_record \<Rightarrow> bool" where
  "valid_record r \<longleftrightarrow> int64_range (rec_tstamp r) \<and>
     0 < length (rec_key r) \<and> length (rec_key r) \<le> maxKeyLen \<and> length (rec_value r) \<le> maxValLen \<and>
     (rec_flag r = recordFlagPut \<or> rec_flag r = recordFlagTombstone \<and> rec_value r = [])"

lemma length_record_bytes [simp]: "length (record_bytes r) = encodedSize r"
  by (simp add: record_bytes_def encodedSize_def)

lemma encode_Ok_iff:
  "encode r buf = Ok (n, out) \<longleftrightarrow>
     0 < length (rec_key r) \<and> length (rec_key r) \<le> maxKeyLen \<and> length (rec_value r) \<le> maxValLen \<and>
     encodedSize r \<le> length buf \<and> n = encodedSize r \<and> out = record_bytes r @ drop n buf"
  by (auto simp: encode_def record_bytes_def Let_def)

lemma unat_len_key: "n \<le> maxKeyLen \<Longrightarrow> unat (word_of_nat n :: u32) = n"
  by (rule unat_word_of_nat_u32) (simp add: maxKeyLen_def)

lemma unat_len_val: "n \<le> maxValLen \<Longrightarrow> unat (word_of_nat n :: u32) = n"
  by (rule unat_word_of_nat_u32) (simp add: maxValLen_def)

lemma check_header_single:
  assumes "0 < k" "k \<le> maxKeyLen" "v \<le> maxValLen"
    and "fl = recordFlagPut \<or> fl = recordFlagTombstone"
  shows "check_header fl (word_of_nat k) (word_of_nat v) = None"
proof -
  have "(word_of_nat k :: u32) \<noteq> 0"
    using assms(1) unat_len_key [OF assms(2)] by auto
  then show ?thesis
    using assms unat_len_key [OF assms(2)] unat_len_val [OF assms(3)]
    by (auto simp: check_header_def record_flags)
qed

lemma valid_record_header:
  assumes "valid_record r"
  shows "check_header (rec_flag r) (word_of_nat (length (rec_key r))) (word_of_nat (length (rec_value r))) = None"
    and "length (rec_key r @ rec_value r) =
      unat ((word_of_nat (length (rec_key r)) :: u32) + word_of_nat (length (rec_value r)))"
proof -
  from assms show chk: "check_header (rec_flag r) (word_of_nat (length (rec_key r))) (word_of_nat (length (rec_value r))) = None"
    by (intro check_header_single) (auto simp: valid_record_def)
  from check_header_body_bound [OF this] assms
  show "length (rec_key r @ rec_value r) =
      unat ((word_of_nat (length (rec_key r)) :: u32) + word_of_nat (length (rec_value r)))"
    by (simp add: valid_record_def unat_len_key unat_len_val)
qed

lemma parsed_record_single:
  "valid_record r \<Longrightarrow>
   parsed_record (rec_tstamp r) (rec_flag r) (word_of_nat (length (rec_key r))) (rec_key r @ rec_value r) = r"
  by (auto simp: parsed_record_def valid_record_def unat_len_key record_flags)

lemma readRecord_record_bytes:
  assumes "valid_record r"
  shows "readRecord (record_bytes r @ rest) = Ok (r, encodedSize r, rest)"
  using readRecord_frame [OF valid_record_header [OF assms]] parsed_record_single [OF assms] assms
  by (simp add: record_bytes_def valid_record_def encodedSize_def add.assoc)

text \<open>
  C38. Writing a record and reading it back returns the same record, consumes exactly the
  bytes written and leaves the rest of the stream untouched.
\<close>

theorem readRecord_encode:
  assumes "encode r buf = Ok (n, out)" "int64_range (rec_tstamp r)"
    and "rec_flag r = recordFlagPut \<or> rec_flag r = recordFlagTombstone \<and> rec_value r = []"
  shows "readRecord (take n out @ rest) = Ok (r, n, rest)"
proof -
  from assms have "valid_record r" and "take n out = record_bytes r" and "n = encodedSize r"
    by (auto simp: encode_Ok_iff valid_record_def)
  then show ?thesis by (simp add: readRecord_record_bytes)
qed

theorem readRecord_encode_witness:
  "readRecord (take 24 (record_bytes \<lparr>rec_tstamp = 7, rec_flag = recordFlagPut, rec_key = [1, 2], rec_value = [3]\<rparr> @ [0]) @ [9])
   = Ok (\<lparr>rec_tstamp = 7, rec_flag = recordFlagPut, rec_key = [1, 2], rec_value = [3]\<rparr>, 24, [9])"
proof (rule readRecord_encode [where buf = "replicate 25 0"])
  show "encode \<lparr>rec_tstamp = 7, rec_flag = recordFlagPut, rec_key = [1, 2], rec_value = [3]\<rparr> (replicate 25 0)
    = Ok (24, record_bytes \<lparr>rec_tstamp = 7, rec_flag = recordFlagPut, rec_key = [1, 2], rec_value = [3]\<rparr> @ [0])"
    by (simp add: encode_Ok_iff encodedSize_def record_consts)
qed (simp_all add: int64_range_def)

text \<open>
  Reading is faithful to the bytes: whatever PUT record \<open>readRecord\<close> accepts, encoding
  it again reproduces the very bytes it was read from. Compaction relies on this when it
  re-encodes live records.
\<close>

theorem encode_readRecord:
  assumes "readRecord src = Ok (r, n, rest)" "rec_flag r = recordFlagPut"
  shows "encode r (replicate n 0) = Ok (n, take n src) \<and> src = take n src @ rest"
proof -
  obtain ts fl kl vl body where f: "int64_range ts" "check_header fl kl vl = None"
    "length body = unat (kl + vl)" "src = frame_bytes ts fl kl vl body @ rest"
    "r = parsed_record ts fl kl body" "n = recordHeaderSize + length body"
    by (rule readRecord_Ok_frame [OF assms(1)])
  have fl: "fl = recordFlagPut" using f(5) assms(2) by (simp add: parsed_record_def)
  have bl: "length body = unat kl + unat vl" using check_header_body_bound [OF f(2)] f(3) by simp
  have lim: "0 < unat kl" "unat kl \<le> maxKeyLen" "unat vl \<le> maxValLen"
    using f(2) fl by (auto simp: check_header_def record_flags unat_gt_0 split: if_splits)
  have "record_bytes r = frame_bytes ts fl kl vl body"
    using f(5) fl bl by (simp add: record_bytes_def parsed_record_def)
  moreover have "encodedSize r = n"
    using f(5,6) fl bl by (simp add: encodedSize_def parsed_record_def)
  ultimately show ?thesis
    using f(4,5,6) fl bl lim by (simp add: encode_Ok_iff parsed_record_def)
qed

theorem encode_readRecord_witness:
  "encode \<lparr>rec_tstamp = 7, rec_flag = recordFlagPut, rec_key = [1, 2], rec_value = [3]\<rparr> (replicate 24 0)
   = Ok (24, take 24 (record_bytes \<lparr>rec_tstamp = 7, rec_flag = recordFlagPut, rec_key = [1, 2], rec_value = [3]\<rparr> @ [9]))"
proof -
  let ?r = "\<lparr>rec_tstamp = 7, rec_flag = recordFlagPut, rec_key = [1, 2], rec_value = [3]\<rparr> :: log_record"
  have "readRecord (record_bytes ?r @ [9]) = Ok (?r, encodedSize ?r, [9])"
    by (rule readRecord_record_bytes) (simp add: valid_record_def int64_range_def record_consts)
  from encode_readRecord [OF this] show ?thesis
    by (simp add: encodedSize_def record_consts)
qed


lemma readRecord_truncated_bytes:
  assumes "valid_record r" "m < encodedSize r"
  shows "readRecord (take m (record_bytes r)) =
    Err (if m = 0 \<or> m = recordHeaderSize then ErrEOF else ErrUnexpectedEOF,
         if m < recordHeaderSize then 0 else recordHeaderSize)"
proof (cases "m < recordHeaderSize")
  case True
  with assms have len: "length (take m (record_bytes r)) = m" by simp
  have "take m (record_bytes r) = [] \<longleftrightarrow> m = 0"
    using len by (metis length_0_conv)
  with True len have "readFull recordHeaderSize (take m (record_bytes r)) =
      Err (if m = 0 then ErrEOF else ErrUnexpectedEOF)"
    by (simp only: readFull_def if_False) auto
  with True show ?thesis by (simp add: readRecord_def)
next
  case False
  let ?k = "word_of_nat (length (rec_key r)) :: u32" and ?v = "word_of_nat (length (rec_value r)) :: u32"
  let ?body = "rec_key r @ rec_value r"
  let ?h = "LE_PutUint32 (crc32c (header_tail (rec_tstamp r) (rec_flag r) ?k ?v @ ?body)) @
    header_tail (rec_tstamp r) (rec_flag r) ?k ?v"
  let ?part = "take (m - recordHeaderSize) ?body"
  have rb: "record_bytes r = ?h @ ?body"
    unfolding record_bytes_def by (rule frame_bytes_split)
  have lh: "length ?h = recordHeaderSize" by (simp add: recordHeaderSize_def)
  have "take m (h @ ys) = h @ take (m - recordHeaderSize) ys" if "length h = recordHeaderSize" for h ys :: bytes
    using that False by simp
  from this [OF lh] have "take m (record_bytes r) = ?h @ ?part" unfolding rb .
  moreover have "readFull recordHeaderSize (?h @ ?part) = Ok (?h, ?part)"
    by (rule readFull_exact) (simp_all add: recordHeaderSize_def)
  moreover have "length ?part < unat (?k + ?v)"
    using assms False by (simp flip: valid_record_header(2) add: encodedSize_def)
  then have "readFull (unat (?k + ?v)) ?part = Err (if m = recordHeaderSize then ErrEOF else ErrUnexpectedEOF)"
    using False assms(1) by (auto simp: readFull_def valid_record_def)
  ultimately show ?thesis
    using False valid_record_header(1) [OF assms(1)]
    by (simp only: readRecord_def sum.case prod.case Let_def hdr_fields option.case)
      (simp add: recordHeaderSize_def)
qed

text \<open>
  C39. A record cut short is never mistaken for a complete one: every proper prefix is
  reported as end of input. The report is \<open>ErrUnexpectedEOF\<close> except at the two boundaries
  where \<open>io.ReadFull\<close> has read nothing, before the first byte and right after the header.
\<close>

theorem readRecord_truncated:
  assumes "encode r buf = Ok (n, out)" "int64_range (rec_tstamp r)"
    and "rec_flag r = recordFlagPut \<or> rec_flag r = recordFlagTombstone \<and> rec_value r = []"
    and "m < n"
  shows "readRecord (take m out) =
    Err (if m = 0 \<or> m = recordHeaderSize then ErrEOF else ErrUnexpectedEOF,
         if m < recordHeaderSize then 0 else recordHeaderSize)"
proof -
  from assms have v: "valid_record r" and out: "out = record_bytes r @ drop n buf" and n: "n = encodedSize r"
    by (auto simp: encode_Ok_iff valid_record_def)
  from assms(4) n have "m < encodedSize r" by simp
  with v have "readRecord (take m (record_bytes r)) =
    Err (if m = 0 \<or> m = recordHeaderSize then ErrEOF else ErrUnexpectedEOF,
         if m < recordHeaderSize then 0 else recordHeaderSize)"
    by (rule readRecord_truncated_bytes)
  moreover have "take m out = take m (record_bytes r)" using out n assms(4) by simp
  ultimately show ?thesis by simp
qed

text \<open>At offset 21 the truncated record is reported as a clean end of the stream.\<close>

theorem readRecord_truncated_witness:
  "readRecord (take 21 (record_bytes \<lparr>rec_tstamp = 7, rec_flag = recordFlagPut, rec_key = [1, 2], rec_value = [3]\<rparr>))
   = Err (ErrEOF, 21)"
proof -
  let ?r = "\<lparr>rec_tstamp = 7, rec_flag = recordFlagPut, rec_key = [1, 2], rec_value = [3]\<rparr> :: log_record"
  have "encode ?r (replicate 24 0) = Ok (24, record_bytes ?r)"
    by (simp add: encode_Ok_iff encodedSize_def record_consts)
  from readRecord_truncated [OF this, of 21] show ?thesis
    by (simp add: int64_range_def record_consts)
qed

section \<open>Corruption\<close>

lemma frame_bytes_one_byte:
  assumes "(frame_bytes ts fl kl vl body)[i := b] = frame_bytes ts' fl' kl' vl' body'"
    and "i < length (frame_bytes ts fl kl vl body)"
  shows "b = frame_bytes ts fl kl vl body ! i"
proof -
  define tl where "tl = header_tail ts fl kl vl @ body"
  define tl' where "tl' = header_tail ts' fl' kl' vl' @ body'"
  have eq: "(LE_PutUint32 (crc32c tl) @ tl)[i := b] = LE_PutUint32 (crc32c tl') @ tl'"
    using assms(1) by (simp add: frame_bytes_def Let_def tl_def tl'_def)
  show ?thesis
  proof (cases "i < 4")
    case True
    have "(LE_PutUint32 (crc32c tl))[i := b] @ tl = LE_PutUint32 (crc32c tl') @ tl'"
      using eq list_update_append1 [of i "LE_PutUint32 (crc32c tl)" tl b] True by (metis codec_lengths(2))
    then have "(LE_PutUint32 (crc32c tl))[i := b] = LE_PutUint32 (crc32c tl)"
      using append_eq_append_conv by fastforce
    then have "b = LE_PutUint32 (crc32c tl) ! i"
      using True by (metis codec_lengths(2) nth_list_update_eq)
    then show ?thesis
      using True by (simp add: frame_bytes_def Let_def tl_def [symmetric] nth_append)
  next
    case False
    with eq have "LE_PutUint32 (crc32c tl) = LE_PutUint32 (crc32c tl')" and tl': "tl' = tl[i - 4 := b]"
      by (simp_all add: list_update_append)
    then have "crc32c (tl[i - 4 := b]) = crc32c tl"
      by (simp add: le32.put_inject)
    moreover have "i - 4 < length tl"
      using assms(2) False by (simp add: tl_def recordHeaderSize_def)
    ultimately have "b = tl ! (i - 4)"
      using crc32c_update_change by metis
    then show ?thesis
      using False by (simp add: frame_bytes_def Let_def tl_def [symmetric] nth_append)
  qed
qed

lemma hdr_lens_update:
  assumes "i < 13 \<or> 21 \<le> i" "21 \<le> length f"
  shows "hdr_keyLen (take 21 (f[i := b] @ rest)) = hdr_keyLen (take 21 f)"
    and "hdr_valLen (take 21 (f[i := b] @ rest)) = hdr_valLen (take 21 f)"
  using assms by (auto simp: hdr_keyLen_def hdr_valLen_def slice_take slice_update)

lemma readRecord_detects:
  assumes "check_header fl kl vl = None" "length body = unat (kl + vl)"
    and "f = frame_bytes ts fl kl vl body"
    and "i < length f" "i < 13 \<or> 21 \<le> i" "b \<noteq> f ! i"
  shows "\<not> is_ok (readRecord (f[i := b] @ rest))"
proof
  assume "is_ok (readRecord (f[i := b] @ rest))"
  then obtain r n rest' where "readRecord (f[i := b] @ rest) = Ok (r, n, rest')"
    by (auto simp: is_ok_iff)
  then obtain ts' fl' kl' vl' body' where g: "check_header fl' kl' vl' = None"
    "length body' = unat (kl' + vl')" "f[i := b] @ rest = frame_bytes ts' fl' kl' vl' body' @ rest'"
    by (rule readRecord_Ok_frame)
  have len: "21 \<le> length f" using assms(3) by (simp add: recordHeaderSize_def)
  have "take 21 f = LE_PutUint32 (crc32c (header_tail ts fl kl vl @ body)) @ header_tail ts fl kl vl"
    using take_header_frame [of ts fl kl vl body "[]"] assms(3) by simp
  then have "kl' = kl" "vl' = vl"
    using hdr_lens_update [OF assms(5) len, of b rest]
    by (simp_all only: g(3) take_header_frame hdr_fields)
  then have "length (f[i := b]) = length (frame_bytes ts' fl' kl' vl' body')"
    using assms(2,3) g(2) by simp
  with g(3) have "f[i := b] = frame_bytes ts' fl' kl' vl' body'" by simp
  with assms(3,4) have "b = f ! i" using frame_bytes_one_byte by blast
  with assms(6) show False by simp
qed

text \<open>
  Corruption of a single byte is always noticed: change any one byte of an encoded
  record other than the eight length bytes, and \<open>readRecord\<close> refuses the record, whatever
  follows it in the file.
\<close>

theorem readRecord_detects_corruption:
  assumes "encode r buf = Ok (n, out)"
    and "rec_flag r = recordFlagPut \<or> rec_flag r = recordFlagTombstone"
    and "i < n" "i < 13 \<or> 21 \<le> i" "b \<noteq> out ! i"
  shows "\<not> is_ok (readRecord ((take n out)[i := b] @ rest))"
proof -
  from assms(1) have rb: "take n out = record_bytes r" "n = encodedSize r"
    and lim: "0 < length (rec_key r)" "length (rec_key r) \<le> maxKeyLen" "length (rec_value r) \<le> maxValLen"
    by (auto simp: encode_Ok_iff)
  let ?k = "word_of_nat (length (rec_key r)) :: u32" and ?v = "word_of_nat (length (rec_value r)) :: u32"
  have chk: "check_header (rec_flag r) ?k ?v = None"
    using lim assms(2) by (rule check_header_single)
  then have "length (rec_key r @ rec_value r) = unat (?k + ?v)"
    using check_header_body_bound lim by (simp add: unat_len_key unat_len_val)
  with chk show ?thesis
  proof (rule readRecord_detects)
    show "take n out = frame_bytes (rec_tstamp r) (rec_flag r) ?k ?v (rec_key r @ rec_value r)"
      using rb by (simp add: record_bytes_def)
    have "i < length out" using assms(3) rb by (metis length_record_bytes length_take min_less_iff_conj)
    then show "i < length (take n out)" "b \<noteq> take n out ! i" using assms(3,5) by simp_all
  qed (rule assms(4))
qed

theorem readRecord_detects_corruption_witness:
  "\<not> is_ok (readRecord ((record_bytes \<lparr>rec_tstamp = 7, rec_flag = recordFlagPut, rec_key = [1, 2], rec_value = [3]\<rparr>)[23 := 4] @ []))"
proof -
  let ?r = "\<lparr>rec_tstamp = 7, rec_flag = recordFlagPut, rec_key = [1, 2], rec_value = [3]\<rparr> :: log_record"
  have e: "encode ?r (replicate 24 0) = Ok (24, record_bytes ?r)"
    by (simp add: encode_Ok_iff encodedSize_def record_consts)
  have "record_bytes ?r ! 23 = 3"
    by (simp add: record_bytes_def frame_bytes_split nth_append)
  then show ?thesis
    using readRecord_detects_corruption [OF e, of 23 4 "[]"] by (simp add: encodedSize_def record_consts)
qed


section \<open>Batch records\<close>

text \<open>An entry \<open>BatchPut\<close> lets through to the writer.\<close>

definition valid_entry :: "batch_entry \<Rightarrow> bool" where
  "valid_entry e \<longleftrightarrow> 0 < length (be_key e) \<and> length (be_key e) \<le> maxKeyLen \<and>
     length (entry_value e) \<le> maxValLen"

text \<open>What \<open>decodeBatchBody\<close> returns for entries laid out from offset \<open>off\<close> of the body.\<close>

fun decoded_from :: "int \<Rightarrow> nat \<Rightarrow> batch_entry list \<Rightarrow> batchEntryDecoded list" where
  "decoded_from recordStart off [] = []"
| "decoded_from recordStart off (e # es) =
     \<lparr>bd_flag = entry_flag e, bd_key = be_key e, bd_value = entry_value e,
      bd_valuePos = recordStart + int (recordHeaderSize + off + batchEntryHeaderSize + length (be_key e))\<rparr>
     # decoded_from recordStart (off + length (entry_bytes e)) es"

lemma length_entry_bytes [simp]:
  "length (entry_bytes e) = batchEntryHeaderSize + length (be_key e) + length (entry_value e)"
  by (simp add: entry_bytes_def batchEntryHeaderSize_def)

lemma encodedBatchBodySize_eq: "encodedBatchBodySize es = length (batch_body es)"
proof -
  have "foldl (\<lambda>n e. n + (batchEntryHeaderSize + length (be_key e)) +
       (if \<not> be_delete e then length (be_value e) else 0)) m es = m + length (concat (map entry_bytes es))" for m
    by (induction es arbitrary: m) (simp_all add: entry_value_def)
  then show ?thesis
    by (simp add: encodedBatchBodySize_def batch_body_def batchCountSize_def)
qed

lemma encodeBatchEntries_valid:
  "\<forall>e \<in> set es. valid_entry e \<Longrightarrow> encodeBatchEntries es = Ok (concat (map entry_bytes es))"
  by (induction es) (auto simp: valid_entry_def entry_value_def split: if_splits)

lemma encodeBatchEntries_Ok_iff:
  "encodeBatchEntries es = Ok bs \<longleftrightarrow> (\<forall>e \<in> set es. valid_entry e) \<and> bs = concat (map entry_bytes es)"
proof -
  have "encodeBatchEntries es = Ok bs \<Longrightarrow> \<forall>e \<in> set es. valid_entry e"
    by (induction es arbitrary: bs)
      (auto simp: valid_entry_def entry_value_def split: sum.splits if_splits)
  then show ?thesis using encodeBatchEntries_valid by force
qed

lemma encodeBatchRecord_Ok_iff:
  "encodeBatchRecord buf ts es = Ok (n, out) \<longleftrightarrow>
     recordHeaderSize + length (batch_body es) \<le> length buf \<and> (\<forall>e \<in> set es. valid_entry e) \<and>
     n = recordHeaderSize + length (batch_body es) \<and>
     out = frame_bytes ts recordFlagBatch 0 (word_of_nat (length (batch_body es))) (batch_body es) @ drop n buf"
proof (cases "encodeBatchEntries es")
  case (Inl x)
  then have "\<not> (\<forall>e \<in> set es. valid_entry e)"
    using encodeBatchEntries_Ok_iff [of es] by auto
  with Inl show ?thesis by (auto simp: encodeBatchRecord_def Let_def)
next
  case (Inr bs)
  then have "\<forall>e \<in> set es. valid_entry e" "batch_body es = LE_PutUint32 (word_of_nat (length es)) @ bs"
    by (auto simp: encodeBatchEntries_Ok_iff batch_body_def)
  with Inr show ?thesis
    by (auto simp: encodeBatchRecord_def Let_def encodedBatchBodySize_eq)
qed

text \<open>Reading one entry where it was laid out.\<close>

lemma entry_fields:
  assumes "valid_entry e" "body = pre @ entry_bytes e @ post" "off = length pre"
  shows "body ! off = entry_flag e"
    and "unat (LE_Uint32 (slice (off + 1) (off + 5) body)) = length (be_key e)"
    and "unat (LE_Uint32 (slice (off + 5) (off + 9) body)) = length (entry_value e)"
    and "slice (off + 9) (off + 9 + length (be_key e)) body = be_key e"
    and "slice (off + 9 + length (be_key e)) (off + 9 + length (be_key e) + length (entry_value e)) body = entry_value e"
proof -
  let ?k = "LE_PutUint32 (word_of_nat (length (be_key e)))"
  let ?v = "LE_PutUint32 (word_of_nat (length (entry_value e)))"
  have b: "body = pre @ [entry_flag e] @ ?k @ ?v @ be_key e @ entry_value e @ post"
    using assms(2) by (simp add: entry_bytes_def)
  show "body ! off = entry_flag e" using b assms(3) by (simp add: nth_append)
  have "slice (off + 1) (off + 5) body = ?k"
    unfolding b using assms(3) by (simp add: slice_def)
  then show "unat (LE_Uint32 (slice (off + 1) (off + 5) body)) = length (be_key e)"
    using assms(1) by (simp add: valid_entry_def unat_len_key)
  have "slice (off + 5) (off + 9) body = ?v"
    unfolding b using assms(3) by (simp add: slice_def)
  then show "unat (LE_Uint32 (slice (off + 5) (off + 9) body)) = length (entry_value e)"
    using assms(1) by (simp add: valid_entry_def unat_len_val)
  show "slice (off + 9) (off + 9 + length (be_key e)) body = be_key e"
    unfolding b using assms(3) by (simp add: slice_def)
  show "slice (off + 9 + length (be_key e)) (off + 9 + length (be_key e) + length (entry_value e)) body = entry_value e"
    using slice_mid [of "pre @ [entry_flag e] @ ?k @ ?v @ be_key e" _ "entry_value e" _ post] b assms(3)
    by simp
qed

lemma entry_flag_value: "entry_flag e = recordFlagTombstone \<Longrightarrow> entry_value e = []"
  "entry_flag e \<noteq> recordFlagPut \<Longrightarrow> entry_value e = []"
  by (auto simp: entry_flag_def entry_value_def record_flags split: if_splits)

lemma decodeBatchEntries_step:
  assumes "valid_entry e" "body = pre @ entry_bytes e @ post" "off = length pre"
  shows "decodeBatchEntries body recordStart i (Suc n) off =
    (case decodeBatchEntries body recordStart (Suc i) n (off + length (entry_bytes e)) of
       Inl x \<Rightarrow> Err x
     | Inr (es, off') \<Rightarrow> Ok (\<lparr>bd_flag = entry_flag e, bd_key = be_key e, bd_value = entry_value e,
         bd_valuePos = recordStart + int (recordHeaderSize + off + batchEntryHeaderSize + length (be_key e))\<rparr> # es, off'))"
proof -
  note f = entry_fields [OF assms]
  have fl: "entry_flag e = recordFlagPut \<or> entry_flag e = recordFlagTombstone"
    by (simp add: entry_flag_def)
  have len: "off + 9 + length (be_key e) + length (entry_value e) \<le> length body"
    using assms(2,3) by (simp add: batchEntryHeaderSize_def)
  have "(if entry_flag e = recordFlagPut then entry_value e else []) = entry_value e"
    using entry_flag_value by auto
  then show ?thesis
    using assms(1) len fl entry_flag_value(1) [of e]
    by (simp only: decodeBatchEntries.simps batchEntryHeaderSize_def f Let_def length_entry_bytes)
      (auto simp: valid_entry_def batchEntryHeaderSize_def add.assoc)
qed

lemma decodeBatchEntries_layout:
  assumes "\<forall>e \<in> set es. valid_entry e" "body = pre @ concat (map entry_bytes es)"
  shows "decodeBatchEntries body recordStart i (length es) (length pre) =
    Ok (decoded_from recordStart (length pre) es, length body)"
  using assms
proof (induction es arbitrary: pre i)
  case (Cons e es)
  have "decodeBatchEntries body recordStart (Suc i) (length es) (length (pre @ entry_bytes e)) =
      Ok (decoded_from recordStart (length (pre @ entry_bytes e)) es, length body)"
    by (rule Cons.IH) (use Cons.prems in simp_all)
  then show ?case
    using decodeBatchEntries_step [of e body pre "concat (map entry_bytes es)"] Cons.prems
    by (simp del: decodeBatchEntries.simps(2) length_entry_bytes)
qed simp

lemma batch_capacity:
  assumes "\<forall>e \<in> set es. valid_entry e"
  shows "length es \<le> (length (batch_body es) - batchCountSize) div (batchEntryHeaderSize + 1)"
proof -
  have "10 * length es \<le> length (concat (map entry_bytes es))"
    using assms
  proof (induction es)
    case (Cons e es)
    then have "1 \<le> length (be_key e)" by (simp add: valid_entry_def Suc_le_eq)
    with Cons show ?case by (simp add: batchEntryHeaderSize_def)
  qed simp
  then show ?thesis
    by (simp add: batch_body_def batchCountSize_def batchEntryHeaderSize_def)
qed

lemma decodeBatchBody_batch_body:
  assumes "\<forall>e \<in> set es. valid_entry e" "length es \<le> maxBatchEntries"
  shows "decodeBatchBody (batch_body es) recordStart = Ok (decoded_from recordStart batchCountSize es)"
proof -
  let ?cnt = "LE_PutUint32 (word_of_nat (length es))"
  have cnt: "unat (LE_Uint32 (slice 0 4 (batch_body es))) = length es"
    using assms(2) by (simp add: batch_body_def slice_def unat_word_of_nat_u32 maxBatchEntries_def)
  have "decodeBatchEntries (batch_body es) recordStart 0 (length es) (length ?cnt) =
      Ok (decoded_from recordStart (length ?cnt) es, length (batch_body es))"
    using assms(1) by (rule decodeBatchEntries_layout) (simp add: batch_body_def)
  moreover have "length ?cnt = batchCountSize" by (simp add: batchCountSize_def)
  moreover have "\<not> length (batch_body es) < batchCountSize" by (simp add: batch_body_def batchCountSize_def)
  ultimately show ?thesis
    using assms(2) batch_capacity [OF assms(1)]
    by (simp only: decodeBatchBody_def cnt Let_def not_less [symmetric] if_False sum.case prod.case) simp
qed


text \<open>The whole on-disk form of a batch.\<close>

definition batch_bytes :: "int \<Rightarrow> batch_entry list \<Rightarrow> bytes" where
  "batch_bytes ts es = frame_bytes ts recordFlagBatch 0 (word_of_nat (length (batch_body es))) (batch_body es)"

text \<open>A batch the writer emits and recovery can read back.\<close>

definition valid_batch :: "int \<Rightarrow> batch_entry list \<Rightarrow> bool" where
  "valid_batch ts es \<longleftrightarrow> int64_range ts \<and> (\<forall>e \<in> set es. valid_entry e) \<and>
     length es \<le> maxBatchEntries \<and> length (batch_body es) \<le> maxBatchBodyLen"

lemma length_batch_bytes [simp]: "length (batch_bytes ts es) = recordHeaderSize + length (batch_body es)"
  by (simp add: batch_bytes_def)

lemma check_header_batch:
  assumes "length (batch_body es) \<le> maxBatchBodyLen"
  shows "check_header recordFlagBatch 0 (word_of_nat (length (batch_body es))) = None"
    and "unat (0 + word_of_nat (length (batch_body es)) :: u32) = length (batch_body es)"
proof -
  show u: "unat (0 + word_of_nat (length (batch_body es)) :: u32) = length (batch_body es)"
    using assms unat_word_of_nat_u32 [of "length (batch_body es)"] by (simp add: maxBatchBodyLen_def)
  have "batchCountSize \<le> length (batch_body es)"
    by (simp add: batch_body_def batchCountSize_def)
  then show "check_header recordFlagBatch 0 (word_of_nat (length (batch_body es))) = None"
    using assms u by (simp add: check_header_def record_flags)
qed

lemma readRecord_batch_bytes:
  assumes "valid_batch ts es"
  shows "readRecord (batch_bytes ts es @ rest) =
    Ok (\<lparr>rec_tstamp = ts, rec_flag = recordFlagBatch, rec_key = [], rec_value = batch_body es\<rparr>,
        recordHeaderSize + length (batch_body es), rest)"
proof -
  have l: "length (batch_body es) \<le> maxBatchBodyLen" and t: "int64_range ts"
    using assms by (auto simp: valid_batch_def)
  show ?thesis
    using readRecord_frame [OF check_header_batch(1) [OF l], of "batch_body es" ts rest] check_header_batch(2) [OF l] t
    by (simp add: batch_bytes_def parsed_record_def record_flags)
qed

lemma decoded_from_fields:
  "map (\<lambda>d. (bd_flag d, bd_key d, bd_value d)) (decoded_from recordStart off es) =
   map (\<lambda>e. (entry_flag e, be_key e, entry_value e)) es"
  by (induction es arbitrary: off) auto

text \<open>Every decoded entry's \<open>valuePos\<close> is where its value lies in the file.\<close>

lemma decoded_from_value_at:
  assumes "d \<in> set (decoded_from recordStart off es)"
    and "file = pre @ concat (map entry_bytes es) @ post"
    and "recordStart + int (recordHeaderSize + off) = int (length pre)"
  shows "0 \<le> bd_valuePos d \<and>
    nat (bd_valuePos d) + length (bd_value d) \<le> length pre + length (concat (map entry_bytes es)) \<and>
    slice (nat (bd_valuePos d)) (nat (bd_valuePos d) + length (bd_value d)) file = bd_value d"
  using assms
proof (induction es arbitrary: off pre)
  case (Cons e es)
  show ?case
  proof (cases "d \<in> set (decoded_from recordStart (off + length (entry_bytes e)) es)")
    case True
    then have "0 \<le> bd_valuePos d \<and> nat (bd_valuePos d) + length (bd_value d)
        \<le> length (pre @ entry_bytes e) + length (concat (map entry_bytes es)) \<and>
      slice (nat (bd_valuePos d)) (nat (bd_valuePos d) + length (bd_value d)) file = bd_value d"
      by (rule Cons.IH) (use Cons.prems in simp_all)
    then show ?thesis by simp
  next
    case False
    with Cons.prems(1) have d: "bd_value d = entry_value e"
      "bd_valuePos d = recordStart + int (recordHeaderSize + off + batchEntryHeaderSize + length (be_key e))"
      by auto
    let ?p = "pre @ [entry_flag e] @ LE_PutUint32 (word_of_nat (length (be_key e))) @
      LE_PutUint32 (word_of_nat (length (entry_value e))) @ be_key e"
    have "bd_valuePos d = int (length ?p)"
      using d(2) Cons.prems(3) by (simp add: batchEntryHeaderSize_def)
    moreover have "file = ?p @ entry_value e @ concat (map entry_bytes es) @ post"
      using Cons.prems(2) by (simp add: entry_bytes_def [of e])
    moreover have "length ?p + length (entry_value e) \<le> length pre + length (concat (map entry_bytes (e # es)))"
      by (simp add: batchEntryHeaderSize_def)
    ultimately show ?thesis
      by (simp only: d(1) nat_int slice_mid of_nat_0_le_iff simp_thms)
  qed
qed simp

lemma batch_bytes_value_at:
  assumes "d \<in> set (decoded_from (int (length pre)) batchCountSize es)"
    and "file = pre @ batch_bytes ts es @ post"
  shows "0 \<le> bd_valuePos d \<and>
    nat (bd_valuePos d) + length (bd_value d) \<le> length pre + length (batch_bytes ts es) \<and>
    slice (nat (bd_valuePos d)) (nat (bd_valuePos d) + length (bd_value d)) file = bd_value d"
proof -
  let ?h = "LE_PutUint32 (crc32c (header_tail ts recordFlagBatch 0 (word_of_nat (length (batch_body es))) @ batch_body es))
    @ header_tail ts recordFlagBatch 0 (word_of_nat (length (batch_body es)))"
  let ?pre = "pre @ ?h @ LE_PutUint32 (word_of_nat (length es))"
  have "file = ?pre @ concat (map entry_bytes es) @ post"
    using assms(2) by (simp add: batch_bytes_def frame_bytes_split batch_body_def)
  moreover have "int (length pre) + int (recordHeaderSize + batchCountSize) = int (length ?pre)"
    by (simp add: recordHeaderSize_def batchCountSize_def)
  moreover have "length ?pre + length (concat (map entry_bytes es)) = length pre + length (batch_bytes ts es)"
    by (simp add: batch_body_def recordHeaderSize_def)
  ultimately show ?thesis
    using decoded_from_value_at [OF assms(1)] by metis
qed

text \<open>
  C40. A batch that was encoded is read back entry for entry: the record is accepted, its
  body decodes to exactly the entries written, in order, and each decoded value position,
  relative to where the record starts in the file, points at that entry's value bytes.
\<close>

theorem batch_roundtrip:
  assumes "encodeBatchRecord buf ts es = Ok (n, out)" "int64_range ts"
    and "length es \<le> maxBatchEntries" "encodedBatchBodySize es \<le> maxBatchBodyLen"
  shows "\<exists>r ds. readRecord (take n out @ rest) = Ok (r, n, rest) \<and>
    rec_tstamp r = ts \<and> rec_flag r = recordFlagBatch \<and>
    decodeBatchBody (rec_value r) (int (length pre)) = Ok ds \<and>
    map (\<lambda>d. (bd_flag d, bd_key d, bd_value d)) ds = map (\<lambda>e. (entry_flag e, be_key e, entry_value e)) es \<and>
    (\<forall>d \<in> set ds. slice (nat (bd_valuePos d)) (nat (bd_valuePos d) + length (bd_value d))
       (pre @ take n out @ rest) = bd_value d)"
proof -
  from assms have v: "valid_batch ts es" and n: "n = recordHeaderSize + length (batch_body es)"
    and out: "take n out = batch_bytes ts es"
    by (auto simp: encodeBatchRecord_Ok_iff valid_batch_def encodedBatchBodySize_eq batch_bytes_def)
  have "decodeBatchBody (batch_body es) (int (length pre)) = Ok (decoded_from (int (length pre)) batchCountSize es)"
    using v by (intro decodeBatchBody_batch_body) (auto simp: valid_batch_def)
  moreover have "slice (nat (bd_valuePos d)) (nat (bd_valuePos d) + length (bd_value d))
       (pre @ take n out @ rest) = bd_value d" if "d \<in> set (decoded_from (int (length pre)) batchCountSize es)" for d
    using batch_bytes_value_at [OF that] out by simp
  ultimately show ?thesis
    using readRecord_batch_bytes [OF v, of rest] n out decoded_from_fields by fastforce
qed

theorem batch_roundtrip_witness:
  "\<exists>r ds. readRecord (take 47 (batch_bytes 5 [\<lparr>be_key = [1], be_value = [7, 8], be_delete = False\<rparr>,
       \<lparr>be_key = [2], be_value = [], be_delete = True\<rparr>]) @ []) = Ok (r, 47, []) \<and>
    rec_tstamp r = 5 \<and> rec_flag r = recordFlagBatch \<and>
    decodeBatchBody (rec_value r) (int (length [0::byte])) = Ok ds \<and>
    map (\<lambda>d. (bd_flag d, bd_key d, bd_value d)) ds =
      [(recordFlagPut, [1], [7, 8]), (recordFlagTombstone, [2], [])] \<and>
    (\<forall>d \<in> set ds. slice (nat (bd_valuePos d)) (nat (bd_valuePos d) + length (bd_value d))
       ([0] @ take 47 (batch_bytes 5 [\<lparr>be_key = [1], be_value = [7, 8], be_delete = False\<rparr>,
         \<lparr>be_key = [2], be_value = [], be_delete = True\<rparr>]) @ []) = bd_value d)"
proof -
  let ?es = "[\<lparr>be_key = [1], be_value = [7, 8], be_delete = False\<rparr>,
    \<lparr>be_key = [2], be_value = [], be_delete = True\<rparr>] :: batch_entry list"
  have "length (batch_body ?es) = 26"
    by (simp add: batch_body_def entry_value_def batchEntryHeaderSize_def)
  then have e: "encodeBatchRecord (replicate 47 0) 5 ?es = Ok (47, batch_bytes 5 ?es)"
    by (simp add: encodeBatchRecord_Ok_iff batch_bytes_def valid_entry_def entry_value_def record_consts)
  show ?thesis
    using batch_roundtrip [OF e, of "[]" "[0]"] \<open>length (batch_body ?es) = 26\<close>
    by (simp add: int64_range_def encodedBatchBodySize_eq record_consts entry_flag_def entry_value_def)
qed

end
