(* ===== verification/Go_Map.thy ===== *)
theory Go_Map
  imports Prelude "HOL-Library.AList" "HOL-Library.List_Lexorder"
begin

text \<open>
  Go maps. A \<open>map[K]V\<close> is an association list with distinct keys, so that iteration
  (\<open>for k, v := range m\<close>) and \<open>len\<close> are executable; the order of the list stands for Go's
  unspecified iteration order. The interface every client relies on is the locale
  \<open>map_index\<close>: what a lookup returns after each update. It is interpreted here once for
  all Go maps; the keydir and the segment table of the engine use it.
\<close>

type_synonym ('k, 'v) gomap = "('k \<times> 'v) list"

definition map_get :: "('k, 'v) gomap \<Rightarrow> 'k \<Rightarrow> 'v option" where
  "map_get m k = map_of m k"

definition map_set :: "('k, 'v) gomap \<Rightarrow> 'k \<Rightarrow> 'v \<Rightarrow> ('k, 'v) gomap" where
  "map_set m k v = AList.update k v m"

definition map_del :: "('k, 'v) gomap \<Rightarrow> 'k \<Rightarrow> ('k, 'v) gomap" where
  "map_del m k = AList.delete k m"

definition map_keys :: "('k, 'v) gomap \<Rightarrow> 'k list" where
  "map_keys m = map fst m"

definition map_len :: "('k, 'v) gomap \<Rightarrow> nat" where
  "map_len m = length m"

definition map_ok :: "('k, 'v) gomap \<Rightarrow> bool" where
  "map_ok m \<longleftrightarrow> distinct (map fst m)"

text \<open>The contract of an index: lookup after insertion and deletion, and a kept invariant.\<close>

locale map_index =
  fixes emp :: "'m" and get :: "'m \<Rightarrow> 'k \<Rightarrow> 'v option" and set :: "'m \<Rightarrow> 'k \<Rightarrow> 'v \<Rightarrow> 'm"
    and del :: "'m \<Rightarrow> 'k \<Rightarrow> 'm" and ok :: "'m \<Rightarrow> bool"
  assumes get_emp: "get emp k = None"
    and get_set: "ok m \<Longrightarrow> get (set m k v) j = (if j = k then Some v else get m j)"
    and get_del: "ok m \<Longrightarrow> get (del m k) j = (if j = k then None else get m j)"
    and ok_emp: "ok emp"
    and ok_set: "ok m \<Longrightarrow> ok (set m k v)"
    and ok_del: "ok m \<Longrightarrow> ok (del m k)"
begin

text \<open>
  A sequence of updates, each a new value or a deletion: the last one for a key decides,
  keys that do not occur keep what they had.
\<close>

lemma ok_updates:
  "ok m \<Longrightarrow> ok (foldl (\<lambda>m (k, ov). case ov of None \<Rightarrow> del m k | Some v \<Rightarrow> set m k v) m us)"
  by (induction us arbitrary: m) (auto simp: ok_set ok_del split: option.splits)

lemma get_updates:
  "ok m \<Longrightarrow>
   get (foldl (\<lambda>m (k, ov). case ov of None \<Rightarrow> del m k | Some v \<Rightarrow> set m k v) m us) j =
   (case map_of (rev us) j of None \<Rightarrow> get m j | Some ov \<Rightarrow> ov)"
proof (induction us rule: rev_induct)
  case (snoc u us)
  obtain k ov where u: "u = (k, ov)" by (cases u)
  let ?m = "foldl (\<lambda>m (k, ov). case ov of None \<Rightarrow> del m k | Some v \<Rightarrow> set m k v) m us"
  have "ok ?m" using snoc.prems by (rule ok_updates)
  then show ?case
    using snoc u by (cases ov) (auto simp: get_set get_del)
qed simp

end

interpretation gm: map_index "[]" map_get map_set map_del map_ok
  by unfold_locales
    (simp_all add: map_get_def map_set_def map_del_def map_ok_def update_conv' delete_conv'
      distinct_update distinct_delete)

lemma map_get_Some_set: "map_ok m \<Longrightarrow> map_get m k = Some v \<longleftrightarrow> (k, v) \<in> set m"
  by (simp add: map_get_def map_ok_def)

lemma set_map_keys: "set (map_keys m) = {k. map_get m k \<noteq> None}"
  using dom_map_of_conv_image_fst [of m] by (auto simp: map_keys_def map_get_def dom_def)

lemma map_keys_iff: "k \<in> set (map_keys m) \<longleftrightarrow> map_get m k \<noteq> None"
  by (simp add: set_map_keys)

lemma distinct_map_keys: "map_ok m \<Longrightarrow> distinct (map_keys m)"
  by (simp add: map_ok_def map_keys_def)

lemma map_len_card: "map_ok m \<Longrightarrow> map_len m = card {k. map_get m k \<noteq> None}"
  by (metis distinct_card distinct_map_keys length_map map_keys_def map_len_def set_map_keys)

lemmas map_index_simps = gm.get_emp gm.get_set gm.get_del gm.ok_emp gm.ok_set gm.ok_del

text \<open>\<open>bytes.Compare\<close>: the lexicographic order on byte strings.\<close>

definition bytesCompare :: "bytes \<Rightarrow> bytes \<Rightarrow> int" where
  "bytesCompare a b = (if a < b then - 1 else if a = b then 0 else 1)"

lemma bytesCompare_less: "bytesCompare a b < 0 \<longleftrightarrow> a < b"
  and bytesCompare_ge: "bytesCompare a b \<ge> 0 \<longleftrightarrow> b \<le> a"
  and bytesCompare_greater: "bytesCompare a b > 0 \<longleftrightarrow> b < a"
  by (auto simp: bytesCompare_def)

end
