(* ===== verification/Keydir.thy ===== *)
theory Keydir
  imports Go_Map
begin

text \<open>
  The in-memory index, \<open>internal/engine/keydir.go\<close>. Every method runs under the keydir's
  own lock, so each is one atomic step on the map. The lemmas give what a lookup returns
  after each operation (from the index contract \<open>map_index\<close>), that a batch is applied
  with the last entry per key winning, and that a range snapshot is exactly the matching
  part of the index in strictly ascending key order.
\<close>

section \<open>Data and operations\<close>

record keydirEntry =
  ke_fileID :: u32
  ke_valuePos :: int
  ke_valueLen :: u32
  ke_tstamp :: int

type_synonym keydir = "(bytes, keydirEntry) gomap"

record keydirOp =
  op_key :: bytes
  op_entry :: keydirEntry
  op_delete :: bool

record rangePair =
  rp_key :: bytes
  rp_entry :: keydirEntry

definition newKeydir :: keydir where
  "newKeydir = []"

definition keydir_get :: "keydir \<Rightarrow> bytes \<Rightarrow> keydirEntry option" where
  "keydir_get k key = map_get k key"

definition keydir_put :: "keydir \<Rightarrow> bytes \<Rightarrow> keydirEntry \<Rightarrow> keydir" where
  "keydir_put k key e = map_set k key e"

definition keydir_putIfNewer :: "keydir \<Rightarrow> bytes \<Rightarrow> keydirEntry \<Rightarrow> keydir" where
  "keydir_putIfNewer k key e =
     (case map_get k key of
        None \<Rightarrow> map_set k key e
      | Some existing \<Rightarrow> if ke_tstamp e \<ge> ke_tstamp existing then map_set k key e else k)"

definition keydir_delete :: "keydir \<Rightarrow> bytes \<Rightarrow> keydir" where
  "keydir_delete k key = map_del k key"

definition keydir_compareAndSwap :: "keydir \<Rightarrow> bytes \<Rightarrow> keydirEntry \<Rightarrow> keydirEntry \<Rightarrow> bool \<times> keydir" where
  "keydir_compareAndSwap k key expected newEntry =
     (case map_get k key of
        None \<Rightarrow> (False, k)
      | Some cur \<Rightarrow> if cur \<noteq> expected then (False, k) else (True, map_set k key newEntry))"

definition applyOp :: "keydir \<Rightarrow> keydirOp \<Rightarrow> keydir" where
  "applyOp k op = (if op_delete op then map_del k (op_key op) else map_set k (op_key op) (op_entry op))"

definition keydir_applyBatch :: "keydir \<Rightarrow> keydirOp list \<Rightarrow> keydir" where
  "keydir_applyBatch k ops = (if length ops = 0 then k else foldl applyOp k ops)"

definition keydir_size :: "keydir \<Rightarrow> nat" where
  "keydir_size k = map_len k"

text \<open>The filter of \<open>snapshotRange\<close>: a nil bound is \<open>None\<close>.\<close>

definition in_range :: "bytes option \<Rightarrow> bytes option \<Rightarrow> bytes \<Rightarrow> bool" where
  "in_range start end kb =
     (\<not> (case start of None \<Rightarrow> False | Some s \<Rightarrow> bytesCompare kb s < 0) \<and>
      \<not> (case end of None \<Rightarrow> False | Some e \<Rightarrow> bytesCompare kb e \<ge> 0))"

definition keydir_snapshotRange :: "keydir \<Rightarrow> bytes option \<Rightarrow> bytes option \<Rightarrow> rangePair list" where
  "keydir_snapshotRange k start end =
     sort_key rp_key (map (\<lambda>(kb, e). \<lparr>rp_key = kb, rp_entry = e\<rparr>) (filter (\<lambda>(kb, e). in_range start end kb) k))"

section \<open>Laws\<close>

interpretation kd: map_index newKeydir keydir_get keydir_put keydir_delete map_ok
  by unfold_locales
    (simp_all add: newKeydir_def keydir_get_def keydir_put_def keydir_delete_def map_index_simps)

lemmas keydir_simps = kd.get_emp kd.get_set kd.get_del kd.ok_emp kd.ok_set kd.ok_del

lemma putIfNewer_alt:
  "keydir_putIfNewer k key e =
     (case keydir_get k key of
        Some x \<Rightarrow> if ke_tstamp x \<le> ke_tstamp e then keydir_put k key e else k
      | None \<Rightarrow> keydir_put k key e)"
  by (simp add: keydir_putIfNewer_def keydir_get_def keydir_put_def split: option.splits)

lemma ok_putIfNewer: "map_ok k \<Longrightarrow> map_ok (keydir_putIfNewer k key e)"
  by (auto simp: putIfNewer_alt keydir_simps split: option.splits)

lemma get_putIfNewer:
  "map_ok k \<Longrightarrow> keydir_get (keydir_putIfNewer k key e) j =
     (if j = key \<and> (\<forall>x. keydir_get k key = Some x \<longrightarrow> ke_tstamp x \<le> ke_tstamp e) then Some e
      else keydir_get k j)"
  by (auto simp: putIfNewer_alt keydir_simps split: option.splits)

lemma ok_compareAndSwap: "map_ok k \<Longrightarrow> map_ok (snd (keydir_compareAndSwap k key x y))"
  by (auto simp: keydir_compareAndSwap_def map_index_simps split: option.splits)

lemma compareAndSwap_spec:
  "map_ok k \<Longrightarrow>
   fst (keydir_compareAndSwap k key x y) = (keydir_get k key = Some x) \<and>
   keydir_get (snd (keydir_compareAndSwap k key x y)) j =
     (if j = key \<and> keydir_get k key = Some x then Some y else keydir_get k j)"
  by (auto simp: keydir_compareAndSwap_def keydir_get_def map_index_simps split: option.splits)

lemma applyBatch_updates:
  "keydir_applyBatch k ops =
     foldl (\<lambda>m (key, ov). case ov of None \<Rightarrow> keydir_delete m key | Some v \<Rightarrow> keydir_put m key v) k
       (map (\<lambda>op. (op_key op, if op_delete op then None else Some (op_entry op))) ops)"
proof -
  have "foldl applyOp k ops =
     foldl (\<lambda>m (key, ov). case ov of None \<Rightarrow> keydir_delete m key | Some v \<Rightarrow> keydir_put m key v) k
       (map (\<lambda>op. (op_key op, if op_delete op then None else Some (op_entry op))) ops)"
    by (induction ops arbitrary: k) (simp_all add: applyOp_def keydir_delete_def keydir_put_def)
  then show ?thesis by (simp add: keydir_applyBatch_def)
qed

lemma ok_applyBatch: "map_ok k \<Longrightarrow> map_ok (keydir_applyBatch k ops)"
  unfolding applyBatch_updates by (rule kd.ok_updates)

lemma get_applyBatch:
  "map_ok k \<Longrightarrow> keydir_get (keydir_applyBatch k ops) j =
     (case map_of (rev (map (\<lambda>op. (op_key op, if op_delete op then None else Some (op_entry op))) ops)) j of
        None \<Rightarrow> keydir_get k j | Some ov \<Rightarrow> ov)"
  unfolding applyBatch_updates by (rule kd.get_updates)

lemma keydir_size_card: "map_ok k \<Longrightarrow> keydir_size k = card {j. keydir_get k j \<noteq> None}"
  by (simp add: keydir_size_def keydir_get_def map_len_card)

section \<open>Range snapshots\<close>

lemma in_range_iff:
  "in_range start end kb \<longleftrightarrow> (\<forall>s. start = Some s \<longrightarrow> s \<le> kb) \<and> (\<forall>e. end = Some e \<longrightarrow> kb < e)"
  by (auto simp: in_range_def bytesCompare_less bytesCompare_ge not_less not_le split: option.splits)

lemma set_snapshotRange:
  "map_ok k \<Longrightarrow> set (keydir_snapshotRange k start end) =
     {p. keydir_get k (rp_key p) = Some (rp_entry p) \<and> in_range start end (rp_key p)}"
  by (force simp: keydir_snapshotRange_def keydir_get_def map_get_Some_set image_iff)

lemma strict_sorted_snapshotRange:
  assumes "map_ok k"
  shows "sorted_wrt (<) (map rp_key (keydir_snapshotRange k start end))"
proof -
  let ?f = "filter (\<lambda>(kb, e). in_range start end kb) k"
  have "distinct (map fst ?f)"
    using assms by (simp add: map_ok_def distinct_map_filter)
  moreover have "map rp_key (map (\<lambda>(kb, e). \<lparr>rp_key = kb, rp_entry = e\<rparr>) ?f) = map fst ?f"
    by auto
  ultimately have "distinct (map rp_key (map (\<lambda>(kb, e). \<lparr>rp_key = kb, rp_entry = e\<rparr>) ?f))"
    by (simp only:)
  then have "distinct (map rp_key (keydir_snapshotRange k start end))"
    unfolding keydir_snapshotRange_def
    by (simp only: distinct_map [of rp_key] distinct_sort set_sort)
  then show ?thesis
    unfolding keydir_snapshotRange_def by (simp add: strict_sorted_iff)
qed

text \<open>
  A range snapshot holds exactly the live keys in the half-open interval with their
  current locations, each once, in strictly ascending byte order, whatever order the map
  is iterated in.
\<close>

theorem snapshotRange_correct:
  assumes "map_ok k"
  shows "sorted_wrt (<) (map rp_key (keydir_snapshotRange k start end)) \<and>
    (\<forall>key e. \<lparr>rp_key = key, rp_entry = e\<rparr> \<in> set (keydir_snapshotRange k start end) \<longleftrightarrow>
       keydir_get k key = Some e \<and>
       (\<forall>s. start = Some s \<longrightarrow> s \<le> key) \<and> (\<forall>t. end = Some t \<longrightarrow> key < t))"
  using assms by (simp add: strict_sorted_snapshotRange set_snapshotRange in_range_iff)

theorem snapshotRange_correct_witness:
  "let k = [([3], \<lparr>ke_fileID = 0, ke_valuePos = 30, ke_valueLen = 1, ke_tstamp = 1\<rparr>),
            ([1], \<lparr>ke_fileID = 0, ke_valuePos = 60, ke_valueLen = 1, ke_tstamp = 2\<rparr>)] in
   sorted_wrt (<) (map rp_key (keydir_snapshotRange k (Some [1]) (Some [3]))) \<and>
   \<lparr>rp_key = [1], rp_entry = \<lparr>ke_fileID = 0, ke_valuePos = 60, ke_valueLen = 1, ke_tstamp = 2\<rparr>\<rparr>
     \<in> set (keydir_snapshotRange k (Some [1]) (Some [3]))"
  using snapshotRange_correct [of "[([3], \<lparr>ke_fileID = 0, ke_valuePos = 30, ke_valueLen = 1, ke_tstamp = 1\<rparr>),
      ([1], \<lparr>ke_fileID = 0, ke_valuePos = 60, ke_valueLen = 1, ke_tstamp = 2\<rparr>)]" "Some [1]" "Some [3]"]
  by (simp add: map_ok_def keydir_get_def map_get_def)

end
