(* ===== verification/Log.thy ===== *)
theory Log
  imports Log_Record Keydir
begin

text \<open>
  A segment file as a log: the sequence of records it was written from. This is the
  specification side of the storage engine. The scan of recovery (\<open>recoverSegment\<close>) is tied
  to it through the contract \<open>log_scan\<close>: a loop that takes one well-formed record at a time
  consumes a whole log record by record, whatever follows it. The scan of compaction, which may fail at any
  record, is related to the log in theory \<open>Compact_Merge\<close>.
\<close>

section \<open>Log items\<close>

text \<open>One record of a log: a single PUT or TOMBSTONE, or a batch with its time stamp.\<close>

datatype log_item = Single log_record | Batch int "batch_entry list"

fun item_bytes :: "log_item \<Rightarrow> bytes" where
  "item_bytes (Single r) = record_bytes r"
| "item_bytes (Batch ts es) = batch_bytes ts es"

fun item_tstamp :: "log_item \<Rightarrow> int" where
  "item_tstamp (Single r) = rec_tstamp r"
| "item_tstamp (Batch ts es) = ts"

fun valid_item :: "log_item \<Rightarrow> bool" where
  "valid_item (Single r) = valid_record r"
| "valid_item (Batch ts es) = valid_batch ts es"

definition log_bytes :: "log_item list \<Rightarrow> bytes" where
  "log_bytes is = concat (map item_bytes is)"

text \<open>The updates an item makes, in order: key, and the value written there or nothing.\<close>

fun item_updates :: "log_item \<Rightarrow> (bytes \<times> bytes option) list" where
  "item_updates (Single r) = [(rec_key r, if rec_flag r = recordFlagPut then Some (rec_value r) else None)]"
| "item_updates (Batch ts es) = map (\<lambda>e. (be_key e, if be_delete e then None else Some (be_value e))) es"

text \<open>The same updates as index entries, for an item that starts at \<open>off\<close> of segment \<open>sid\<close>.\<close>

definition put_entry :: "u32 \<Rightarrow> int \<Rightarrow> bytes \<Rightarrow> int \<Rightarrow> keydirEntry" where
  "put_entry sid pos v ts = \<lparr>ke_fileID = sid, ke_valuePos = pos, ke_valueLen = word_of_nat (length v), ke_tstamp = ts\<rparr>"

fun item_entries :: "u32 \<Rightarrow> nat \<Rightarrow> log_item \<Rightarrow> (bytes \<times> keydirEntry option) list" where
  "item_entries sid off (Single r) =
     [(rec_key r, if rec_flag r = recordFlagPut
        then Some (put_entry sid (int off + int (recordHeaderSize + length (rec_key r))) (rec_value r) (rec_tstamp r))
        else None)]"
| "item_entries sid off (Batch ts es) =
     map (\<lambda>d. (bd_key d, if bd_flag d = recordFlagPut
        then Some (put_entry sid (bd_valuePos d) (bd_value d) ts) else None))
       (decoded_from (int off) batchCountSize es)"

definition update_keydir :: "keydir \<Rightarrow> bytes \<times> keydirEntry option \<Rightarrow> keydir" where
  "update_keydir k u = (case snd u of None \<Rightarrow> keydir_delete k (fst u) | Some e \<Rightarrow> keydir_put k (fst u) e)"

text \<open>What the writer does to the index when it appends an item: every update, in order.\<close>

definition write_item :: "u32 \<Rightarrow> nat \<Rightarrow> log_item \<Rightarrow> keydir \<Rightarrow> keydir" where
  "write_item sid off it k = foldl update_keydir k (item_entries sid off it)"

section \<open>Folding over a log with offsets\<close>

fun fold_at :: "('i \<Rightarrow> nat) \<Rightarrow> (nat \<Rightarrow> 'i \<Rightarrow> 's \<Rightarrow> 's) \<Rightarrow> nat \<Rightarrow> 'i list \<Rightarrow> 's \<Rightarrow> 's" where
  "fold_at sz f off [] s = s"
| "fold_at sz f off (i # is) s = fold_at sz f (off + sz i) is (f off i s)"

lemma fold_at_append:
  "fold_at sz f off (is @ js) s = fold_at sz f (off + sum_list (map sz is)) js (fold_at sz f off is s)"
  by (induction "is" arbitrary: off s) (simp_all add: add.assoc)

lemma fold_at_cong:
  assumes "s \<in> S" "\<And>off i s. i \<in> set is \<Longrightarrow> s \<in> S \<Longrightarrow> f off i s = g off i s"
    and "\<And>off i s. i \<in> set is \<Longrightarrow> s \<in> S \<Longrightarrow> f off i s \<in> S"
  shows "fold_at sz f off is s = fold_at sz g off is s"
  using assms
proof (induction "is" arbitrary: off s)
  case (Cons i "is")
  have "f off i s \<in> S" using Cons.prems(1,3) by simp
  then have "fold_at sz f (off + sz i) is (f off i s) = fold_at sz g (off + sz i) is (f off i s)"
    using Cons.prems(2,3) by (intro Cons.IH) simp_all
  then show ?case using Cons.prems(1,2) by simp
qed simp

lemma fold_at_invariant:
  assumes "P s" "\<And>off i s. i \<in> set is \<Longrightarrow> P s \<Longrightarrow> P (f off i s)"
  shows "P (fold_at sz f off is s)"
  using assms by (induction "is" arbitrary: off s) simp_all

abbreviation item_size :: "log_item \<Rightarrow> nat" where
  "item_size i \<equiv> length (item_bytes i)"

abbreviation write_items :: "u32 \<Rightarrow> nat \<Rightarrow> log_item list \<Rightarrow> keydir \<Rightarrow> keydir" where
  "write_items sid \<equiv> fold_at item_size (write_item sid)"

lemma length_log_bytes: "length (log_bytes is) = sum_list (map item_size is)"
  by (induction "is") (simp_all add: log_bytes_def)

lemma log_bytes_simps [simp]:
  "log_bytes [] = []" "log_bytes (i # is) = item_bytes i @ log_bytes is"
  "log_bytes (is @ js) = log_bytes is @ log_bytes js"
  by (simp_all add: log_bytes_def)

section \<open>Scanning a log\<close>

text \<open>
  The contract of a scanning loop over a file: where a well-formed item starts, the loop
  goes on behind it with its state updated. From this one law it processes a whole log.
\<close>

locale log_scan =
  fixes enc :: "'i \<Rightarrow> bytes" and good :: "'i \<Rightarrow> bool" and upd :: "nat \<Rightarrow> 'i \<Rightarrow> 's \<Rightarrow> 's"
    and scan :: "bytes \<Rightarrow> nat \<Rightarrow> 's \<Rightarrow> 'r"
  assumes scan_item:
    "good i \<Longrightarrow> scan (pre @ enc i @ post) (length pre) s =
       scan (pre @ enc i @ post) (length pre + length (enc i)) (upd (length pre) i s)"
begin

lemma scan_items:
  assumes "\<forall>i \<in> set is. good i" "data = pre @ concat (map enc is) @ post"
  shows "scan data (length pre) s =
    scan data (length pre + length (concat (map enc is))) (fold_at (\<lambda>i. length (enc i)) upd (length pre) is s)"
  using assms
proof (induction "is" arbitrary: pre s)
  case (Cons i "is")
  let ?s = "upd (length pre) i s"
  have "scan data (length pre) s = scan data (length (pre @ enc i)) ?s"
    using scan_item [of i pre "concat (map enc is) @ post" s] Cons.prems by simp
  also have "\<dots> = scan data (length (pre @ enc i) + length (concat (map enc is)))
      (fold_at (\<lambda>i. length (enc i)) upd (length (pre @ enc i)) is ?s)"
    by (rule Cons.IH) (use Cons.prems in simp_all)
  finally show ?case by (simp add: add.assoc)
qed simp

lemma scan_whole:
  assumes "\<forall>i \<in> set is. good i"
  shows "scan (concat (map enc is) @ post) 0 s =
    scan (concat (map enc is) @ post) (length (concat (map enc is)))
      (fold_at (\<lambda>i. length (enc i)) upd 0 is s)"
  using scan_items [OF assms, of _ "[]"] by simp

end

section \<open>Values in a log\<close>

lemma record_bytes_value_at:
  "slice (length pre + recordHeaderSize + length (rec_key r))
     (length pre + recordHeaderSize + length (rec_key r) + length (rec_value r))
     (pre @ record_bytes r @ post) = rec_value r"
proof -
  obtain h where h: "record_bytes r = h @ rec_key r @ rec_value r" "length h = recordHeaderSize"
    by (rule that) (unfold record_bytes_def, rule frame_bytes_split, simp add: recordHeaderSize_def)
  show ?thesis
    using slice_mid [of "pre @ h @ rec_key r" _ "rec_value r" _ post] h by simp
qed

text \<open>An index entry points at a value in the bytes of its segment.\<close>

definition points :: "bytes \<Rightarrow> keydirEntry \<Rightarrow> bytes \<Rightarrow> bool" where
  "points c e v \<longleftrightarrow> 0 \<le> ke_valuePos e \<and> nat (ke_valuePos e) + length v \<le> length c \<and>
     unat (ke_valueLen e) = length v \<and> slice (nat (ke_valuePos e)) (nat (ke_valuePos e) + length v) c = v"

lemma points_append: "points c e v \<Longrightarrow> points (c @ d) e v"
  by (simp add: points_def slice_append1)

lemma points_unique: "points c e v \<Longrightarrow> points c e w \<Longrightarrow> v = w"
  unfolding points_def by (metis)

text \<open>The index update and the value update an item makes for one key agree.\<close>

definition entry_matches :: "u32 \<Rightarrow> int \<Rightarrow> bytes \<Rightarrow> bytes \<times> keydirEntry option \<Rightarrow> bytes \<times> bytes option \<Rightarrow> bool" where
  "entry_matches sid ts c u w \<longleftrightarrow> fst u = fst w \<and>
     (case snd u of
        None \<Rightarrow> snd w = None
      | Some e \<Rightarrow> ke_fileID e = sid \<and> ke_tstamp e = ts \<and> (\<exists>v. snd w = Some v \<and> points c e v))"

lemma entry_matches_single:
  assumes "valid_record r"
  shows "list_all2 (entry_matches sid (rec_tstamp r) (pre @ record_bytes r @ post))
    (item_entries sid (length pre) (Single r)) (item_updates (Single r))"
proof -
  have "nat (int (length pre) + int (recordHeaderSize + length (rec_key r))) =
      length pre + recordHeaderSize + length (rec_key r)" by linarith
  then show ?thesis
    using assms record_bytes_value_at [of pre r post]
    by (auto simp: entry_matches_def points_def put_entry_def unat_len_val valid_record_def encodedSize_def)
qed

lemma decoded_from_aligned:
  "list_all2 (\<lambda>d e. bd_flag d = entry_flag e \<and> bd_key d = be_key e \<and> bd_value d = entry_value e)
     (decoded_from recordStart off es) es"
  by (induction es arbitrary: off) auto

lemma entry_matches_batch:
  assumes "valid_batch ts es"
  shows "list_all2 (entry_matches sid ts (pre @ batch_bytes ts es @ post))
    (item_entries sid (length pre) (Batch ts es)) (item_updates (Batch ts es))"
proof -
  let ?c = "pre @ batch_bytes ts es @ post"
  have "entry_matches sid ts ?c
      (bd_key d, if bd_flag d = recordFlagPut then Some (put_entry sid (bd_valuePos d) (bd_value d) ts) else None)
      (be_key e, if be_delete e then None else Some (be_value e))"
    if m: "bd_flag d = entry_flag e" "bd_key d = be_key e" "bd_value d = entry_value e"
      and d: "d \<in> set (decoded_from (int (length pre)) batchCountSize es)" and e: "e \<in> set es" for d e
  proof -
    have "length (entry_value e) \<le> maxValLen"
      using assms e by (auto simp: valid_batch_def valid_entry_def)
    with batch_bytes_value_at [OF d refl, of ts post] m show ?thesis
      by (auto simp: entry_matches_def points_def put_entry_def unat_len_val entry_flag_def entry_value_def record_flags)
  qed
  then show ?thesis
    unfolding item_entries.simps item_updates.simps list.rel_map
    by (intro list.rel_mono_strong [OF decoded_from_aligned]) auto
qed

text \<open>Every index entry an item makes points at the value the item writes.\<close>

lemma item_entries_match:
  assumes "valid_item it"
  shows "list_all2 (entry_matches sid (item_tstamp it) (pre @ item_bytes it @ post))
    (item_entries sid (length pre) it) (item_updates it)"
  using assms entry_matches_single entry_matches_batch by (cases it) auto

section \<open>The index represents the store\<close>

text \<open>
  The abstract store is a map from keys to values. The index, together with the bytes of
  the segments, represents it when each key's entry points at the key's value and no other
  key has an entry.
\<close>

type_synonym store = "bytes \<rightharpoonup> bytes"

definition apply_updates :: "store \<Rightarrow> (bytes \<times> bytes option) list \<Rightarrow> store" where
  "apply_updates m us = foldl (\<lambda>m u. m(fst u := snd u)) m us"

definition represents :: "(u32 \<rightharpoonup> bytes) \<Rightarrow> keydir \<Rightarrow> store \<Rightarrow> bool" where
  "represents contents k m \<longleftrightarrow> map_ok k \<and>
     (\<forall>key. case keydir_get k key of
        None \<Rightarrow> m key = None
      | Some e \<Rightarrow> \<exists>c v. contents (ke_fileID e) = Some c \<and> points c e v \<and> m key = Some v)"

lemma represents_empty: "represents contents newKeydir Map.empty"
  by (simp add: represents_def keydir_simps)

lemma represents_get:
  "represents contents k m \<Longrightarrow> keydir_get k key = Some e \<Longrightarrow>
   \<exists>c v. contents (ke_fileID e) = Some c \<and> points c e v \<and> m key = Some v"
  unfolding represents_def by (auto dest!: spec [of _ key])

lemma represents_None: "represents contents k m \<Longrightarrow> keydir_get k key = None \<longleftrightarrow> m key = None"
  unfolding represents_def by (cases "keydir_get k key") (auto dest!: spec [of _ key])

lemma represents_unique:
  assumes "represents contents k m" "represents contents k m'"
  shows "m = m'"
proof
  fix key
  show "m key = m' key"
  proof (cases "keydir_get k key")
    case None
    then show ?thesis using represents_None [OF assms(1)] represents_None [OF assms(2)] by metis
  next
    case (Some e)
    then show ?thesis
      using represents_get [OF assms(1) Some] represents_get [OF assms(2) Some] points_unique by fastforce
  qed
qed

text \<open>Segments may only grow: appending bytes keeps every representation.\<close>

lemma represents_mono:
  assumes "represents contents k m"
    and "\<And>sid c. contents sid = Some c \<Longrightarrow> \<exists>d. contents' sid = Some (c @ d)"
  shows "represents contents' k m"
proof -
  have "case keydir_get k key of None \<Rightarrow> m key = None
      | Some e \<Rightarrow> \<exists>c v. contents' (ke_fileID e) = Some c \<and> points c e v \<and> m key = Some v" for key
  proof (cases "keydir_get k key")
    case (Some e)
    obtain c v where "contents (ke_fileID e) = Some c" "points c e v" "m key = Some v"
      using represents_get [OF assms(1) Some] by blast
    then show ?thesis using assms(2) points_append Some by fastforce
  next
    case None
    then show ?thesis using represents_None [OF assms(1), of key] by simp
  qed
  then show ?thesis using assms(1) by (simp add: represents_def)
qed

lemma represents_update:
  assumes "represents contents k m" "entry_matches sid ts c u w" "contents sid = Some c"
  shows "represents contents (update_keydir k u) (m(fst w := snd w))"
proof -
  have ok: "map_ok k" using assms(1) by (simp add: represents_def)
  then have "map_ok (update_keydir k u)"
    by (simp add: update_keydir_def keydir_simps split: option.splits)
  moreover have g: "keydir_get (update_keydir k u) key = (if key = fst u then snd u else keydir_get k key)" for key
    using ok by (simp add: update_keydir_def keydir_simps split: option.splits)
  have "case keydir_get (update_keydir k u) key of None \<Rightarrow> (m(fst w := snd w)) key = None
      | Some e \<Rightarrow> \<exists>c v. contents (ke_fileID e) = Some c \<and> points c e v \<and> (m(fst w := snd w)) key = Some v" for key
  proof (cases "key = fst u")
    case True
    then show ?thesis using assms(2,3) g by (cases "snd u") (auto simp: entry_matches_def)
  next
    case False
    then have "(m(fst w := snd w)) key = m key" using assms(2) by (simp add: entry_matches_def)
    then show ?thesis
      using assms(1) False unfolding represents_def g by (simp only: if_False)
  qed
  ultimately show ?thesis by (simp add: represents_def)
qed

lemma represents_updates:
  assumes "list_all2 (entry_matches sid ts c) us ws" "represents contents k m" "contents sid = Some c"
  shows "represents contents (foldl update_keydir k us) (apply_updates m ws)"
  using assms
proof (induction us ws arbitrary: k m rule: list_all2_induct)
  case (Cons u us w ws)
  then have "represents contents (update_keydir k u) (m(fst w := snd w))"
    by (intro represents_update) auto
  then show ?case using Cons by (simp add: apply_updates_def)
qed (simp add: apply_updates_def)

text \<open>
  Appending an item to a segment and updating the index accordingly carries out the item's
  updates on the store.
\<close>

lemma represents_write:
  assumes "represents contents k m" "valid_item it" "contents sid = Some pre"
  shows "represents (contents(sid \<mapsto> pre @ item_bytes it)) (write_item sid (length pre) it k)
    (apply_updates m (item_updates it))"
proof -
  let ?c = "contents(sid \<mapsto> pre @ item_bytes it)"
  have "represents ?c k m"
    by (rule represents_mono [OF assms(1)]) (use assms(3) in \<open>auto simp: fun_upd_def\<close>)
  then show ?thesis
    unfolding write_item_def
    using represents_updates [OF item_entries_match [OF assms(2), of sid pre "[]"], of ?c k m] by simp
qed

lemma ok_write_item: "map_ok k \<Longrightarrow> map_ok (write_item sid off it k)"
proof -
  have "map_ok k \<Longrightarrow> map_ok (foldl update_keydir k us)" for us
    by (induction us arbitrary: k) (auto simp: update_keydir_def keydir_simps split: option.splits)
  then show "map_ok k \<Longrightarrow> map_ok (write_item sid off it k)" by (simp add: write_item_def)
qed

section \<open>Where the entries of the index come from\<close>

text \<open>Every entry of the index was made by a record of the log of its segment, with the record's time stamp.\<close>

definition indexed :: "(u32 \<Rightarrow> log_item list) \<Rightarrow> keydir \<Rightarrow> bool" where
  "indexed L k \<longleftrightarrow> (\<forall>key e. keydir_get k key = Some e \<longrightarrow>
     (\<exists>pre it post. L (ke_fileID e) = pre @ it # post \<and>
        (key, Some e) \<in> set (item_entries (ke_fileID e) (length (log_bytes pre)) it)))"

lemma item_entries_fileID: "(key, Some e) \<in> set (item_entries sid off it) \<Longrightarrow> ke_fileID e = sid"
  by (cases it) (auto simp: put_entry_def split: if_splits)

lemma indexed_empty [simp]: "indexed L newKeydir"
  by (simp add: indexed_def keydir_simps)

lemma indexed_mono:
  assumes "indexed L k" "\<And>i. \<exists>d. L' i = L i @ d"
  shows "indexed L' k"
  unfolding indexed_def
proof (intro allI impI)
  fix key e
  assume "keydir_get k key = Some e"
  then obtain pre it post where "L (ke_fileID e) = pre @ it # post"
    "(key, Some e) \<in> set (item_entries (ke_fileID e) (length (log_bytes pre)) it)"
    using assms(1) unfolding indexed_def by blast
  moreover obtain d where "L' (ke_fileID e) = L (ke_fileID e) @ d" using assms(2) by blast
  ultimately show "\<exists>pre it post. L' (ke_fileID e) = pre @ it # post \<and>
      (key, Some e) \<in> set (item_entries (ke_fileID e) (length (log_bytes pre)) it)"
    by (intro exI [of _ pre] exI [of _ it] exI [of _ "post @ d"]) simp
qed

lemma indexed_updates:
  assumes "map_ok k" "indexed L k" "L sid = pre @ it # post"
    and "\<forall>u \<in> set us. u \<in> set (item_entries sid (length (log_bytes pre)) it)"
  shows "indexed L (foldl update_keydir k us) \<and> map_ok (foldl update_keydir k us)"
  using assms
proof (induction us arbitrary: k)
  case (Cons u us)
  have ok: "map_ok (update_keydir k u)"
    using Cons.prems(1) by (simp add: update_keydir_def keydir_simps split: option.splits)
  have g: "keydir_get (update_keydir k u) key = (if key = fst u then snd u else keydir_get k key)" for key
    using Cons.prems(1) by (simp add: update_keydir_def keydir_simps split: option.splits)
  have u: "u \<in> set (item_entries sid (length (log_bytes pre)) it)" using Cons.prems(4) by simp
  have "indexed L (update_keydir k u)"
    unfolding indexed_def
  proof (intro allI impI)
    fix key e
    assume ke: "keydir_get (update_keydir k u) key = Some e"
    show "\<exists>pre it post. L (ke_fileID e) = pre @ it # post \<and>
        (key, Some e) \<in> set (item_entries (ke_fileID e) (length (log_bytes pre)) it)"
    proof (cases "key = fst u")
      case True
      then have "u = (key, Some e)" using ke g by (cases u) simp
      then show ?thesis using u item_entries_fileID Cons.prems(3) by blast
    next
      case False
      then show ?thesis using ke g Cons.prems(2) unfolding indexed_def by simp
    qed
  qed
  with ok Cons show ?case by simp
qed simp

lemma indexed_write:
  assumes "map_ok k" "indexed L k" "L sid = pre"
  shows "indexed (L(sid := pre @ [it])) (write_item sid (length (log_bytes pre)) it k)"
proof -
  have "indexed (L(sid := pre @ [it])) k" by (rule indexed_mono [OF assms(2)]) (use assms(3) in auto)
  then show ?thesis
    unfolding write_item_def
    using indexed_updates [of k "L(sid := pre @ [it])" sid pre it "[]" "item_entries sid (length (log_bytes pre)) it"] assms(1)
    by simp
qed

end
