(* ===== verification/Segment.thy ===== *)
theory Segment
  imports Go_Map
begin

text \<open>
  Segment files, \<open>internal/engine/segment.go\<close> and \<open>fsync_other.go\<close>. A file holds the
  bytes the operating system has accepted and how many of them an fsync has made durable;
  a segment is the engine's handle on it: its id, the logical size, and the \<open>bufio.Writer\<close>
  with the bytes not yet handed to the system.

  What the operating system answers is an input of every operation: a write fault
  \<open>Some k\<close> means that the call's writes fail after \<open>k\<close> bytes, a boolean fault that the
  call fails. As in \<open>bufio\<close>, a failed write is sticky: every later write or flush of that
  writer fails too.
\<close>

section \<open>Files and segments\<close>

record osfile =
  f_data :: bytes
  f_synced :: nat

record segment =
  seg_id :: u32
  seg_size :: nat
  seg_bw :: "bytes option"
  seg_werr :: bool

datatype os_error =
    ErrOS
  | ErrExist
  | ErrNotExist
  | ErrReadEOF
  | ErrNegativeOffset
  | ErrNilWriter

definition bufioSize :: nat where "bufioSize = 64 * 1024"

text \<open>
  \<open>bufio.Writer.Write\<close> without faults, with \<open>b\<close> buffered: the bytes handed to the file and
  what is buffered afterwards.
\<close>

definition bufio_write :: "bytes \<Rightarrow> bytes \<Rightarrow> bytes \<times> bytes" where
  "bufio_write b p =
     (if length p \<le> bufioSize - length b then ([], b @ p)
      else if b = [] then (p, [])
      else let n = bufioSize - length b; p' = drop n p in
        if length p' \<le> bufioSize then (b @ take n p, p') else (b @ p, []))"

section \<open>Operations\<close>

text \<open>\<open>createSegment\<close>: the handle of a file just created with \<open>O_CREATE|O_EXCL\<close>.\<close>

definition new_file :: osfile where
  "new_file = \<lparr>f_data = [], f_synced = 0\<rparr>"

definition new_segment :: "u32 \<Rightarrow> segment" where
  "new_segment i = \<lparr>seg_id = i, seg_size = 0, seg_bw = Some [], seg_werr = False\<rparr>"

definition createSegment ::
  "bool \<Rightarrow> (u32, osfile) gomap \<Rightarrow> u32 \<Rightarrow> (os_error + segment) \<times> (u32, osfile) gomap" where
  "createSegment fault files i =
     (if map_get files i \<noteq> None then (Err ErrExist, files)
      else if fault then (Err ErrOS, files)
      else (Ok (new_segment i), map_set files i new_file))"

definition openSegmentReadWrite ::
  "bool \<Rightarrow> (u32, osfile) gomap \<Rightarrow> u32 \<Rightarrow> os_error + segment" where
  "openSegmentReadWrite fault files i =
     (case map_get files i of
        None \<Rightarrow> Err ErrNotExist
      | Some f \<Rightarrow> if fault then Err ErrOS
          else Ok \<lparr>seg_id = i, seg_size = length (f_data f), seg_bw = None, seg_werr = False\<rparr>)"

text \<open>\<open>append\<close>: the offset at which the record begins.\<close>

definition seg_append ::
  "nat option \<Rightarrow> osfile \<Rightarrow> segment \<Rightarrow> bytes \<Rightarrow> (os_error + nat) \<times> osfile \<times> segment" where
  "seg_append fault f s p =
     (case seg_bw s of
        None \<Rightarrow> (Err ErrNilWriter, f, s)
      | Some b \<Rightarrow>
          if seg_werr s then (Err ErrOS, f, s)
          else let (out, b') = bufio_write b p in
            (case fault of
               Some k \<Rightarrow>
                 if k < length out
                 then (Err ErrOS, f\<lparr>f_data := f_data f @ take k out\<rparr>, s\<lparr>seg_werr := True\<rparr>)
                 else (Ok (seg_size s), f\<lparr>f_data := f_data f @ out\<rparr>,
                       s\<lparr>seg_bw := Some b', seg_size := seg_size s + length p\<rparr>)
             | None \<Rightarrow> (Ok (seg_size s), f\<lparr>f_data := f_data f @ out\<rparr>,
                        s\<lparr>seg_bw := Some b', seg_size := seg_size s + length p\<rparr>)))"

definition seg_flush :: "nat option \<Rightarrow> osfile \<Rightarrow> segment \<Rightarrow> (os_error + unit) \<times> osfile \<times> segment" where
  "seg_flush fault f s =
     (case seg_bw s of
        None \<Rightarrow> (Ok (), f, s)
      | Some b \<Rightarrow>
          if seg_werr s then (Err ErrOS, f, s)
          else (case fault of
                  Some k \<Rightarrow>
                    if k < length b
                    then (Err ErrOS, f\<lparr>f_data := f_data f @ take k b\<rparr>,
                          s\<lparr>seg_bw := Some (drop k b), seg_werr := True\<rparr>)
                    else (Ok (), f\<lparr>f_data := f_data f @ b\<rparr>, s\<lparr>seg_bw := Some []\<rparr>)
                | None \<Rightarrow> (Ok (), f\<lparr>f_data := f_data f @ b\<rparr>, s\<lparr>seg_bw := Some []\<rparr>)))"

text \<open>\<open>fullSync\<close> (\<open>fsync_other.go\<close>) and \<open>sync\<close>: flush, then fsync.\<close>

definition fullSync :: "bool \<Rightarrow> osfile \<Rightarrow> (os_error + unit) \<times> osfile" where
  "fullSync fault f = (if fault then (Err ErrOS, f) else (Ok (), f\<lparr>f_synced := length (f_data f)\<rparr>))"

definition seg_sync ::
  "nat option \<Rightarrow> bool \<Rightarrow> osfile \<Rightarrow> segment \<Rightarrow> (os_error + unit) \<times> osfile \<times> segment" where
  "seg_sync wfault sfault f s =
     (case seg_flush wfault f s of
        (Inl e, f', s') \<Rightarrow> (Err e, f', s')
      | (Inr _, f', s') \<Rightarrow> (case fullSync sfault f' of (r, f'') \<Rightarrow> (r, f'', s')))"

text \<open>\<open>readAt\<close>: exactly \<open>n\<close> bytes at offset \<open>off\<close>, or an error.\<close>

definition seg_readAt :: "bool \<Rightarrow> osfile \<Rightarrow> nat \<Rightarrow> int \<Rightarrow> os_error + bytes" where
  "seg_readAt fault f n off =
     (if off < 0 then Err ErrNegativeOffset
      else if fault then Err ErrOS
      else if nat off + n > length (f_data f) then Err ErrReadEOF
      else Ok (slice (nat off) (nat off + n) (f_data f)))"

text \<open>\<open>close\<close>: a last flush whose result is dropped; the error is that of closing the descriptor.\<close>

definition seg_close :: "nat option \<Rightarrow> bool \<Rightarrow> osfile \<Rightarrow> segment \<Rightarrow> (os_error + unit) \<times> osfile" where
  "seg_close wfault cfault f s =
     (case seg_flush wfault f s of (_, f', _) \<Rightarrow> (if cfault then Err ErrOS else Ok (), f'))"

section \<open>What the operations do\<close>

lemma bufio_write_concat: "bufio_write b p = (out, b') \<Longrightarrow> out @ b' = b @ p"
  by (auto simp: bufio_write_def Let_def split: if_splits)

lemma bufio_write_bound:
  "bufio_write b p = (out, b') \<Longrightarrow> length b \<le> bufioSize \<Longrightarrow> length b' \<le> bufioSize"
  by (auto simp: bufio_write_def Let_def bufioSize_def split: if_splits)

text \<open>
  A segment is in step with its file when everything appended is in the file or still
  buffered, and the size counts both.
\<close>

definition seg_ok :: "osfile \<Rightarrow> segment \<Rightarrow> bool" where
  "seg_ok f s \<longleftrightarrow> \<not> seg_werr s \<and> f_synced f \<le> length (f_data f) \<and>
     seg_size s = length (f_data f) + (case seg_bw s of None \<Rightarrow> 0 | Some b \<Rightarrow> length b)"

text \<open>The bytes of a segment once its buffer is flushed.\<close>

definition seg_content :: "osfile \<Rightarrow> segment \<Rightarrow> bytes" where
  "seg_content f s = f_data f @ (case seg_bw s of None \<Rightarrow> [] | Some b \<Rightarrow> b)"

lemma seg_size_content: "seg_ok f s \<Longrightarrow> seg_size s = length (seg_content f s)"
  by (simp add: seg_ok_def seg_content_def split: option.splits)

lemma seg_append_Ok:
  assumes "seg_append fault f s p = (Ok off, f', s')" "seg_ok f s"
  shows "off = length (seg_content f s)" "seg_content f' s' = seg_content f s @ p" "seg_ok f' s'"
    "seg_id s' = seg_id s" "f_synced f' = f_synced f" "seg_bw s' \<noteq> None"
proof -
  obtain b where b: "seg_bw s = Some b"
    using assms(1) by (cases "seg_bw s") (simp_all add: seg_append_def)
  obtain out b' where w: "bufio_write b p = (out, b')" by (cases "bufio_write b p")
  have "f' = f\<lparr>f_data := f_data f @ out\<rparr> \<and> off = seg_size s \<and>
      s' = s\<lparr>seg_bw := Some b', seg_size := seg_size s + length p\<rparr>"
    using assms(1) b w by (cases fault) (auto simp: seg_append_def split: if_splits)
  then have f': "f' = f\<lparr>f_data := f_data f @ out\<rparr>"
    and s': "s' = s\<lparr>seg_bw := Some b', seg_size := seg_size s + length p\<rparr>" and off: "off = seg_size s"
    by simp_all
  note c = bufio_write_concat [OF w]
  show "off = length (seg_content f s)" using off assms(2) by (simp add: seg_size_content)
  show "seg_content f' s' = seg_content f s @ p" using c b f' s' by (simp add: seg_content_def)
  have "length out + length b' = length b + length p" using arg_cong [OF c, of length] by simp
  then show "seg_ok f' s'" using assms(2) b f' s' by (simp add: seg_ok_def)
  show "seg_id s' = seg_id s" "f_synced f' = f_synced f" "seg_bw s' \<noteq> None" using s' f' by simp_all
qed

lemma seg_append_total:
  assumes "seg_ok f s" "seg_bw s \<noteq> None"
  shows "\<exists>f' s'. seg_append None f s p = (Ok (length (seg_content f s)), f', s')"
  using assms by (auto simp: seg_append_def Let_def seg_ok_def seg_content_def split: prod.splits)

lemma seg_flush_Ok:
  assumes "seg_flush fault f s = (Ok u, f', s')" "seg_ok f s"
  shows "f_data f' = seg_content f s" "seg_ok f' s'" "seg_content f' s' = seg_content f s"
    "seg_id s' = seg_id s" "f_synced f' = f_synced f" "seg_bw s' = map_option (\<lambda>_. []) (seg_bw s)"
    "seg_size s' = seg_size s"
  using assms
  by (auto simp: seg_flush_def seg_ok_def seg_content_def split: option.splits if_splits)

lemma seg_flush_total: "seg_ok f s \<Longrightarrow> \<exists>f' s'. seg_flush None f s = (Ok (), f', s')"
  by (auto simp: seg_flush_def seg_ok_def split: option.splits)

lemma seg_sync_Ok:
  assumes "seg_sync wfault sfault f s = (Ok u, f', s')" "seg_ok f s"
  shows "f_data f' = seg_content f s" "f_synced f' = length (f_data f')" "seg_ok f' s'"
    "seg_content f' s' = seg_content f s" "seg_id s' = seg_id s"
    "seg_bw s' = map_option (\<lambda>_. []) (seg_bw s)" "seg_size s' = seg_size s"
proof -
  from assms(1) obtain g where fl: "seg_flush wfault f s = (Ok (), g, s')"
    and f': "f' = g\<lparr>f_synced := length (f_data g)\<rparr>"
    by (auto simp: seg_sync_def fullSync_def split: sum.splits prod.splits if_splits)
  note q = seg_flush_Ok [OF fl assms(2)]
  show "f_data f' = seg_content f s" "f_synced f' = length (f_data f')" "seg_ok f' s'"
    "seg_content f' s' = seg_content f s" "seg_id s' = seg_id s"
    "seg_bw s' = map_option (\<lambda>_. []) (seg_bw s)" "seg_size s' = seg_size s"
    using q f' by (simp_all add: seg_ok_def seg_content_def)
qed

lemma seg_readAt_Ok:
  "seg_readAt False f n off = Ok bs \<longleftrightarrow>
     0 \<le> off \<and> nat off + n \<le> length (f_data f) \<and> bs = slice (nat off) (nat off + n) (f_data f)"
  by (auto simp: seg_readAt_def)

text \<open>
  Append, then flush, then read: the bytes appended to a segment are found at the offset
  \<open>append\<close> returned, whatever was in the file and in the write buffer before, and everything
  appended earlier is still where it was.
\<close>

theorem append_flush_readAt:
  assumes "seg_ok f s" "seg_append w1 f s p = (Ok off, f1, s1)" "seg_flush w2 f1 s1 = (Ok (), f2, s2)"
  shows "seg_readAt False f2 (length p) (int off) = Ok p \<and>
    (\<forall>n o' bs. seg_readAt False f n o' = Ok bs \<longrightarrow> seg_readAt False f2 n o' = Ok bs) \<and>
    seg_size s2 = off + length p"
proof -
  note a = seg_append_Ok [OF assms(2,1)]
  note b = seg_flush_Ok [OF assms(3) a(3)]
  have d: "f_data f2 = seg_content f s @ p" using a(2) b(1) by simp
  have "seg_readAt False f2 (length p) (int off) = Ok p"
    using d a(1) by (simp add: seg_readAt_Ok slice_def)
  moreover have "seg_readAt False f2 n o' = Ok bs" if "seg_readAt False f n o' = Ok bs" for n o' bs
  proof -
    from that have "nat o' + n \<le> length (f_data f)" by (simp add: seg_readAt_Ok)
    then have "slice (nat o') (nat o' + n) (f_data f2) = slice (nat o') (nat o' + n) (f_data f)"
      using d by (simp add: seg_content_def slice_append1)
    with that d show ?thesis by (simp add: seg_readAt_Ok seg_content_def)
  qed
  moreover have "seg_size s2 = off + length p"
    using a b seg_size_content [OF a(3)] by simp
  ultimately show ?thesis by blast
qed

theorem append_flush_readAt_witness:
  "seg_readAt False \<lparr>f_data = [5, 6, 7], f_synced = 0\<rparr> 2 1 = Ok [6, 7]"
  using append_flush_readAt [of "\<lparr>f_data = [5], f_synced = 0\<rparr>"
      "\<lparr>seg_id = 0, seg_size = 1, seg_bw = Some [], seg_werr = False\<rparr>" None "[6, 7]" 1
      "\<lparr>f_data = [5], f_synced = 0\<rparr>" "\<lparr>seg_id = 0, seg_size = 3, seg_bw = Some [6, 7], seg_werr = False\<rparr>"
      None "\<lparr>f_data = [5, 6, 7], f_synced = 0\<rparr>"
      "\<lparr>seg_id = 0, seg_size = 3, seg_bw = Some [], seg_werr = False\<rparr>"]
  by (simp add: seg_ok_def seg_append_def bufio_write_def bufioSize_def seg_flush_def numeral_2_eq_2)

end
