(* ===== verification/Hint.thy ===== *)
theory Hint
  imports Log_Record Go_Map
begin

text \<open>
  Hint sidecars, \<open>internal/engine/hint.go\<close>: the replay metadata of a segment, with a
  header (magic, version, reserved), one entry per key update and a footer (entry count,
  CRC32C of everything before it). Files are published by writing a temporary, fsync,
  rename and a directory fsync; at which of these the operating system fails is an input.
  The temporary is removed on every failure before the rename, so only the final file is
  part of the state.
\<close>

section \<open>Format\<close>

definition hintEntryHeaderSize :: nat where "hintEntryHeaderSize = 24"
definition hintFileHeaderSize :: nat where "hintFileHeaderSize = 8"
definition hintFileFooterSize :: nat where "hintFileFooterSize = 8"
definition hintVersion :: u16 where "hintVersion = 1"
definition hintValuePosTombstone :: int where "hintValuePosTombstone = -1"
definition hintMagic :: bytes where "hintMagic = [0x48, 0x49, 0x4e, 0x54]"

lemmas hint_consts = hintEntryHeaderSize_def hintFileHeaderSize_def hintFileFooterSize_def

record hintEntry =
  h_key :: bytes
  h_valuePos :: int
  h_valueLen :: u32
  h_tstamp :: int

datatype hint_error =
    ErrHintMissing
  | ErrHintIO
  | HintTooManyEntries
  | HintEmptyKey nat
  | HintKeyTooLong nat
  | HintValTooLong nat
  | HintTooShort
  | HintBadMagic
  | HintBadVersion
  | HintBadCRC
  | HintTruncatedEntry nat
  | HintBadKeyLen nat
  | HintBadValLen nat
  | HintKeyPastEnd nat
  | HintCountMismatch

text \<open>Where publishing a file by temporary, rename and directory fsync can fail.\<close>

datatype publish_fault =
    NoFault | FOpenTmp | FWriteTmp | FSyncTmp | FCloseTmp | FRename | FOpenDir | FSyncDir | FCloseDir

definition fault_before_rename :: "publish_fault \<Rightarrow> bool" where
  "fault_before_rename ft \<longleftrightarrow> ft \<in> {FOpenTmp, FWriteTmp, FSyncTmp, FCloseTmp, FRename}"

definition fault_after_rename :: "publish_fault \<Rightarrow> bool" where
  "fault_after_rename ft \<longleftrightarrow> ft \<in> {FOpenDir, FSyncDir, FCloseDir}"

section \<open>Writing\<close>

definition hint_entry_bytes :: "hintEntry \<Rightarrow> bytes" where
  "hint_entry_bytes e = LE_PutUint32 (word_of_nat (length (h_key e))) @ LE_PutUint32 (h_valueLen e) @
     LE_PutUint64 (u64_of_int64 (h_valuePos e)) @ LE_PutUint64 (u64_of_int64 (h_tstamp e)) @ h_key e"

text \<open>The validation loop that runs before anything touches the file system.\<close>

fun checkHintEntries :: "nat \<Rightarrow> hintEntry list \<Rightarrow> hint_error option" where
  "checkHintEntries i [] = None"
| "checkHintEntries i (e # es) =
     (if length (h_key e) = 0 then Some (HintEmptyKey i)
      else if length (h_key e) > maxKeyLen then Some (HintKeyTooLong i)
      else if unat (h_valueLen e) > maxValLen then Some (HintValTooLong i)
      else checkHintEntries (Suc i) es)"

definition hint_payload :: "hintEntry list \<Rightarrow> bytes" where
  "hint_payload es = hintMagic @ LE_PutUint16 hintVersion @ [0, 0] @
     concat (map hint_entry_bytes es) @ LE_PutUint32 (word_of_nat (length es))"

definition hint_bytes :: "hintEntry list \<Rightarrow> bytes" where
  "hint_bytes es = hint_payload es @ LE_PutUint32 (crc32c (hint_payload es))"

definition writeHintFile ::
  "publish_fault \<Rightarrow> (u32, bytes) gomap \<Rightarrow> u32 \<Rightarrow> hintEntry list \<Rightarrow> (hint_error + unit) \<times> (u32, bytes) gomap" where
  "writeHintFile ft hints segmentID es =
     (if length es > 2 ^ 32 - 1 then (Err HintTooManyEntries, hints)
      else (case checkHintEntries 0 es of
              Some x \<Rightarrow> (Err x, hints)
            | None \<Rightarrow>
                if fault_before_rename ft then (Err ErrHintIO, hints)
                else if fault_after_rename ft then (Err ErrHintIO, map_set hints segmentID (hint_bytes es))
                else (Ok (), map_set hints segmentID (hint_bytes es))))"

section \<open>Reading\<close>

text \<open>The entry loop, from offset \<open>off\<close> to \<open>entriesEnd\<close>.\<close>

function readHintEntries :: "bytes \<Rightarrow> nat \<Rightarrow> nat \<Rightarrow> hint_error + hintEntry list" where
  "readHintEntries data entriesEnd off =
     (if off < entriesEnd then
        (if entriesEnd - off < hintEntryHeaderSize then Err (HintTruncatedEntry off)
         else
           let keyLen = unat (LE_Uint32 (slice off (off + 4) data));
               valLen = LE_Uint32 (slice (off + 4) (off + 8) data);
               valPos = int64_of_u64 (LE_Uint64 (slice (off + 8) (off + 16) data));
               tstamp = int64_of_u64 (LE_Uint64 (slice (off + 16) (off + 24) data)) in
           if keyLen = 0 \<or> keyLen > maxKeyLen then Err (HintBadKeyLen off)
           else if unat valLen > maxValLen then Err (HintBadValLen off)
           else
             let bodyStart = off + hintEntryHeaderSize; bodyEnd = bodyStart + keyLen in
             if bodyEnd > entriesEnd then Err (HintKeyPastEnd off)
             else (case readHintEntries data entriesEnd bodyEnd of
                     Inl x \<Rightarrow> Err x
                   | Inr es \<Rightarrow> Ok (\<lparr>h_key = slice bodyStart bodyEnd data, h_valuePos = valPos,
                                   h_valueLen = valLen, h_tstamp = tstamp\<rparr> # es)))
      else Ok [])"
  by pat_completeness auto
termination
  by (relation "measure (\<lambda>(data, entriesEnd, off). entriesEnd - off)") (auto simp: hint_consts)

declare readHintEntries.simps [simp del]

definition parseHint :: "bytes \<Rightarrow> hint_error + hintEntry list" where
  "parseHint data =
     (if length data < hintFileHeaderSize + hintFileFooterSize then Err HintTooShort
      else if slice 0 4 data \<noteq> hintMagic then Err HintBadMagic
      else if LE_Uint16 (slice 4 6 data) \<noteq> hintVersion then Err HintBadVersion
      else
        let crcOff = length data - 4;
            gotCRC = LE_Uint32 (slice crcOff (length data) data);
            wantCRC = crc32c (take crcOff data) in
        if gotCRC \<noteq> wantCRC then Err HintBadCRC
        else
          let declaredCount = LE_Uint32 (slice (crcOff - 4) crcOff data) in
          (case readHintEntries data (crcOff - 4) hintFileHeaderSize of
             Inl x \<Rightarrow> Err x
           | Inr es \<Rightarrow> if (word_of_nat (length es) :: u32) \<noteq> declaredCount
                       then Err HintCountMismatch else Ok es))"

definition readHintFile :: "bool \<Rightarrow> (u32, bytes) gomap \<Rightarrow> u32 \<Rightarrow> hint_error + hintEntry list" where
  "readHintFile ioFault hints segmentID =
     (case map_get hints segmentID of
        None \<Rightarrow> Err ErrHintMissing
      | Some data \<Rightarrow> if ioFault then Err ErrHintIO else parseHint data)"

definition removeHintFile :: "bool \<Rightarrow> (u32, bytes) gomap \<Rightarrow> u32 \<Rightarrow> (hint_error + unit) \<times> (u32, bytes) gomap" where
  "removeHintFile ioFault hints segmentID =
     (if map_get hints segmentID = None then (Ok (), hints)
      else if ioFault then (Err ErrHintIO, hints)
      else (Ok (), map_del hints segmentID))"

section \<open>Round trip\<close>

definition valid_hint :: "hintEntry \<Rightarrow> bool" where
  "valid_hint e \<longleftrightarrow> 0 < length (h_key e) \<and> length (h_key e) \<le> maxKeyLen \<and> unat (h_valueLen e) \<le> maxValLen \<and>
     int64_range (h_valuePos e) \<and> int64_range (h_tstamp e)"

lemma length_hint_entry_bytes [simp]: "length (hint_entry_bytes e) = hintEntryHeaderSize + length (h_key e)"
  by (simp add: hint_entry_bytes_def hintEntryHeaderSize_def)

lemma checkHintEntries_None:
  "checkHintEntries i es = None \<longleftrightarrow>
     (\<forall>e \<in> set es. 0 < length (h_key e) \<and> length (h_key e) \<le> maxKeyLen \<and> unat (h_valueLen e) \<le> maxValLen)"
  by (induction es arbitrary: i) auto

lemma hint_entry_fields:
  assumes "valid_hint e" "data = pre @ hint_entry_bytes e @ post" "off = length pre"
  shows "unat (LE_Uint32 (slice off (off + 4) data)) = length (h_key e)"
    and "LE_Uint32 (slice (off + 4) (off + 8) data) = h_valueLen e"
    and "int64_of_u64 (LE_Uint64 (slice (off + 8) (off + 16) data)) = h_valuePos e"
    and "int64_of_u64 (LE_Uint64 (slice (off + 16) (off + 24) data)) = h_tstamp e"
    and "slice (off + 24) (off + 24 + length (h_key e)) data = h_key e"
proof -
  let ?k = "LE_PutUint32 (word_of_nat (length (h_key e)))" and ?v = "LE_PutUint32 (h_valueLen e)"
  let ?p = "LE_PutUint64 (u64_of_int64 (h_valuePos e))" and ?t = "LE_PutUint64 (u64_of_int64 (h_tstamp e))"
  have d: "data = pre @ ?k @ ?v @ ?p @ ?t @ h_key e @ post"
    using assms(2) by (simp add: hint_entry_bytes_def)
  show "unat (LE_Uint32 (slice off (off + 4) data)) = length (h_key e)"
    unfolding d using assms(1,3) by (simp add: slice_def valid_hint_def unat_len_key)
  show "LE_Uint32 (slice (off + 4) (off + 8) data) = h_valueLen e"
    unfolding d using assms(3) by (simp add: slice_def)
  show "int64_of_u64 (LE_Uint64 (slice (off + 8) (off + 16) data)) = h_valuePos e"
    unfolding d using assms(1,3) by (simp add: slice_def valid_hint_def)
  show "int64_of_u64 (LE_Uint64 (slice (off + 16) (off + 24) data)) = h_tstamp e"
    unfolding d using assms(1,3) by (simp add: slice_def valid_hint_def)
  show "slice (off + 24) (off + 24 + length (h_key e)) data = h_key e"
    unfolding d using assms(3) by (simp add: slice_def)
qed

lemma readHintEntries_layout:
  assumes "\<forall>e \<in> set es. valid_hint e" "data = pre @ concat (map hint_entry_bytes es) @ post"
    and "entriesEnd = length pre + length (concat (map hint_entry_bytes es))"
  shows "readHintEntries data entriesEnd (length pre) = Ok es"
  using assms
proof (induction es arbitrary: pre)
  case Nil
  then show ?case by (simp add: readHintEntries.simps)
next
  case (Cons e es)
  let ?off = "length pre"
  have v: "valid_hint e" using Cons.prems(1) by simp
  have d: "data = pre @ hint_entry_bytes e @ (concat (map hint_entry_bytes es) @ post)"
    using Cons.prems(2) by simp
  note f = hint_entry_fields [OF v d refl]
  have len: "?off + 24 + length (h_key e) \<le> entriesEnd"
    using Cons.prems(3) by (simp add: hintEntryHeaderSize_def)
  have "readHintEntries data entriesEnd (length (pre @ hint_entry_bytes e)) = Ok es"
    by (rule Cons.IH) (use Cons.prems in simp_all)
  then have rest: "readHintEntries data entriesEnd (?off + 24 + length (h_key e)) = Ok es"
    by (simp add: hintEntryHeaderSize_def add.assoc)
  show ?case
    using v len
    by (subst readHintEntries.simps)
      (simp only: hintEntryHeaderSize_def f Let_def rest sum.case, simp add: valid_hint_def)
qed

lemma length_hint_payload:
  "length (hint_payload es) = 12 + length (concat (map hint_entry_bytes es))"
  by (simp add: hint_payload_def hintMagic_def)

lemma parseHint_hint_bytes:
  assumes "\<forall>e \<in> set es. valid_hint e"
  shows "parseHint (hint_bytes es) = Ok es"
proof -
  let ?pre = "hintMagic @ LE_PutUint16 hintVersion @ [0, 0]"
  let ?cnt = "LE_PutUint32 (word_of_nat (length es))" and ?crc = "LE_PutUint32 (crc32c (hint_payload es))"
  let ?n = "length (concat (map hint_entry_bytes es))"
  have d: "hint_bytes es = ?pre @ concat (map hint_entry_bytes es) @ (?cnt @ ?crc)"
    by (simp add: hint_bytes_def hint_payload_def)
  have len: "length (hint_bytes es) = 16 + ?n" by (simp add: hint_bytes_def length_hint_payload)
  have "length ?pre = hintFileHeaderSize" by (simp add: hintMagic_def hintFileHeaderSize_def)
  then have "readHintEntries (hint_bytes es) (8 + ?n) hintFileHeaderSize = Ok es"
    using readHintEntries_layout [OF assms d] by (simp add: hintFileHeaderSize_def)
  moreover have "slice 0 4 (hint_bytes es) = hintMagic" "LE_Uint16 (slice 4 6 (hint_bytes es)) = hintVersion"
    unfolding d by (simp_all add: slice_def hintMagic_def)
  moreover have "slice (12 + ?n) (16 + ?n) (hint_bytes es) = ?crc" "take (12 + ?n) (hint_bytes es) = hint_payload es"
    by (simp_all add: hint_bytes_def length_hint_payload slice_def)
  moreover have "slice (8 + ?n) (12 + ?n) (hint_bytes es) = ?cnt"
    using slice_mid [of "?pre @ concat (map hint_entry_bytes es)" "8 + ?n" ?cnt "12 + ?n" ?crc] d
    by (simp add: hintMagic_def)
  ultimately show ?thesis
    by (simp add: parseHint_def len hintFileHeaderSize_def hintFileFooterSize_def)
qed

text \<open>
  A hint file that was written is read back entry for entry, in order: tombstones,
  empty values and negative positions included.
\<close>

theorem hint_roundtrip:
  assumes "map_ok hints" "writeHintFile ft hints segmentID es = (Ok (), hints')"
    and "\<forall>e \<in> set es. int64_range (h_valuePos e) \<and> int64_range (h_tstamp e)"
  shows "readHintFile False hints' segmentID = Ok es"
proof -
  from assms(2) have "checkHintEntries 0 es = None" and h: "hints' = map_set hints segmentID (hint_bytes es)"
    by (auto simp: writeHintFile_def split: if_splits option.splits)
  with assms(3) have "\<forall>e \<in> set es. valid_hint e" by (auto simp: checkHintEntries_None valid_hint_def)
  then show ?thesis
    using h assms(1) by (simp add: readHintFile_def map_index_simps parseHint_hint_bytes)
qed

theorem hint_roundtrip_witness:
  "readHintFile False
     [(3, hint_bytes [\<lparr>h_key = [1], h_valuePos = 22, h_valueLen = 5, h_tstamp = 9\<rparr>,
                      \<lparr>h_key = [2], h_valuePos = -1, h_valueLen = 0, h_tstamp = 10\<rparr>])] 3
   = Ok [\<lparr>h_key = [1], h_valuePos = 22, h_valueLen = 5, h_tstamp = 9\<rparr>,
         \<lparr>h_key = [2], h_valuePos = -1, h_valueLen = 0, h_tstamp = 10\<rparr>]"
  by (rule hint_roundtrip [where hints = "[]" and ft = NoFault])
    (simp_all add: map_ok_def writeHintFile_def fault_before_rename_def fault_after_rename_def
      record_consts map_set_def int64_range_def)

section \<open>Corruption\<close>

text \<open>
  A hint file with any single byte changed, wherever it is, is rejected; recovery then
  falls back to scanning the segment.
\<close>

theorem hint_detects_corruption:
  assumes "i < length (hint_bytes es)" "b \<noteq> hint_bytes es ! i"
  shows "\<not> is_ok (parseHint ((hint_bytes es)[i := b]))"
proof -
  let ?P = "hint_payload es" and ?C = "LE_PutUint32 (crc32c (hint_payload es))"
  let ?d = "(hint_bytes es)[i := b]"
  have len: "length ?d = length ?P + 4" by (simp add: hint_bytes_def)
  have "LE_Uint32 (slice (length ?d - 4) (length ?d) ?d) \<noteq> crc32c (take (length ?d - 4) ?d)"
  proof (cases "i < length ?P")
    case True
    then have "?d = ?P[i := b] @ ?C" "b \<noteq> ?P ! i"
      using assms(2) by (simp_all add: hint_bytes_def list_update_append1 nth_append)
    then show ?thesis
      using True crc32c_update_change [of i ?P b] by (simp add: slice_def)
  next
    case False
    then have d: "?d = ?P @ ?C[i - length ?P := b]" and "b \<noteq> ?C ! (i - length ?P)"
      using assms(2) by (simp_all add: hint_bytes_def list_update_append nth_append)
    then have "?C[i - length ?P := b] \<noteq> ?C"
      using assms(1) False by (metis add_diff_inverse_nat hint_bytes_def length_append nat_add_left_cancel_less nth_list_update_eq)
    then have "LE_Uint32 (?C[i - length ?P := b]) \<noteq> LE_Uint32 ?C"
      by (simp only: le32.get_inject length_list_update codec_lengths) simp
    then show ?thesis using d by (simp add: slice_def)
  qed
  then show ?thesis by (simp add: parseHint_def Let_def)
qed

theorem hint_detects_corruption_witness:
  "\<not> is_ok (parseHint ((hint_bytes [])[6 := 1]))"
  by (rule hint_detects_corruption) (simp_all add: hint_bytes_def hint_payload_def hintMagic_def nth_append)

end
