(* ===== verification/Manifest.thy ===== *)
theory Manifest
  imports Hint
begin

text \<open>
  The manifest, \<open>internal/engine/manifest.go\<close>: the list of live segments and the active
  one, replaced atomically by temporary file, rename and directory fsync. The file is
  modelled after \<open>json.Unmarshal\<close>: its content is a document of the schema \<open>manifestV1\<close>, or
  \<open>None\<close> for bytes that do not parse. Failures of the operating system are inputs, as in
  \<open>writeHintFile\<close>.
\<close>

section \<open>Data\<close>

record manifestV1 =
  mf_version :: int
  mf_segments :: "u32 list"
  mf_active :: "u32 option"

definition manifestVersion :: int where "manifestVersion = 1"

datatype manifest_error =
    ErrManifestMissing
  | ManifestIO
  | ManifestParse
  | ManifestBadVersion int
  | ManifestNotAscending
  | ManifestMissingActive
  | ManifestActiveNotListed u32
  | ErrManifestPublishedButUncertain
  | ManifestSegmentMissing u32

text \<open>The manifest file: absent, or present with a document that parses or does not.\<close>

type_synonym manifest_file = "manifestV1 option option"

section \<open>Operations\<close>

fun strictly_ascending :: "u32 list \<Rightarrow> bool" where
  "strictly_ascending (a # b # xs) = (\<not> b \<le> a \<and> strictly_ascending (b # xs))"
| "strictly_ascending _ = True"

definition readManifest :: "bool \<Rightarrow> manifest_file \<Rightarrow> manifest_error + u32 list \<times> u32" where
  "readManifest ioFault mf =
     (case mf of
        None \<Rightarrow> Err ErrManifestMissing
      | Some doc \<Rightarrow>
          if ioFault then Err ManifestIO
          else (case doc of
            None \<Rightarrow> Err ManifestParse
          | Some m \<Rightarrow>
              if mf_version m \<noteq> manifestVersion then Err (ManifestBadVersion (mf_version m))
              else if \<not> strictly_ascending (mf_segments m) then Err ManifestNotAscending
              else (case mf_active m of
                      None \<Rightarrow> Err ManifestMissingActive
                    | Some a \<Rightarrow> if a \<notin> set (mf_segments m) then Err (ManifestActiveNotListed a)
                                else Ok (mf_segments m, a))))"

text \<open>
  The dedup loop of \<open>writeManifest\<close>. \<open>dedup := sorted[:0]\<close> shares its array with \<open>sorted\<close>, so
  the loop overwrites the array it is reading: \<open>arr\<close> is that array, \<open>i\<close> the read position
  and \<open>n\<close> the length of \<open>dedup\<close>.
\<close>

function dedupLoop :: "u32 list \<Rightarrow> nat \<Rightarrow> nat \<Rightarrow> u32 list" where
  "dedupLoop arr i n =
     (if i < length arr then
        (if i = 0 \<or> arr ! i \<noteq> arr ! (i - 1) then dedupLoop (arr[n := arr ! i]) (Suc i) (Suc n)
         else dedupLoop arr (Suc i) n)
      else take n arr)"
  by pat_completeness auto
termination
  by (relation "measure (\<lambda>(arr, i, n). length arr - i)") auto

declare dedupLoop.simps [simp del]

definition syncDir :: "publish_fault \<Rightarrow> manifest_error + unit" where
  "syncDir ft = (if fault_after_rename ft then Err ManifestIO else Ok ())"

definition writeManifest ::
  "publish_fault \<Rightarrow> manifest_file \<Rightarrow> u32 list \<Rightarrow> u32 \<Rightarrow> (manifest_error + unit) \<times> manifest_file" where
  "writeManifest ft mf ids active =
     (let dedup = dedupLoop (sort ids) 0 0 in
      if active \<notin> set dedup then (Err (ManifestActiveNotListed active), mf)
      else if fault_before_rename ft then (Err ManifestIO, mf)
      else let mf' = Some (Some \<lparr>mf_version = manifestVersion, mf_segments = dedup, mf_active = Some active\<rparr>) in
        (case syncDir ft of
           Inl _ \<Rightarrow> (Err ErrManifestPublishedButUncertain, mf')
         | Inr _ \<Rightarrow> (Ok (), mf')))"

text \<open>The live set, the active segment, and whether the manifest has yet to be written.\<close>

definition reconcileManifest ::
  "bool \<Rightarrow> manifest_file \<Rightarrow> u32 list \<Rightarrow> manifest_error + u32 list \<times> u32 \<times> bool" where
  "reconcileManifest ioFault mf onDisk =
     (case readManifest ioFault mf of
        Inl ErrManifestMissing \<Rightarrow> Ok (onDisk, 0, True)
      | Inl e \<Rightarrow> Err e
      | Inr (manifest, manifestActive) \<Rightarrow>
          (case find (\<lambda>i. i \<notin> set onDisk) manifest of
             Some i \<Rightarrow> Err (ManifestSegmentMissing i)
           | None \<Rightarrow> Ok (manifest, manifestActive, False)))"

section \<open>The dedup loop\<close>

lemma remdups_adj_snoc:
  "remdups_adj (xs @ [x]) = (if xs \<noteq> [] \<and> last xs = x then remdups_adj xs else remdups_adj xs @ [x])"
  by (cases xs rule: rev_cases) (simp_all add: remdups_adj_append_two)

lemma distinct_remdups_adj_sorted: "sorted (xs :: 'a::linorder list) \<Longrightarrow> distinct (remdups_adj xs)"
  by (induction xs rule: remdups_adj.induct) (auto simp: le_less)

text \<open>
  Overwriting is harmless: what is still to be read, and the element just read, keep their
  values, because the write position never overtakes the read position.
\<close>

lemma dedupLoop_invariant:
  assumes "length arr = length xs" "n \<le> i" "i \<le> length xs" "drop i arr = drop i xs"
    and "0 < i \<Longrightarrow> arr ! (i - 1) = xs ! (i - 1)" "take n arr = remdups_adj (take i xs)"
  shows "dedupLoop arr i n = remdups_adj xs"
  using assms
proof (induction "length xs - i" arbitrary: arr i n)
  case 0
  then show ?case by (simp add: dedupLoop.simps)
next
  case (Suc d)
  then have i: "i < length xs" by simp
  then have at: "arr ! i = xs ! i" "drop (Suc i) arr = drop (Suc i) xs"
    using Suc.prems(1,4) by (auto simp: Cons_nth_drop_Suc [symmetric])
  have last: "0 < i \<Longrightarrow> last (take i xs) = xs ! (i - 1)"
    using i by (subst last_conv_nth) auto
  show ?case
  proof (cases "i = 0 \<or> arr ! i \<noteq> arr ! (i - 1)")
    case True
    let ?arr = "arr[n := arr ! i]"
    have "take (Suc n) ?arr = take n arr @ [xs ! i]"
      using Suc.prems(1,2) i at(1) by (simp add: take_Suc_conv_app_nth)
    also have "\<dots> = remdups_adj (take (Suc i) xs)"
      using True Suc.prems(5,6) i at(1) last
      by (auto simp: take_Suc_conv_app_nth remdups_adj_snoc)
    finally have "take (Suc n) ?arr = remdups_adj (take (Suc i) xs)" .
    moreover have "drop (Suc i) ?arr = drop (Suc i) xs" "?arr ! i = xs ! i"
      using Suc.prems(2) at i Suc.prems(1) by (auto simp: nth_list_update)
    ultimately have "dedupLoop ?arr (Suc i) (Suc n) = remdups_adj xs"
      using Suc.hyps(2) Suc.prems(1,2) i by (intro Suc.hyps(1)) simp_all
    then show ?thesis using True i Suc.prems(1) by (simp add: dedupLoop.simps [of arr i n])
  next
    case False
    then have "remdups_adj (take (Suc i) xs) = remdups_adj (take i xs)"
      using Suc.prems(5) i at(1) last by (auto simp: take_Suc_conv_app_nth remdups_adj_snoc)
    then have "dedupLoop arr (Suc i) n = remdups_adj xs"
      using Suc.hyps(2) Suc.prems(1,2,6) i at by (intro Suc.hyps(1)) simp_all
    then show ?thesis using False i Suc.prems(1) by (simp add: dedupLoop.simps [of arr i n])
  qed
qed

lemma dedupLoop_sort: "dedupLoop (sort ids) 0 0 = sorted_list_of_set (set ids)"
proof -
  have "dedupLoop (sort ids) 0 0 = remdups_adj (sort ids)"
    by (rule dedupLoop_invariant) simp_all
  moreover have "sorted_list_of_set (set (remdups_adj (sort ids))) = remdups_adj (sort ids)"
    by (rule sorted_list_of_set.idem_if_sorted_distinct)
      (simp_all add: sorted_remdups_adj distinct_remdups_adj_sorted)
  ultimately show ?thesis by simp
qed

section \<open>Reading back what was published\<close>

lemma strictly_ascending_iff: "strictly_ascending xs \<longleftrightarrow> sorted_wrt (<) xs"
  by (induction xs rule: strictly_ascending.induct) (auto simp: not_le intro: less_trans)

text \<open>The document \<open>writeManifest\<close> publishes.\<close>

definition manifest_doc :: "u32 list \<Rightarrow> u32 \<Rightarrow> manifestV1" where
  "manifest_doc ids active = \<lparr>mf_version = manifestVersion, mf_segments = sorted_list_of_set (set ids), mf_active = Some active\<rparr>"

lemma readManifest_doc:
  "active \<in> set ids \<Longrightarrow>
   readManifest False (Some (Some (manifest_doc ids active))) = Ok (sorted_list_of_set (set ids), active)"
  by (simp add: readManifest_def manifest_doc_def strictly_ascending_iff)

lemma writeManifest_cases:
  "writeManifest ft mf ids active =
     (if active \<notin> set ids then (Err (ManifestActiveNotListed active), mf)
      else if fault_before_rename ft then (Err ManifestIO, mf)
      else (if fault_after_rename ft then Err ErrManifestPublishedButUncertain else Ok (),
            Some (Some (manifest_doc ids active))))"
  by (simp add: writeManifest_def dedupLoop_sort syncDir_def manifest_doc_def)

lemma writeManifest_Ok:
  assumes "writeManifest ft mf ids active = (Ok u, mf')"
  shows "mf' = Some (Some (manifest_doc ids active))" "active \<in> set ids"
  using assms by (auto simp: writeManifest_cases split: if_splits)

lemma writeManifest_total:
  "active \<in> set ids \<Longrightarrow> writeManifest NoFault mf ids active = (Ok (), Some (Some (manifest_doc ids active)))"
  by (simp add: writeManifest_cases fault_before_rename_def fault_after_rename_def)

text \<open>
  C36. The manifest is replaced atomically. Whatever step of the publication fails, the file
  afterwards either is the old one, untouched, or reads back as exactly the live set in
  ascending order without duplicates and with the active segment that was passed; it is
  the new one exactly when the call succeeds or reports that durability is uncertain. The
  sort-and-dedup loop may run over its own input array.
\<close>

theorem writeManifest_atomic:
  "case writeManifest ft mf ids active of (r, mf') \<Rightarrow>
     if r = Ok () \<or> r = Err ErrManifestPublishedButUncertain
     then readManifest False mf' = Ok (sorted_list_of_set (set ids), active)
     else mf' = mf"
  by (simp add: writeManifest_cases readManifest_doc)

text \<open>
  C37. The live set is decided by the manifest alone: with a readable manifest, reconciling
  returns its segments and active segment when every one of them has a file, fails naming
  a segment whose file is missing otherwise, and never adopts a file the manifest does not
  list.
\<close>

theorem reconcileManifest_manifest:
  assumes "readManifest False mf = Ok (segs, a)"
  shows "(set segs \<subseteq> set onDisk \<longrightarrow> reconcileManifest False mf onDisk = Ok (segs, a, False)) \<and>
    (\<not> set segs \<subseteq> set onDisk \<longrightarrow>
      (\<exists>i \<in> set segs - set onDisk. reconcileManifest False mf onDisk = Err (ManifestSegmentMissing i)))"
proof (cases "find (\<lambda>i. i \<notin> set onDisk) segs")
  case None
  then have "set segs \<subseteq> set onDisk" by (auto simp: find_None_iff)
  with None assms show ?thesis by (simp add: reconcileManifest_def)
next
  case (Some i)
  then have "i \<in> set segs - set onDisk" by (auto simp: find_Some_iff)
  with Some assms show ?thesis by (auto simp: reconcileManifest_def)
qed

theorem reconcileManifest_manifest_witness:
  "reconcileManifest False (Some (Some (manifest_doc [2, 0] 2))) [0, 1, 2] = Ok ([0, 2], 2, False) \<and>
   reconcileManifest False (Some (Some (manifest_doc [2, 0] 2))) [0, 1] = Err (ManifestSegmentMissing 2)"
proof -
  have r: "readManifest False (Some (Some (manifest_doc [2, 0] 2))) = Ok ([0, 2], 2)"
    using readManifest_doc [of 2 "[2, 0]"] by simp
  show ?thesis
    using reconcileManifest_manifest [OF r, of "[0, 1, 2]"] reconcileManifest_manifest [OF r, of "[0, 1]"]
    by auto
qed

end
