(* ===== verification/Recovery.thy ===== *)
theory Recovery
  imports Log Segment Manifest
begin

text \<open>
  Rebuilding the index, \<open>internal/engine/recovery.go\<close>: replaying a hint sidecar or scanning
  a segment record by record, with torn-tail truncation for the active segment only. The
  state of a replay is the index and the largest time stamp seen (\<open>db.keydir\<close>,
  \<open>db.lastTstamp\<close>). Read failures of the operating system are an input: \<open>rf off\<close> says that
  reading at offset \<open>off\<close> fails.
\<close>

section \<open>Replaying one record\<close>

type_synonym replay = "keydir \<times> int"

text \<open>The tombstone rule shared by the three replay paths.\<close>

definition applyTombstone :: "bytes \<Rightarrow> int \<Rightarrow> keydir \<Rightarrow> keydir" where
  "applyTombstone key ts k =
     (case keydir_get k key of
        None \<Rightarrow> keydir_delete k key
      | Some existing \<Rightarrow> if ts \<ge> ke_tstamp existing then keydir_delete k key else k)"

definition applyRecordOnRecovery :: "u32 \<Rightarrow> int \<Rightarrow> log_record \<Rightarrow> keydir \<Rightarrow> keydir" where
  "applyRecordOnRecovery fileID recordStart rec k =
     (if rec_flag rec = recordFlagPut then
        keydir_putIfNewer k (rec_key rec)
          \<lparr>ke_fileID = fileID, ke_valuePos = recordStart + int (recordHeaderSize + length (rec_key rec)),
           ke_valueLen = word_of_nat (length (rec_value rec)), ke_tstamp = rec_tstamp rec\<rparr>
      else if rec_flag rec = recordFlagTombstone then applyTombstone (rec_key rec) (rec_tstamp rec) k
      else k)"

definition applyBatchEntryOnRecovery :: "u32 \<Rightarrow> int \<Rightarrow> log_record \<Rightarrow> keydir \<Rightarrow> keydir" where
  "applyBatchEntryOnRecovery fileID valuePos rec k =
     (if rec_flag rec = recordFlagPut then
        keydir_putIfNewer k (rec_key rec)
          \<lparr>ke_fileID = fileID, ke_valuePos = valuePos,
           ke_valueLen = word_of_nat (length (rec_value rec)), ke_tstamp = rec_tstamp rec\<rparr>
      else if rec_flag rec = recordFlagTombstone then applyTombstone (rec_key rec) (rec_tstamp rec) k
      else k)"

definition bumpTstamp :: "int \<Rightarrow> int \<Rightarrow> int" where
  "bumpTstamp ts lastTstamp = (if ts > lastTstamp then ts else lastTstamp)"

section \<open>Scanning a segment\<close>

datatype recovery_error =
    SealedPartialHeader nat
  | ReadHeaderFailed nat
  | SealedBodyPastEOF nat
  | MidUnknownFlag nat byte
  | MidBatchKeyLen nat
  | MidBatchTooShort nat
  | MidBatchTooLarge nat
  | MidBadKeyLen nat
  | MidBadValLen nat
  | ReadBodyFailed nat
  | MidBadCRC nat
  | MidBadBatch nat record_error
  | SealedTrailingBytes
  | TruncateFailed

text \<open>Step 4 of the loop: the header checks on a record that lies within the file.\<close>

definition midHeaderError :: "nat \<Rightarrow> byte \<Rightarrow> u32 \<Rightarrow> u32 \<Rightarrow> recovery_error option" where
  "midHeaderError recordStart flag keyLen valLen =
     (if flag \<noteq> recordFlagPut \<and> flag \<noteq> recordFlagTombstone \<and> flag \<noteq> recordFlagBatch
      then Some (MidUnknownFlag recordStart flag)
      else if flag = recordFlagBatch then
        (if keyLen \<noteq> 0 then Some (MidBatchKeyLen recordStart)
         else if unat valLen < batchCountSize then Some (MidBatchTooShort recordStart)
         else if unat valLen > maxBatchBodyLen then Some (MidBatchTooLarge recordStart)
         else None)
      else if keyLen = 0 \<or> unat keyLen > maxKeyLen then Some (MidBadKeyLen recordStart)
      else if unat valLen > maxValLen then Some (MidBadValLen recordStart)
      else None)"

text \<open>Step 5: apply a valid record, single or batch, to the replay state.\<close>

definition applyScanned ::
  "u32 \<Rightarrow> nat \<Rightarrow> int \<Rightarrow> byte \<Rightarrow> nat \<Rightarrow> bytes \<Rightarrow> replay \<Rightarrow> recovery_error + replay" where
  "applyScanned sid recordStart tstamp flag keyLen body s =
     (case s of (k, lastTstamp) \<Rightarrow>
        if flag = recordFlagBatch then
          (case decodeBatchBody body (int recordStart) of
             Inl e \<Rightarrow> Err (MidBadBatch recordStart e)
           | Inr entries \<Rightarrow>
               Ok (foldl (\<lambda>k e. applyBatchEntryOnRecovery sid (bd_valuePos e)
                      \<lparr>rec_tstamp = tstamp, rec_flag = bd_flag e, rec_key = bd_key e, rec_value = bd_value e\<rparr> k)
                     k entries, bumpTstamp tstamp lastTstamp))
        else
          Ok (applyRecordOnRecovery sid (int recordStart)
                \<lparr>rec_tstamp = tstamp, rec_flag = flag, rec_key = take keyLen body,
                 rec_value = (if flag = recordFlagPut then drop keyLen body else [])\<rparr> k,
              bumpTstamp tstamp lastTstamp))"

text \<open>The loop of \<open>recoverSegment\<close>; \<open>data\<close> is the file up to the segment's size.\<close>

function scanSegment ::
  "(nat \<Rightarrow> bool) \<Rightarrow> u32 \<Rightarrow> bool \<Rightarrow> bytes \<Rightarrow> nat \<Rightarrow> replay \<Rightarrow> recovery_error + nat \<times> replay" where
  "scanSegment rf sid allowTornTail data recordStart s =
     (if recordStart \<ge> length data then Ok (recordStart, s)
      else if rf recordStart then Err (ReadHeaderFailed recordStart)
      else if length data - recordStart < recordHeaderSize then
        (if \<not> allowTornTail then Err (SealedPartialHeader recordStart) else Ok (recordStart, s))
      else
        let hdr = slice recordStart (recordStart + recordHeaderSize) data;
            flag = hdr_flag hdr; keyLen = hdr_keyLen hdr; valLen = hdr_valLen hdr;
            bodyLen = unat keyLen + unat valLen;
            bodyStart = recordStart + recordHeaderSize in
        if bodyStart + bodyLen > length data then
          (if \<not> allowTornTail then Err (SealedBodyPastEOF recordStart) else Ok (recordStart, s))
        else (case midHeaderError recordStart flag keyLen valLen of
          Some e \<Rightarrow> Err e
        | None \<Rightarrow>
            if rf bodyStart then Err (ReadBodyFailed recordStart)
            else
              let body = slice bodyStart (bodyStart + bodyLen) data in
              if crc_sum (crc_write (crc_write crc_init (drop 4 hdr)) body) \<noteq> hdr_crc hdr
              then Err (MidBadCRC recordStart)
              else (case applyScanned sid recordStart (hdr_tstamp hdr) flag (unat keyLen) body s of
                Inl e \<Rightarrow> Err e
              | Inr s' \<Rightarrow> scanSegment rf sid allowTornTail data (bodyStart + bodyLen) s')))"
  by pat_completeness auto
termination
  by (relation "measure (\<lambda>(rf, sid, torn, data, off, s). length data - off)")
    (auto simp: recordHeaderSize_def)

declare scanSegment.simps [simp del]

text \<open>\<open>recoverSegment\<close>: the scan, then truncation of a torn tail.\<close>

definition recoverSegment ::
  "(nat \<Rightarrow> bool) \<Rightarrow> bool \<Rightarrow> osfile \<Rightarrow> segment \<Rightarrow> bool \<Rightarrow> replay \<Rightarrow>
   recovery_error + osfile \<times> segment \<times> replay" where
  "recoverSegment rf truncFault f seg allowTornTail s =
     (case scanSegment rf (seg_id seg) allowTornTail (take (seg_size seg) (f_data f)) 0 s of
        Inl e \<Rightarrow> Err e
      | Inr (lastGoodOffset, s') \<Rightarrow>
          if lastGoodOffset < seg_size seg then
            (if \<not> allowTornTail then Err SealedTrailingBytes
             else if truncFault then Err TruncateFailed
             else Ok (f\<lparr>f_data := take lastGoodOffset (f_data f), f_synced := min lastGoodOffset (f_synced f)\<rparr>,
                      seg\<lparr>seg_size := lastGoodOffset\<rparr>, s'))
          else Ok (f, seg, s'))"

section \<open>Replaying a hint\<close>

text \<open>The bounds check on one hint entry, phrased as in the code to avoid overflow.\<close>

definition hintInBounds :: "int \<Rightarrow> hintEntry \<Rightarrow> bool" where
  "hintInBounds segSize e \<longleftrightarrow> h_valuePos e = hintValuePosTombstone \<or>
     \<not> (h_valuePos e < 0 \<or> h_valuePos e > segSize \<or> int (unat (h_valueLen e)) > segSize - h_valuePos e)"

definition applyHintEntry :: "u32 \<Rightarrow> replay \<Rightarrow> hintEntry \<Rightarrow> replay" where
  "applyHintEntry sid s e =
     (case s of (k, lastTstamp) \<Rightarrow>
       (if h_valuePos e = hintValuePosTombstone then applyTombstone (h_key e) (h_tstamp e) k
        else keydir_putIfNewer k (h_key e)
          \<lparr>ke_fileID = sid, ke_valuePos = h_valuePos e, ke_valueLen = h_valueLen e, ke_tstamp = h_tstamp e\<rparr>,
        bumpTstamp (h_tstamp e) lastTstamp))"

datatype hint_replay = HintUsed replay | HintAbsent | HintUnusable

definition tryRecoverFromHint :: "bool \<Rightarrow> (u32, bytes) gomap \<Rightarrow> segment \<Rightarrow> replay \<Rightarrow> hint_replay" where
  "tryRecoverFromHint ioFault hints seg s =
     (case readHintFile ioFault hints (seg_id seg) of
        Inl ErrHintMissing \<Rightarrow> HintAbsent
      | Inl _ \<Rightarrow> HintUnusable
      | Inr entries \<Rightarrow>
          if \<forall>e \<in> set entries. hintInBounds (int (seg_size seg)) e
          then HintUsed (foldl (applyHintEntry (seg_id seg)) s entries)
          else HintUnusable)"

section \<open>Replaying every segment\<close>

text \<open>Faults of a recovery run: hint reads, data reads and truncation, per segment.\<close>

record recover_env =
  rv_hint :: "u32 \<Rightarrow> bool"
  rv_read :: "u32 \<Rightarrow> nat \<Rightarrow> bool"
  rv_trunc :: bool

definition ok_recover_env :: recover_env where
  "ok_recover_env = \<lparr>rv_hint = \<lambda>_. False, rv_read = \<lambda>_ _. False, rv_trunc = False\<rparr>"

text \<open>The body of the loop over segments, for one segment.\<close>

definition recoverOne ::
  "recover_env \<Rightarrow> (u32, bytes) gomap \<Rightarrow> osfile \<Rightarrow> segment \<Rightarrow> bool \<Rightarrow> replay \<Rightarrow>
   recovery_error + osfile \<times> segment \<times> replay" where
  "recoverOne env hints f seg isActive s =
     (case (if isActive then HintAbsent else tryRecoverFromHint (rv_hint env (seg_id seg)) hints seg s) of
        HintUsed s' \<Rightarrow> Ok (f, seg, s')
      | _ \<Rightarrow> recoverSegment (rv_read env (seg_id seg)) (rv_trunc env) f seg isActive s)"

fun recoverLoop ::
  "recover_env \<Rightarrow> (u32, bytes) gomap \<Rightarrow> (u32 \<Rightarrow> bool) \<Rightarrow> u32 list \<Rightarrow>
   (u32, osfile) gomap \<Rightarrow> (u32, segment) gomap \<Rightarrow> replay \<Rightarrow>
   (recovery_error + replay) \<times> (u32, osfile) gomap \<times> (u32, segment) gomap" where
  "recoverLoop env hints isActive [] files segs s = (Ok s, files, segs)"
| "recoverLoop env hints isActive (i # ids) files segs s =
     (case (map_get files i, map_get segs i) of
        (Some f, Some seg) \<Rightarrow>
          (case recoverOne env hints f seg (isActive i) s of
             Inl e \<Rightarrow> (Err e, files, segs)
           | Inr (f', seg', s') \<Rightarrow>
               recoverLoop env hints isActive ids (map_set files i f') (map_set segs i seg') s')
      | _ \<Rightarrow> recoverLoop env hints isActive ids files segs s)"

text \<open>
  \<open>recover\<close>: segments in ascending id order. Every id comes from \<open>db.segments\<close>, whose files
  are open, so the last case of the loop is never taken. The files come back on every path:
  a torn tail stays truncated even if a later segment fails.
\<close>

definition recover ::
  "recover_env \<Rightarrow> (u32, bytes) gomap \<Rightarrow> u32 option \<Rightarrow> (u32, osfile) gomap \<Rightarrow> (u32, segment) gomap \<Rightarrow>
   replay \<Rightarrow> (recovery_error + replay) \<times> (u32, osfile) gomap \<times> (u32, segment) gomap" where
  "recover env hints active files segs s =
     recoverLoop env hints (\<lambda>i. active = Some i) (sort (map_keys segs)) files segs s"

section \<open>One step of the scan\<close>

lemma midHeaderError_None: "midHeaderError off fl kl vl = None \<longleftrightarrow> check_header fl kl vl = None"
  by (auto simp: midHeaderError_def check_header_def)

abbreviation no_fault :: "nat \<Rightarrow> bool" where
  "no_fault \<equiv> \<lambda>_. False"

text \<open>
  The scan of a record that lies within the file and passes every check: the record's
  effect, then the scan of what follows.
\<close>

lemma scanSegment_frame:
  assumes "drop off data = frame_bytes ts fl kl vl body @ rest" "check_header fl kl vl = None"
    and "length body = unat (kl + vl)" "int64_range ts"
  shows "scanSegment no_fault sid torn data off s =
    (case applyScanned sid off ts fl (unat kl) body s of
       Inl e \<Rightarrow> Err e
     | Inr s' \<Rightarrow> scanSegment no_fault sid torn data (off + recordHeaderSize + length body) s')"
proof -
  let ?hdr = "LE_PutUint32 (crc32c (header_tail ts fl kl vl @ body)) @ header_tail ts fl kl vl"
  have bl: "length body = unat kl + unat vl"
    using check_header_body_bound [OF assms(2)] assms(3) by simp
  have "length (drop off data) = recordHeaderSize + length body + length rest"
    using assms(1) by simp
  then have len: "off < length data" "\<not> length data \<le> off" "\<not> length data - off < recordHeaderSize"
    "\<not> off + recordHeaderSize + (unat kl + unat vl) > length data"
    using bl by (auto simp: recordHeaderSize_def)
  have hdr: "slice off (off + recordHeaderSize) data = ?hdr"
    using assms(1) take_header_frame [of ts fl kl vl body rest] by (simp add: slice_def recordHeaderSize_def)
  have "drop (off + recordHeaderSize) data = body @ rest"
    using assms(1) drop_header_frame [of ts fl kl vl body rest]
    by (metis add.commute drop_drop recordHeaderSize_def)
  then have bd: "slice (off + recordHeaderSize) (off + recordHeaderSize + (unat kl + unat vl)) data = body"
    using bl by (simp add: slice_def)
  have "crc_sum (crc_write (crc_write crc_init (drop 4 ?hdr)) body) = hdr_crc ?hdr"
    by (simp only: crc_stream hdr_fields) simp
  moreover have "hdr_tstamp ?hdr = ts" using assms(4) by (simp only: hdr_fields int64_of_u64_inverse)
  moreover have "midHeaderError off fl kl vl = None" using assms(2) by (simp add: midHeaderError_None)
  ultimately show ?thesis
    using bl
    by (subst scanSegment.simps)
      (simp only: len hdr bd Let_def hdr_fields if_False option.case simp_thms)
qed

text \<open>A record that does not read back, but whose claimed length fits, stops the scan with an error.\<close>

lemma scanSegment_reject:
  assumes "\<not> is_ok (readRecord (drop off data))" "recordHeaderSize \<le> length (drop off data)"
    and "recordHeaderSize + (unat (hdr_keyLen (take 21 (drop off data))) + unat (hdr_valLen (take 21 (drop off data))))
      \<le> length (drop off data)"
  shows "\<not> is_ok (scanSegment no_fault sid torn data off s)"
proof -
  let ?src = "drop off data"
  let ?hdr = "take 21 ?src"
  let ?fl = "hdr_flag ?hdr" and ?kl = "hdr_keyLen ?hdr" and ?vl = "hdr_valLen ?hdr"
  let ?body = "take (unat ?kl + unat ?vl) (drop 21 ?src)"
  have nn: "?src \<noteq> []" using assms(2) by (auto simp: recordHeaderSize_def)
  have len: "\<not> length data \<le> off" "\<not> length data - off < recordHeaderSize"
    "\<not> off + recordHeaderSize + (unat ?kl + unat ?vl) > length data"
    using assms(2,3) nn by auto
  have sl: "slice off (off + recordHeaderSize) data = ?hdr"
    "slice (off + recordHeaderSize) (off + recordHeaderSize + (unat ?kl + unat ?vl)) data = ?body"
    by (simp_all add: slice_def recordHeaderSize_def add.commute)
  show ?thesis
  proof (cases "check_header ?fl ?kl ?vl")
    case None
    note b = check_header_body_bound [OF None]
    have "readFull recordHeaderSize ?src = Ok (?hdr, drop 21 ?src)"
      using assms(2) nn by (simp add: readFull_def recordHeaderSize_def)
    moreover have "readFull (unat (?kl + ?vl)) (drop 21 ?src) = Ok (?body, drop (unat ?kl + unat ?vl) (drop 21 ?src))"
      using assms(3) b by (auto simp: readFull_def recordHeaderSize_def)
    ultimately have "crc_sum (crc_write (crc_write crc_init (drop 4 ?hdr)) ?body) \<noteq> hdr_crc ?hdr"
      using assms(1) None by (simp add: readRecord_def Let_def split: if_splits)
    moreover have "midHeaderError off ?fl ?kl ?vl = None" using None by (simp add: midHeaderError_None)
    ultimately show ?thesis
      by (subst scanSegment.simps) (simp only: len sl Let_def if_False option.case simp_thms if_True is_ok_simps)
  next
    case (Some e)
    then obtain e' where "midHeaderError off ?fl ?kl ?vl = Some e'"
      using midHeaderError_None by (metis not_None_eq)
    then show ?thesis
      by (subst scanSegment.simps) (simp only: len sl Let_def if_False option.case is_ok_simps simp_thms)
  qed
qed

section \<open>Replaying a log\<close>

text \<open>
  The effect of a replay in terms of the log: every index entry of an item is put if newer,
  every deletion applied unless the index holds something newer.
\<close>

definition recover_update :: "int \<Rightarrow> keydir \<Rightarrow> bytes \<times> keydirEntry option \<Rightarrow> keydir" where
  "recover_update ts k u =
     (case snd u of None \<Rightarrow> applyTombstone (fst u) ts k | Some e \<Rightarrow> keydir_putIfNewer k (fst u) e)"

definition recover_item :: "u32 \<Rightarrow> nat \<Rightarrow> log_item \<Rightarrow> replay \<Rightarrow> replay" where
  "recover_item sid off it s =
     (foldl (recover_update (item_tstamp it)) (fst s) (item_entries sid off it), bumpTstamp (item_tstamp it) (snd s))"

abbreviation recover_items :: "u32 \<Rightarrow> nat \<Rightarrow> log_item list \<Rightarrow> replay \<Rightarrow> replay" where
  "recover_items sid \<equiv> fold_at item_size (recover_item sid)"

lemma scan_single:
  assumes "valid_record r"
  shows "scanSegment no_fault sid torn (pre @ record_bytes r @ post) (length pre) s =
    scanSegment no_fault sid torn (pre @ record_bytes r @ post) (length pre + encodedSize r)
      (recover_item sid (length pre) (Single r) s)"
proof -
  let ?k = "word_of_nat (length (rec_key r)) :: u32" and ?v = "word_of_nat (length (rec_value r)) :: u32"
  have u: "unat ?k = length (rec_key r)" and t: "int64_range (rec_tstamp r)"
    using assms by (auto simp: valid_record_def unat_len_key)
  have "applyScanned sid (length pre) (rec_tstamp r) (rec_flag r) (unat ?k) (rec_key r @ rec_value r) s =
      Ok (recover_item sid (length pre) (Single r) s)"
    using assms unfolding u
    by (auto simp: applyScanned_def recover_item_def recover_update_def applyRecordOnRecovery_def put_entry_def
        valid_record_def record_flags split: prod.splits)
  moreover have "drop (length pre) (pre @ record_bytes r @ post) =
      frame_bytes (rec_tstamp r) (rec_flag r) ?k ?v (rec_key r @ rec_value r) @ post"
    by (simp add: record_bytes_def)
  ultimately show ?thesis
    using scanSegment_frame [OF _ valid_record_header [OF assms] t, of "length pre" "pre @ record_bytes r @ post" post sid torn s]
    by (simp add: encodedSize_def add.assoc)
qed

lemma scan_batch:
  assumes "valid_batch ts es"
  shows "scanSegment no_fault sid torn (pre @ batch_bytes ts es @ post) (length pre) s =
    scanSegment no_fault sid torn (pre @ batch_bytes ts es @ post) (length pre + length (batch_bytes ts es))
      (recover_item sid (length pre) (Batch ts es) s)"
proof -
  have l: "length (batch_body es) \<le> maxBatchBodyLen" and t: "int64_range ts"
    using assms by (auto simp: valid_batch_def)
  let ?ds = "decoded_from (int (length pre)) batchCountSize es"
  have flags: "bd_flag d = recordFlagPut \<or> bd_flag d = recordFlagTombstone" if "d \<in> set ?ds" for d
  proof -
    from that obtain i where "i < length ?ds" "d = ?ds ! i" by (auto simp: in_set_conv_nth)
    then show ?thesis
      using decoded_from_aligned [of "int (length pre)" batchCountSize es]
      by (auto simp: list_all2_conv_all_nth entry_flag_def)
  qed
  have "foldl (\<lambda>k e. applyBatchEntryOnRecovery sid (bd_valuePos e)
        \<lparr>rec_tstamp = ts, rec_flag = bd_flag e, rec_key = bd_key e, rec_value = bd_value e\<rparr> k) (fst s) ?ds =
      foldl (recover_update ts) (fst s) (item_entries sid (length pre) (Batch ts es))"
    unfolding item_entries.simps foldl_map
    by (rule foldl_cong) (use flags in \<open>auto simp: applyBatchEntryOnRecovery_def recover_update_def put_entry_def record_flags\<close>)
  moreover have "decodeBatchBody (batch_body es) (int (length pre)) = Ok ?ds"
    using assms by (intro decodeBatchBody_batch_body) (auto simp: valid_batch_def)
  ultimately have "applyScanned sid (length pre) ts recordFlagBatch (unat 0) (batch_body es) s =
      Ok (recover_item sid (length pre) (Batch ts es) s)"
    by (auto simp: applyScanned_def recover_item_def split: prod.splits)
  moreover have "drop (length pre) (pre @ batch_bytes ts es @ post) =
      frame_bytes ts recordFlagBatch 0 (word_of_nat (length (batch_body es))) (batch_body es) @ post"
    by (simp add: batch_bytes_def)
  ultimately show ?thesis
    using scanSegment_frame [OF _ check_header_batch(1) [OF l] check_header_batch(2) [OF l, symmetric] t]
    by (simp add: add.assoc)
qed

interpretation rs: log_scan item_bytes valid_item "recover_item sid" "scanSegment no_fault sid torn"
  for sid torn
proof
  fix i pre post s
  assume "valid_item i"
  then show "scanSegment no_fault sid torn (pre @ item_bytes i @ post) (length pre) s =
    scanSegment no_fault sid torn (pre @ item_bytes i @ post) (length pre + length (item_bytes i))
      (recover_item sid (length pre) i s)"
    by (cases i) (simp_all add: scan_single scan_batch del: length_batch_bytes)
qed

lemma scan_log:
  assumes "\<forall>i \<in> set is. valid_item i"
  shows "scanSegment no_fault sid torn (log_bytes is @ post) 0 s =
    scanSegment no_fault sid torn (log_bytes is @ post) (length (log_bytes is)) (recover_items sid 0 is s)"
  using rs.scan_whole [OF assms] unfolding log_bytes_def .

lemma scan_log_whole:
  assumes "\<forall>i \<in> set is. valid_item i"
  shows "scanSegment no_fault sid torn (log_bytes is) 0 s = Ok (length (log_bytes is), recover_items sid 0 is s)"
  using scan_log [OF assms, of sid torn "[]" s] by (simp add: scanSegment.simps)

section \<open>Torn tails\<close>

text \<open>The frame of an item, and that it passes the reader's checks.\<close>

lemma item_frame:
  assumes "valid_item it"
  obtains ts fl kl vl body where "item_bytes it = frame_bytes ts fl kl vl body" "check_header fl kl vl = None"
    "length body = unat (kl + vl)" "int64_range ts"
proof (cases it)
  case (Single r)
  with assms have v: "valid_record r" by simp
  then have "int64_range (rec_tstamp r)" by (simp add: valid_record_def)
  with that Single valid_record_header [OF v] show ?thesis by (auto simp: record_bytes_def)
next
  case (Batch ts es)
  with assms have l: "length (batch_body es) \<le> maxBatchBodyLen" and t: "int64_range ts"
    by (auto simp: valid_batch_def)
  show ?thesis
    by (rule that [OF _ check_header_batch(1) [OF l] check_header_batch(2) [OF l, symmetric] t])
      (simp add: Batch batch_bytes_def)
qed

lemma item_size_pos: "0 < item_size it"
  by (cases it) (simp_all add: encodedSize_def recordHeaderSize_def)

text \<open>A strict prefix of an item at the end of the file ends the scan where it starts.\<close>

lemma scan_torn:
  assumes "valid_item it" "m < item_size it" "data = pre @ take m (item_bytes it)"
  shows "scanSegment no_fault sid torn data (length pre) s =
    (if torn \<or> m = 0 then Ok (length pre, s)
     else if m < recordHeaderSize then Err (SealedPartialHeader (length pre))
     else Err (SealedBodyPastEOF (length pre)))"
proof -
  obtain ts fl kl vl body where f: "item_bytes it = frame_bytes ts fl kl vl body" "check_header fl kl vl = None"
    "length body = unat (kl + vl)" "int64_range ts"
    by (rule item_frame [OF assms(1)])
  let ?hdr = "LE_PutUint32 (crc32c (header_tail ts fl kl vl @ body)) @ header_tail ts fl kl vl"
  have len: "length data = length pre + m" using assms(2,3) by simp
  show ?thesis
  proof (cases "m < recordHeaderSize")
    case True
    then show ?thesis using len by (subst scanSegment.simps) auto
  next
    case False
    have "m < recordHeaderSize + (unat kl + unat vl)"
      using assms(2) f(1,3) check_header_body_bound [OF f(2)] by simp
    then have past: "length data < length pre + recordHeaderSize + (unat kl + unat vl)" using len by simp
    have hdr: "slice (length pre) (length pre + recordHeaderSize) data = ?hdr"
      using False take_header_frame [of ts fl kl vl body "[]"] assms(3) f(1)
      by (simp add: slice_def recordHeaderSize_def)
    have "\<not> length data \<le> length pre" "\<not> length data - length pre < recordHeaderSize" "m \<noteq> 0"
      using False len by (auto simp: recordHeaderSize_def)
    then show ?thesis
      using past False
      by (subst scanSegment.simps) (simp only: hdr Let_def hdr_fields if_False if_True simp_thms, simp)
  qed
qed

section \<open>Recovery of one segment\<close>

text \<open>
  C10. Recovery of the active segment after a crash in the middle of a write: the whole
  records before the torn one are replayed in order, the torn one leaves no trace, be it
  cut in the header or in the body and be it a batch or a single record, and the file ends
  up exactly at the last whole record, ready for appends.
\<close>

theorem recoverSegment_torn_tail:
  assumes "\<forall>i \<in> set is. valid_item i" "valid_item it" "m < item_size it"
    and "f_data f = log_bytes is @ take m (item_bytes it)" "seg_size seg = length (f_data f)"
  shows "\<exists>f' seg'. recoverSegment no_fault False f seg True s =
      Ok (f', seg', recover_items (seg_id seg) 0 is s) \<and>
    f_data f' = log_bytes is \<and> seg_size seg' = length (log_bytes is) \<and> seg_id seg' = seg_id seg"
proof -
  have "scanSegment no_fault (seg_id seg) True (f_data f) 0 s =
      Ok (length (log_bytes is), recover_items (seg_id seg) 0 is s)"
    using scan_log [OF assms(1)] scan_torn [OF assms(2,3) assms(4)] assms(4) by simp
  then show ?thesis using assms(3-5) by (simp add: recoverSegment_def)
qed

theorem recoverSegment_torn_tail_witness:
  "\<exists>f' seg'. recoverSegment no_fault False
      \<lparr>f_data = log_bytes [Single \<lparr>rec_tstamp = 1, rec_flag = recordFlagPut, rec_key = [7], rec_value = [8]\<rparr>] @
         take 30 (item_bytes (Batch 2 [\<lparr>be_key = [7], be_value = [], be_delete = True\<rparr>])), f_synced = 0\<rparr>
      \<lparr>seg_id = 4, seg_size = 53, seg_bw = None, seg_werr = False\<rparr> True ([], 0) =
      Ok (f', seg', recover_items 4 0 [Single \<lparr>rec_tstamp = 1, rec_flag = recordFlagPut, rec_key = [7], rec_value = [8]\<rparr>] ([], 0)) \<and>
    f_data f' = log_bytes [Single \<lparr>rec_tstamp = 1, rec_flag = recordFlagPut, rec_key = [7], rec_value = [8]\<rparr>]"
  using recoverSegment_torn_tail [of "[Single \<lparr>rec_tstamp = 1, rec_flag = recordFlagPut, rec_key = [7], rec_value = [8]\<rparr>]"
      "Batch 2 [\<lparr>be_key = [7], be_value = [], be_delete = True\<rparr>]" 30
      "\<lparr>f_data = log_bytes [Single \<lparr>rec_tstamp = 1, rec_flag = recordFlagPut, rec_key = [7], rec_value = [8]\<rparr>] @
         take 30 (item_bytes (Batch 2 [\<lparr>be_key = [7], be_value = [], be_delete = True\<rparr>])), f_synced = 0\<rparr>"
      "\<lparr>seg_id = 4, seg_size = 53, seg_bw = None, seg_werr = False\<rparr>" "([], 0)"]
  by (auto simp: valid_record_def valid_batch_def valid_entry_def entry_value_def int64_range_def record_consts
      batch_body_def encodedSize_def)

text \<open>
  C17. A sealed segment is never truncated: if it ends in a torn record, recovery fails and
  says where; if it is whole, its records are replayed in order and the file is untouched.
\<close>

theorem recoverSegment_sealed:
  assumes "\<forall>i \<in> set is. valid_item i" "valid_item it" "m < item_size it"
    and "f_data f = log_bytes is @ take m (item_bytes it)" "seg_size seg = length (f_data f)"
  shows "recoverSegment no_fault False f seg False s =
    (if m = 0 then Ok (f, seg, recover_items (seg_id seg) 0 is s)
     else if m < recordHeaderSize then Err (SealedPartialHeader (length (log_bytes is)))
     else Err (SealedBodyPastEOF (length (log_bytes is))))"
proof -
  have "scanSegment no_fault (seg_id seg) False (f_data f) 0 s =
      (if m = 0 then Ok (length (log_bytes is), recover_items (seg_id seg) 0 is s)
       else if m < recordHeaderSize then Err (SealedPartialHeader (length (log_bytes is)))
       else Err (SealedBodyPastEOF (length (log_bytes is))))"
    using scan_log [OF assms(1)] scan_torn [OF assms(2,3) assms(4)] assms(4) by simp
  moreover have "m = 0 \<Longrightarrow> seg_size seg = length (log_bytes is)" using assms(4,5) by simp
  ultimately show ?thesis using assms(5) by (auto simp: recoverSegment_def)
qed

theorem recoverSegment_sealed_witness:
  "recoverSegment no_fault False
      \<lparr>f_data = take 22 (item_bytes (Single \<lparr>rec_tstamp = 1, rec_flag = recordFlagPut, rec_key = [7], rec_value = [8]\<rparr>)), f_synced = 0\<rparr>
      \<lparr>seg_id = 4, seg_size = 22, seg_bw = None, seg_werr = False\<rparr> False ([], 0) = Err (SealedBodyPastEOF 0)"
  using recoverSegment_sealed [of "[]" "Single \<lparr>rec_tstamp = 1, rec_flag = recordFlagPut, rec_key = [7], rec_value = [8]\<rparr>" 22
      "\<lparr>f_data = take 22 (item_bytes (Single \<lparr>rec_tstamp = 1, rec_flag = recordFlagPut, rec_key = [7], rec_value = [8]\<rparr>)), f_synced = 0\<rparr>"
      "\<lparr>seg_id = 4, seg_size = 22, seg_bw = None, seg_werr = False\<rparr>" "([], 0)"]
  by (simp add: valid_record_def int64_range_def record_consts encodedSize_def)

text \<open>A read that fails only turns a scan into an error.\<close>

lemma scan_without_fault: "scanSegment rf sid torn data off s = Ok x \<Longrightarrow> scanSegment no_fault sid torn data off s = Ok x"
proof (induction rf sid torn data off s rule: scanSegment.induct)
  case (1 rf sid torn data off s)
  show ?case using 1(2)
    by (subst (asm) scanSegment.simps, subst scanSegment.simps)
      (auto simp: Let_def dest: 1(1) [OF _ _ _ refl refl refl refl refl refl, rotated -1] split: if_splits option.splits sum.splits)
qed

text \<open>
  Corruption is never dropped silently by the scan: one changed byte of any record, outside its length fields, and the
  scan refuses the segment, whether it may end in a torn record or not, whatever records follow and whatever reads fail.
\<close>

lemma recoverSegment_refuses:
  assumes "\<forall>i \<in> set is. valid_item i" "valid_item it"
    and "j < item_size it" "j < 13 \<or> 21 \<le> j" "b \<noteq> item_bytes it ! j"
    and "f_data f = log_bytes is @ (item_bytes it)[j := b] @ post" "seg_size seg = length (f_data f)"
  shows "\<not> is_ok (recoverSegment rf tf f seg torn s)"
proof -
  let ?off = "length (log_bytes is)" and ?bad = "(item_bytes it)[j := b]"
  obtain ts fl kl vl body where fr: "item_bytes it = frame_bytes ts fl kl vl body" "check_header fl kl vl = None"
    "length body = unat (kl + vl)" "int64_range ts"
    by (rule item_frame [OF assms(2)])
  have d: "drop ?off (f_data f) = ?bad @ post" using assms(6) by simp
  have len: "length (item_bytes it) = recordHeaderSize + (unat kl + unat vl)"
    using fr(1,3) check_header_body_bound [OF fr(2)] by simp
  have "\<not> is_ok (readRecord (?bad @ post))"
    using readRecord_detects [OF fr(2,3,1)] assms(3-5) by blast
  moreover have "take 21 (item_bytes it) = LE_PutUint32 (crc32c (header_tail ts fl kl vl @ body)) @ header_tail ts fl kl vl"
    using take_header_frame [of ts fl kl vl body "[]"] fr(1) by simp
  then have "hdr_keyLen (take 21 (?bad @ post)) = kl" "hdr_valLen (take 21 (?bad @ post)) = vl"
    using hdr_lens_update [OF assms(4), of "item_bytes it" b post] len by (simp_all add: recordHeaderSize_def)
  ultimately have "\<not> is_ok (scanSegment no_fault (seg_id seg) torn (f_data f) ?off (recover_items (seg_id seg) 0 is s))"
    using d len by (intro scanSegment_reject) simp_all
  then have "\<not> is_ok (scanSegment no_fault (seg_id seg) torn (f_data f) 0 s)"
    using scan_log [OF assms(1)] assms(6) by simp
  then have "\<not> is_ok (scanSegment rf (seg_id seg) torn (f_data f) 0 s)" using scan_without_fault by (metis is_ok_iff)
  then show ?thesis
    using assms(7) by (auto simp: recoverSegment_def is_ok_iff split: sum.splits)
qed

end
