(* ===== verification/Replay.thy ===== *)
theory Replay
  imports Recovery
begin

text \<open>
  What a recovery amounts to. When time stamps do not decrease along the log, replaying it
  performs exactly the writer's index updates (\<open>recover_items_write\<close>), so the rebuilt index
  represents the store the log describes; a hint sidecar that was written from the log has
  the same effect as scanning it; and \<open>recover\<close> over a whole data directory rebuilds the
  store of all its segments, dropping at most a torn record of the active one.
\<close>

section \<open>Replaying is writing\<close>

definition tstamps_below :: "keydir \<Rightarrow> int \<Rightarrow> bool" where
  "tstamps_below k b \<longleftrightarrow> (\<forall>key e. keydir_get k key = Some e \<longrightarrow> ke_tstamp e \<le> b)"

lemma tstamps_below_mono: "tstamps_below k a \<Longrightarrow> a \<le> b \<Longrightarrow> tstamps_below k b"
  by (force simp: tstamps_below_def)

lemma tstamps_below_new [simp]: "tstamps_below newKeydir b"
  by (simp add: tstamps_below_def keydir_simps)

lemma recover_update_write:
  assumes "tstamps_below k ts" "\<forall>e. snd u = Some e \<longrightarrow> ke_tstamp e = ts"
  shows "recover_update ts k u = update_keydir k u"
  using assms
  by (auto simp: recover_update_def update_keydir_def applyTombstone_def putIfNewer_alt tstamps_below_def
      split: option.splits)

lemma update_keydir_below:
  assumes "map_ok k" "tstamps_below k ts" "\<forall>e. snd u = Some e \<longrightarrow> ke_tstamp e = ts"
  shows "map_ok (update_keydir k u)" "tstamps_below (update_keydir k u) ts"
  using assms by (auto simp: update_keydir_def tstamps_below_def keydir_simps split: option.splits if_splits)

lemma foldl_recover_update:
  assumes "map_ok k" "tstamps_below k ts" "\<forall>u \<in> set us. \<forall>e. snd u = Some e \<longrightarrow> ke_tstamp e = ts"
  shows "foldl (recover_update ts) k us = foldl update_keydir k us \<and>
    map_ok (foldl update_keydir k us) \<and> tstamps_below (foldl update_keydir k us) ts"
  using assms
proof (induction us arbitrary: k)
  case (Cons u us)
  then show ?case
    using update_keydir_below [of k ts u] recover_update_write [of k ts u] by simp
qed simp

lemma item_entries_tstamp:
  "\<forall>u \<in> set (item_entries sid off it). \<forall>e. snd u = Some e \<longrightarrow> ke_tstamp e = item_tstamp it"
  by (cases it) (auto simp: put_entry_def split: if_splits)

lemma recover_item_write:
  assumes "map_ok k" "tstamps_below k (item_tstamp it)"
  shows "recover_item sid off it (k, l) = (write_item sid off it k, bumpTstamp (item_tstamp it) l)"
    and "map_ok (write_item sid off it k)" "tstamps_below (write_item sid off it k) (item_tstamp it)"
  using foldl_recover_update [OF assms item_entries_tstamp]
  by (simp_all add: recover_item_def write_item_def)

lemma recover_items_write:
  assumes "map_ok k" "tstamps_below k b" "sorted (b # map item_tstamp is)"
  shows "recover_items sid off is (k, l) =
      (write_items sid off is k, foldl (\<lambda>l i. bumpTstamp (item_tstamp i) l) l is) \<and>
    map_ok (write_items sid off is k) \<and> tstamps_below (write_items sid off is k) (last (b # map item_tstamp is))"
  using assms
proof (induction "is" arbitrary: off k l b)
  case (Cons i "is")
  have "tstamps_below k (item_tstamp i)" using tstamps_below_mono [OF Cons.prems(2)] Cons.prems(3) by simp
  note s = recover_item_write [OF Cons.prems(1) this, of sid off]
  show ?case
    using Cons.IH [OF s(2,3), of "off + item_size i" "bumpTstamp (item_tstamp i) l"] Cons.prems(3) s(1)
    by simp
qed simp

section \<open>The store a log describes\<close>

definition log_store :: "log_item list \<Rightarrow> store" where
  "log_store is = apply_updates Map.empty (concat (map item_updates is))"

lemma apply_updates_append: "apply_updates m (us @ ws) = apply_updates (apply_updates m us) ws"
  by (simp add: apply_updates_def)

lemma represents_write_items:
  assumes "represents contents k m" "\<forall>i \<in> set is. valid_item i" "contents sid = Some pre"
  shows "represents (contents(sid \<mapsto> pre @ log_bytes is)) (write_items sid (length pre) is k)
    (apply_updates m (concat (map item_updates is)))"
  using assms
proof (induction "is" arbitrary: contents k m pre)
  case Nil
  then show ?case by (simp add: apply_updates_def fun_upd_idem)
next
  case (Cons i "is")
  have "represents (contents(sid \<mapsto> pre @ item_bytes i)) (write_item sid (length pre) i k)
      (apply_updates m (item_updates i))"
    using Cons.prems by (intro represents_write) simp_all
  then have "represents (contents(sid \<mapsto> pre @ item_bytes i, sid \<mapsto> (pre @ item_bytes i) @ log_bytes is))
      (write_items sid (length (pre @ item_bytes i)) is (write_item sid (length pre) i k))
      (apply_updates (apply_updates m (item_updates i)) (concat (map item_updates is)))"
    by (rule Cons.IH) (use Cons.prems(2) in simp_all)
  then show ?case
    by (simp only: fold_at.simps list.map concat.simps apply_updates_append length_append fun_upd_upd
        log_bytes_simps append_assoc)
qed

text \<open>Several segments: the log is their concatenation in replay order.\<close>

definition seg_contents :: "(u32 \<times> log_item list) list \<Rightarrow> u32 \<rightharpoonup> bytes" where
  "seg_contents L = map_of (map (\<lambda>(i, is). (i, log_bytes is)) L)"

definition write_segs :: "(u32 \<times> log_item list) list \<Rightarrow> keydir \<Rightarrow> keydir" where
  "write_segs L k = foldl (\<lambda>k (i, is). write_items i 0 is k) k L"

definition recover_segs :: "(u32 \<times> log_item list) list \<Rightarrow> replay \<Rightarrow> replay" where
  "recover_segs L s = foldl (\<lambda>s (i, is). recover_items i 0 is s) s L"

definition seg_items :: "(u32 \<times> log_item list) list \<Rightarrow> log_item list" where
  "seg_items L = concat (map snd L)"

lemma seg_simps:
  "seg_items [] = []" "seg_items ((i, is) # L) = is @ seg_items L" "seg_items (L @ M) = seg_items L @ seg_items M"
  "recover_segs ((i, is) # L) s = recover_segs L (recover_items i 0 is s)" "recover_segs [] s = s"
  "write_segs ((i, is) # L) k = write_segs L (write_items i 0 is k)" "write_segs [] k = k"
  "write_segs (L @ [(i, is)]) k = write_items i 0 is (write_segs L k)"
  by (simp_all add: seg_items_def recover_segs_def write_segs_def)

lemma recover_segs_write:
  assumes "map_ok k" "tstamps_below k b" "sorted (b # map item_tstamp (seg_items L))"
  shows "recover_segs L (k, l) =
      (write_segs L k, foldl (\<lambda>l i. bumpTstamp (item_tstamp i) l) l (seg_items L)) \<and> map_ok (write_segs L k)"
  using assms
proof (induction L arbitrary: k b l)
  case (Cons x L)
  obtain i "is" where x: "x = (i, is)" by (cases x)
  have s1: "sorted (b # map item_tstamp is)" and
    s2: "sorted (last (b # map item_tstamp is) # map item_tstamp (seg_items L))"
    using Cons.prems(3) x by (auto simp: seg_simps sorted_append last_map)
  note w = recover_items_write [OF Cons.prems(1,2) s1, of i 0 l]
  then show ?case
    using Cons.IH [OF conjunct1 [OF conjunct2 [OF w]] conjunct2 [OF conjunct2 [OF w]] s2] x
    by (simp add: seg_simps)
qed (simp add: seg_simps)

lemma represents_write_segs:
  assumes "distinct (map fst L)" "\<forall>i \<in> set (seg_items L). valid_item i"
  shows "represents (seg_contents L) (write_segs L newKeydir) (log_store (seg_items L))"
  using assms
proof (induction L rule: rev_induct)
  case Nil
  then show ?case by (simp add: seg_simps log_store_def apply_updates_def represents_empty)
next
  case (snoc x L)
  obtain i "is" where x: "x = (i, is)" by (cases x)
  have i: "seg_contents L i = None"
    using snoc.prems(1) x by (auto simp: seg_contents_def map_of_eq_None_iff image_image case_prod_beta)
  have "represents (seg_contents L) (write_segs L newKeydir) (log_store (seg_items L))"
    using snoc by (simp add: seg_simps seg_items_def)
  then have "represents ((seg_contents L)(i \<mapsto> [])) (write_segs L newKeydir) (log_store (seg_items L))"
    by (rule represents_mono) (use i in auto)
  then have "represents ((seg_contents L)(i \<mapsto> [], i \<mapsto> [] @ log_bytes is)) (write_items i (length ([] :: bytes)) is (write_segs L newKeydir))
      (apply_updates (log_store (seg_items L)) (concat (map item_updates is)))"
    by (rule represents_write_items) (use snoc.prems(2) x in \<open>simp_all add: seg_simps\<close>)
  moreover have "seg_contents (L @ [x]) = (seg_contents L)(i \<mapsto> log_bytes is)"
    using i x by (auto simp: seg_contents_def map_add_def fun_eq_iff split: option.splits)
  ultimately show ?case
    unfolding x by (simp only: seg_simps log_store_def apply_updates_append append_Nil fun_upd_upd
        list.size map_append concat_append append_Nil2)
qed

section \<open>Hints\<close>

text \<open>The hint entries of a log: one per update, a tombstone with the sentinel position.\<close>

definition hint_of :: "int \<Rightarrow> bytes \<times> keydirEntry option \<Rightarrow> hintEntry" where
  "hint_of ts u = (case snd u of
     None \<Rightarrow> \<lparr>h_key = fst u, h_valuePos = hintValuePosTombstone, h_valueLen = 0, h_tstamp = ts\<rparr>
   | Some e \<Rightarrow> \<lparr>h_key = fst u, h_valuePos = ke_valuePos e, h_valueLen = ke_valueLen e, h_tstamp = ts\<rparr>)"

fun log_hints :: "u32 \<Rightarrow> nat \<Rightarrow> log_item list \<Rightarrow> hintEntry list" where
  "log_hints sid off [] = []"
| "log_hints sid off (i # is) =
     map (hint_of (item_tstamp i)) (item_entries sid off i) @ log_hints sid (off + item_size i) is"

lemma bumpTstamp_idem [simp]: "bumpTstamp ts (bumpTstamp ts l) = bumpTstamp ts l"
  by (simp add: bumpTstamp_def)

text \<open>What the entries of an item satisfy: their file, time stamp and extent.\<close>

lemma item_entries_extent:
  assumes "valid_item it" "u \<in> set (item_entries sid (length pre) it)" "snd u = Some e"
  shows "ke_fileID e = sid" "ke_tstamp e = item_tstamp it" "0 \<le> ke_valuePos e"
    "ke_valuePos e + int (unat (ke_valueLen e)) \<le> int (length (pre @ item_bytes it @ post))"
proof -
  have "\<exists>w. entry_matches sid (item_tstamp it) (pre @ item_bytes it @ post) u w"
    using item_entries_match [OF assms(1), of sid pre post] assms(2)
    by (metis in_set_conv_nth list_all2_conv_all_nth)
  then obtain v where "ke_fileID e = sid" "ke_tstamp e = item_tstamp it" "points (pre @ item_bytes it @ post) e v"
    using assms(3) by (auto simp: entry_matches_def)
  then show "ke_fileID e = sid" "ke_tstamp e = item_tstamp it" "0 \<le> ke_valuePos e"
    "ke_valuePos e + int (unat (ke_valueLen e)) \<le> int (length (pre @ item_bytes it @ post))"
    by (auto simp: points_def)
qed

lemma keydirEntry_eta [simp]:
  "\<lparr>ke_fileID = ke_fileID e, ke_valuePos = ke_valuePos e, ke_valueLen = ke_valueLen e, ke_tstamp = ke_tstamp e\<rparr> = e"
  by simp

lemma item_entries_Nil: "item_entries sid off i = [] \<longleftrightarrow> item_updates i = []"
proof (cases i)
  case (Batch ts es)
  then show ?thesis
    using list_all2_lengthD [OF decoded_from_aligned [of "int off" batchCountSize es]] by auto
qed simp

lemma foldl_applyHint:
  assumes "us \<noteq> []" "\<forall>u \<in> set us. \<forall>e. snd u = Some e \<longrightarrow> ke_fileID e = sid \<and> ke_tstamp e = ts \<and> 0 \<le> ke_valuePos e"
  shows "foldl (applyHintEntry sid) s (map (hint_of ts) us) =
    (foldl (recover_update ts) (fst s) us, bumpTstamp ts (snd s))"
proof -
  have step: "applyHintEntry sid s (hint_of ts u) = (recover_update ts (fst s) u, bumpTstamp ts (snd s))"
    if "\<forall>e. snd u = Some e \<longrightarrow> ke_fileID e = sid \<and> ke_tstamp e = ts \<and> 0 \<le> ke_valuePos e" for u s
    using that
    by (cases "snd u") (auto simp: applyHintEntry_def hint_of_def recover_update_def hintValuePosTombstone_def
        case_prod_beta)
  show ?thesis
    using assms
  proof (induction us arbitrary: s)
    case (Cons u us)
    then show ?case using step [of u s] by (cases "us = []") simp_all
  qed simp
qed

lemma hints_in_bounds:
  assumes "\<forall>i \<in> set is. valid_item i" "h \<in> set (log_hints sid (length pre) is)" "data = pre @ log_bytes is @ post"
  shows "hintInBounds (int (length data)) h"
  using assms
proof (induction "is" arbitrary: pre)
  case (Cons i "is")
  show ?case
  proof (cases "h \<in> set (map (hint_of (item_tstamp i)) (item_entries sid (length pre) i))")
    case True
    then obtain u where u: "u \<in> set (item_entries sid (length pre) i)" "h = hint_of (item_tstamp i) u" by auto
    have "valid_item i" using Cons.prems(1) by simp
    have "0 \<le> ke_valuePos e \<and> ke_valuePos e \<le> int (length data) \<and>
        int (unat (ke_valueLen e)) \<le> int (length data) - ke_valuePos e"
      if "snd u = Some e" for e
      using item_entries_extent(3) [OF \<open>valid_item i\<close> u(1) that]
        item_entries_extent(4) [OF \<open>valid_item i\<close> u(1) that, of "log_bytes is @ post"] Cons.prems(3)
      by (simp only: log_bytes_simps append_assoc) (intro conjI TrueI; linarith)
    then show ?thesis
      unfolding u(2) by (cases "snd u") (simp_all add: hint_of_def hintInBounds_def not_less del: int_nat_eq)
  next
    case False
    then have "h \<in> set (log_hints sid (length (pre @ item_bytes i)) is)" using Cons.prems(2) by auto
    then show ?thesis using Cons.prems by (intro Cons.IH [of "pre @ item_bytes i"]) simp_all
  qed
qed simp

lemma foldl_log_hints:
  assumes "\<forall>i \<in> set is. valid_item i \<and> item_updates i \<noteq> []"
  shows "foldl (applyHintEntry sid) s (log_hints sid (length (pre :: bytes)) is) = recover_items sid (length pre) is s"
  using assms
proof (induction "is" arbitrary: pre s)
  case (Cons i "is")
  have "item_entries sid (length pre) i \<noteq> []"
    using Cons.prems by (simp add: item_entries_Nil)
  moreover have "\<forall>u \<in> set (item_entries sid (length pre) i). \<forall>e. snd u = Some e \<longrightarrow>
      ke_fileID e = sid \<and> ke_tstamp e = item_tstamp i \<and> 0 \<le> ke_valuePos e"
    using item_entries_extent [of i _ sid pre] Cons.prems by auto
  ultimately have "foldl (applyHintEntry sid) s (map (hint_of (item_tstamp i)) (item_entries sid (length pre) i)) =
      recover_item sid (length pre) i s"
    by (simp add: foldl_applyHint recover_item_def)
  then show ?case
    using Cons.IH [of _ "pre @ item_bytes i"] Cons.prems by simp
qed simp


text \<open>
  A hint is faithful to a segment's log when it has one entry per update of the log. A
  missing hint, and one that does not parse, are faithful as well: they are not used.
\<close>

definition hint_faithful :: "(u32, bytes) gomap \<Rightarrow> u32 \<Rightarrow> log_item list \<Rightarrow> bool" where
  "hint_faithful hints i is \<longleftrightarrow> (\<forall>es. readHintFile False hints i = Ok es \<longrightarrow> es = log_hints i 0 is)"

lemma recoverOne_sealed:
  assumes "\<forall>i \<in> set is. valid_item i \<and> item_updates i \<noteq> []"
    and "f_data f = log_bytes is" "seg_size seg = length (f_data f)" "hint_faithful hints (seg_id seg) is"
  shows "recoverOne ok_recover_env hints f seg False s = Ok (f, seg, recover_items (seg_id seg) 0 is s)"
proof -
  have v: "\<forall>i \<in> set is. valid_item i" using assms(1) by simp
  have scan: "recoverSegment no_fault False f seg False s = Ok (f, seg, recover_items (seg_id seg) 0 is s)"
    using scan_log_whole [OF v] assms(2,3) by (simp add: recoverSegment_def)
  show ?thesis
  proof (cases "readHintFile False hints (seg_id seg)")
    case (Inl e)
    then have "tryRecoverFromHint False hints seg s \<in> {HintAbsent, HintUnusable}"
      by (cases e) (simp_all add: tryRecoverFromHint_def)
    then show ?thesis using scan by (auto simp: recoverOne_def ok_recover_env_def)
  next
    case (Inr es)
    then have es: "es = log_hints (seg_id seg) (length ([] :: bytes)) is" using assms(4) by (simp add: hint_faithful_def)
    then have "\<forall>h \<in> set es. hintInBounds (int (seg_size seg)) h"
      using hints_in_bounds [OF v, of _ "seg_id seg" "[]" _ "[]"] assms(2,3) by auto
    then show ?thesis
      using Inr es foldl_log_hints [OF assms(1), of "seg_id seg" s "[]"]
      by (simp add: recoverOne_def ok_recover_env_def tryRecoverFromHint_def)
  qed
qed

text \<open>
  C34. Hints are only an optimisation. For a sealed segment with any log of records, replaying
  a hint file that lists the log's updates leaves the same index and the same last time
  stamp as scanning the segment, and so does recovery when the hint is missing or corrupt.
\<close>

theorem hint_replay_equals_scan:
  assumes "\<forall>i \<in> set is. valid_item i \<and> item_updates i \<noteq> []"
    and "f_data f = log_bytes is" "seg_size seg = length (f_data f)" "hint_faithful hints (seg_id seg) is"
  shows "recoverOne ok_recover_env hints f seg False s = recoverSegment no_fault False f seg False s"
proof -
  have "hint_faithful [] (seg_id seg) is" by (simp add: hint_faithful_def readHintFile_def map_index_simps)
  then show ?thesis
    using recoverOne_sealed [OF assms] recoverOne_sealed [OF assms(1-3), of "[]" s]
    by (simp add: recoverOne_def ok_recover_env_def tryRecoverFromHint_def readHintFile_def map_index_simps)
qed

theorem hint_replay_equals_scan_witness:
  "let is = [Single \<lparr>rec_tstamp = 1, rec_flag = recordFlagPut, rec_key = [7], rec_value = [8]\<rparr>];
       f = \<lparr>f_data = log_bytes is, f_synced = 0\<rparr>;
       seg = \<lparr>seg_id = 4, seg_size = 23, seg_bw = None, seg_werr = False\<rparr> in
   recoverOne ok_recover_env [(4, hint_bytes (log_hints 4 0 is))] f seg False ([], 0) =
   recoverSegment no_fault False f seg False ([], 0)"
proof -
  let ?is = "[Single \<lparr>rec_tstamp = 1, rec_flag = recordFlagPut, rec_key = [7], rec_value = [8]\<rparr>]"
  have "parseHint (hint_bytes (log_hints 4 0 ?is)) = Ok (log_hints 4 0 ?is)"
    by (rule parseHint_hint_bytes)
      (simp add: hint_of_def put_entry_def valid_hint_def record_consts int64_range_def record_flags unat_word_of_nat_u32)
  then have h: "hint_faithful [(4, hint_bytes (log_hints 4 0 ?is))] 4 ?is"
    by (simp add: hint_faithful_def readHintFile_def map_get_def del: log_hints.simps)
  have v: "\<forall>i \<in> set ?is. valid_item i \<and> item_updates i \<noteq> []"
    by (simp add: valid_record_def int64_range_def record_consts)
  have l: "seg_size \<lparr>seg_id = 4, seg_size = 23, seg_bw = None, seg_werr = False\<rparr> =
      length (f_data \<lparr>f_data = log_bytes ?is, f_synced = 0\<rparr>)"
    by (simp add: encodedSize_def record_consts)
  show ?thesis
    using hint_replay_equals_scan [OF v _ l, of "[(4, hint_bytes (log_hints 4 0 ?is))]" "([], 0)"] h
    unfolding Let_def segment.simps osfile.simps by blast
qed

section \<open>A whole data directory\<close>

text \<open>A segment recovery can be asked to replay: a whole log, with a torn record if it is active.\<close>

definition recoverable ::
  "(u32, bytes) gomap \<Rightarrow> u32 option \<Rightarrow> (u32 \<Rightarrow> log_item list) \<Rightarrow> u32 \<Rightarrow> osfile \<Rightarrow> segment \<Rightarrow> bool" where
  "recoverable hints active L i f seg \<longleftrightarrow>
     seg_id seg = i \<and> seg_ok f seg \<and> seg_bw seg = None \<and> (\<forall>it \<in> set (L i). valid_item it \<and> item_updates it \<noteq> []) \<and>
     (if active = Some i
      then \<exists>it m. valid_item it \<and> m < item_size it \<and> f_data f = log_bytes (L i) @ take m (item_bytes it)
      else f_data f = log_bytes (L i) \<and> hint_faithful hints i (L i))"

definition recovered :: "(u32 \<Rightarrow> log_item list) \<Rightarrow> u32 \<Rightarrow> osfile \<Rightarrow> segment \<Rightarrow> bool" where
  "recovered L i f seg \<longleftrightarrow> seg_id seg = i \<and> seg_ok f seg \<and> seg_bw seg = None \<and> f_data f = log_bytes (L i)"

lemma recoverOne_recoverable:
  assumes "recoverable hints active L i f seg"
  shows "\<exists>f' seg'. recoverOne ok_recover_env hints f seg (active = Some i) s =
      Ok (f', seg', recover_items i 0 (L i) s) \<and> recovered L i f' seg'"
proof -
  have v: "\<forall>it \<in> set (L i). valid_item it \<and> item_updates it \<noteq> []" and i: "seg_id seg = i"
    and ok: "seg_ok f seg" "seg_bw seg = None" and sz: "seg_size seg = length (f_data f)"
    using assms by (auto simp: recoverable_def seg_ok_def)
  show ?thesis
  proof (cases "active = Some i")
    case True
    with assms obtain it m where t: "valid_item it" "m < item_size it"
      "f_data f = log_bytes (L i) @ take m (item_bytes it)" by (auto simp: recoverable_def)
    have "scanSegment no_fault i True (f_data f) 0 s = Ok (length (log_bytes (L i)), recover_items i 0 (L i) s)"
      using scan_log [of "L i"] v scan_torn [OF t] t(3) by simp
    then show ?thesis
      using True i ok sz t(2,3)
      by (auto simp: recoverOne_def recoverSegment_def ok_recover_env_def recovered_def seg_ok_def)
  next
    case False
    then have "f_data f = log_bytes (L i)" "hint_faithful hints i (L i)"
      using assms by (simp_all add: recoverable_def)
    then show ?thesis
      using False recoverOne_sealed [OF v _ sz, of hints s] i ok by (simp add: recovered_def)
  qed
qed

lemma recoverLoop_recovers:
  assumes "distinct ids" "map_ok files" "map_ok segs"
    and "\<forall>i \<in> set ids. \<exists>f seg. map_get files i = Some f \<and> map_get segs i = Some seg \<and> recoverable hints active L i f seg"
  shows "\<exists>files' segs'. recoverLoop ok_recover_env hints (\<lambda>i. active = Some i) ids files segs s =
      (Ok (recover_segs (map (\<lambda>i. (i, L i)) ids) s), files', segs') \<and> map_ok files' \<and> map_ok segs' \<and>
    (\<forall>j. j \<notin> set ids \<longrightarrow> map_get files' j = map_get files j \<and> map_get segs' j = map_get segs j) \<and>
    (\<forall>i \<in> set ids. \<exists>f seg. map_get files' i = Some f \<and> map_get segs' i = Some seg \<and> recovered L i f seg)"
  using assms
proof (induction ids arbitrary: files segs s)
  case (Cons i ids)
  obtain f seg where fs: "map_get files i = Some f" "map_get segs i = Some seg" "recoverable hints active L i f seg"
    using Cons.prems(4) by auto
  obtain f' seg' where one: "recoverOne ok_recover_env hints f seg (active = Some i) s =
      Ok (f', seg', recover_items i 0 (L i) s)" and rec: "recovered L i f' seg'"
    using recoverOne_recoverable [OF fs(3)] by blast
  let ?files = "map_set files i f'" and ?segs = "map_set segs i seg'"
  have ok: "map_ok ?files" "map_ok ?segs" using Cons.prems(2,3) by (simp_all add: map_index_simps)
  have get: "map_get ?files j = (if j = i then Some f' else map_get files j)"
    "map_get ?segs j = (if j = i then Some seg' else map_get segs j)" for j
    using Cons.prems(2,3) by (simp_all add: map_index_simps)
  have ni: "i \<notin> set ids" and di: "distinct ids" using Cons.prems(1) by simp_all
  then have ne: "j \<noteq> i" if "j \<in> set ids" for j using that by blast
  have "\<forall>j \<in> set ids. \<exists>f seg. map_get ?files j = Some f \<and> map_get ?segs j = Some seg \<and> recoverable hints active L j f seg"
    using Cons.prems(4) ne by (simp add: get)
  from Cons.IH [OF di ok this, of "recover_items i 0 (L i) s"]
  obtain files' segs' where r: "recoverLoop ok_recover_env hints (\<lambda>i. active = Some i) ids ?files ?segs (recover_items i 0 (L i) s) =
      (Ok (recover_segs (map (\<lambda>i. (i, L i)) ids) (recover_items i 0 (L i) s)), files', segs')"
    and r': "map_ok files'" "map_ok segs'"
    "\<forall>j. j \<notin> set ids \<longrightarrow> map_get files' j = map_get ?files j \<and> map_get segs' j = map_get ?segs j"
    "\<forall>i \<in> set ids. \<exists>f seg. map_get files' i = Some f \<and> map_get segs' i = Some seg \<and> recovered L i f seg"
    by blast
  have "recoverLoop ok_recover_env hints (\<lambda>i. active = Some i) (i # ids) files segs s =
      (Ok (recover_segs (map (\<lambda>i. (i, L i)) (i # ids)) s), files', segs')"
    using fs one r by (simp add: seg_simps)
  moreover have "map_get files' i = Some f'" "map_get segs' i = Some seg'" using r'(3) ni get by simp_all
  ultimately show ?case using r' rec get by (intro exI [of _ files'] exI [of _ segs']) auto
qed (simp add: seg_simps)

text \<open>The log of a directory: the logs of its segments in ascending id order.\<close>

definition dir_segs :: "(u32, segment) gomap \<Rightarrow> (u32 \<Rightarrow> log_item list) \<Rightarrow> (u32 \<times> log_item list) list" where
  "dir_segs segs L = map (\<lambda>i. (i, L i)) (sort (map_keys segs))"

definition dir_log :: "(u32, segment) gomap \<Rightarrow> (u32 \<Rightarrow> log_item list) \<Rightarrow> log_item list" where
  "dir_log segs L = seg_items (dir_segs segs L)"

text \<open>The bytes of the files, as the index sees them.\<close>

definition file_contents :: "(u32, osfile) gomap \<Rightarrow> u32 \<rightharpoonup> bytes" where
  "file_contents files i = map_option f_data (map_get files i)"

lemma represents_dir_log:
  assumes "map_ok segs" "\<forall>i \<in> set (map_keys segs). \<forall>it \<in> set (L i). valid_item it"
    and "\<forall>i \<in> set (map_keys segs). contents i = Some (log_bytes (L i))"
  shows "represents contents (write_segs (dir_segs segs L) newKeydir) (log_store (dir_log segs L))"
proof -
  have "map fst (dir_segs segs L) = sort (map_keys segs)" by (simp add: dir_segs_def comp_def)
  then have "represents (seg_contents (dir_segs segs L)) (write_segs (dir_segs segs L) newKeydir) (log_store (dir_log segs L))"
    unfolding dir_log_def
    by (intro represents_write_segs)
      (use assms(1,2) in \<open>auto simp: distinct_map_keys seg_items_def dir_segs_def\<close>)
  then show ?thesis
  proof (rule represents_mono)
    fix i c
    assume "seg_contents (dir_segs segs L) i = Some c"
    then have "i \<in> set (map_keys segs)" "c = log_bytes (L i)"
      by (auto simp: seg_contents_def dir_segs_def dest!: map_of_SomeD)
    then show "\<exists>d. contents i = Some (c @ d)" using assms(3) by auto
  qed
qed

lemma indexed_write_items:
  assumes "map_ok k" "indexed L k" "L sid = pre"
  shows "indexed (L(sid := pre @ is)) (write_items sid (length (log_bytes pre)) is k) \<and>
    map_ok (write_items sid (length (log_bytes pre)) is k)"
  using assms
proof (induction "is" arbitrary: pre k L)
  case (Cons i "is")
  have "indexed (L(sid := pre @ [i])) (write_item sid (length (log_bytes pre)) i k)" using Cons.prems by (rule indexed_write)
  from Cons.IH [OF ok_write_item [OF Cons.prems(1)] this fun_upd_same] show ?case
    by (simp only: fun_upd_upd fold_at.simps log_bytes_simps length_append append_assoc append.simps append_Nil2 refl)
qed (auto simp: fun_upd_idem)

lemma indexed_write_segs:
  assumes "distinct (map fst Ls)" "map_ok k" "indexed L k" "\<forall>(i, is) \<in> set Ls. L i = []"
  shows "indexed (\<lambda>i. case map_of Ls i of None \<Rightarrow> L i | Some is \<Rightarrow> is) (write_segs Ls k)"
  using assms
proof (induction Ls arbitrary: k L)
  case (Cons x Ls)
  obtain i "is" where x: "x = (i, is)" by (cases x)
  have "L i = []" using Cons.prems(4) x by auto
  then have w: "indexed (L(i := is)) (write_items i 0 is k)" "map_ok (write_items i 0 is k)"
    using indexed_write_items [OF Cons.prems(2,3), of i "[]" "is"] by simp_all
  have d: "distinct (map fst Ls)" "\<forall>(j, js) \<in> set Ls. (L(i := is)) j = []" using Cons.prems(1,4) x by force+
  have "indexed (\<lambda>j. case map_of Ls j of None \<Rightarrow> (L(i := is)) j | Some js \<Rightarrow> js) (write_segs (x # Ls) k)"
    unfolding x seg_simps by (rule Cons.IH [OF d(1) w(2,1) d(2)])
  moreover have "(\<lambda>j. case map_of Ls j of None \<Rightarrow> (L(i := is)) j | Some js \<Rightarrow> js) =
      (\<lambda>j. case map_of (x # Ls) j of None \<Rightarrow> L j | Some js \<Rightarrow> js)"
    using Cons.prems(1) x by (auto simp: fun_eq_iff map_of_eq_None_iff split: option.splits dest: map_of_SomeD intro: rev_image_eqI)
  ultimately show ?case by simp
qed (simp add: seg_simps)

lemma indexed_dir_log:
  assumes "map_ok segs" "\<forall>i. map_get segs i = None \<longrightarrow> L i = []"
  shows "indexed L (write_segs (dir_segs segs L) newKeydir)"
proof -
  have "map fst (dir_segs segs L) = sort (map_keys segs)" by (simp add: dir_segs_def comp_def)
  then have "indexed (\<lambda>i. case map_of (dir_segs segs L) i of None \<Rightarrow> [] | Some is \<Rightarrow> is) (write_segs (dir_segs segs L) newKeydir)"
    by (intro indexed_write_segs) (use assms(1) in \<open>auto simp: distinct_map_keys keydir_simps\<close>)
  moreover have "(\<lambda>i. case map_of (dir_segs segs L) i of None \<Rightarrow> [] | Some is \<Rightarrow> is) = L"
  proof
    fix i
    show "(case map_of (dir_segs segs L) i of None \<Rightarrow> [] | Some is \<Rightarrow> is) = L i"
    proof (cases "map_get segs i = None")
      case True
      then have "map_of (dir_segs segs L) i = None"
        by (auto simp: dir_segs_def map_of_eq_None_iff map_keys_iff image_image)
      then show ?thesis using assms(2) True by simp
    next
      case False
      then have "i \<in> set (sort (map_keys segs))" by (simp add: map_keys_iff)
      then have "map_of (dir_segs segs L) i = Some (L i)" by (simp add: dir_segs_def map_of_map_restrict)
      then show ?thesis by simp
    qed
  qed
  ultimately show ?thesis by simp
qed

lemma recover_dir:
  assumes "map_ok files" "map_ok segs"
    and "\<forall>i \<in> set (map_keys segs). \<exists>f seg. map_get files i = Some f \<and> map_get segs i = Some seg \<and>
      recoverable hints active L i f seg"
    and "sorted (map item_tstamp (dir_log segs L))"
  obtains files' segs' where "recover ok_recover_env hints active files segs (newKeydir, l) =
      (Ok (write_segs (dir_segs segs L) newKeydir,
           foldl (\<lambda>l i. bumpTstamp (item_tstamp i) l) l (dir_log segs L)), files', segs')"
    "map_ok files'" "map_ok segs'" "map_ok (write_segs (dir_segs segs L) newKeydir)"
    "\<forall>j. j \<notin> set (map_keys segs) \<longrightarrow> map_get files' j = map_get files j \<and> map_get segs' j = map_get segs j"
    "\<forall>i \<in> set (map_keys segs). \<exists>f seg. map_get files' i = Some f \<and> map_get segs' i = Some seg \<and> recovered L i f seg"
proof -
  have d: "distinct (sort (map_keys segs))" using assms(2) by (simp add: distinct_map_keys)
  have "\<exists>b. sorted (b # map item_tstamp (dir_log segs L))"
    using assms(4) by (cases "map item_tstamp (dir_log segs L)") force+
  then obtain b where "sorted (b # map item_tstamp (seg_items (dir_segs segs L)))" by (auto simp: dir_log_def)
  note w = recover_segs_write [OF kd.ok_emp tstamps_below_new this, of l]
  show ?thesis
    using recoverLoop_recovers [OF d assms(1,2), of hints active L "(newKeydir, l)"] assms(3) w that
    unfolding recover_def dir_segs_def [symmetric] dir_log_def set_sort by fastforce
qed

text \<open>
  C9. Recovery rebuilds the store. Take a data directory whose sealed segments are whole
  logs, with hints that are missing, corrupt or faithful, and whose active segment may end
  in a torn record. If time stamps do not decrease along the segments in id order, recovery
  succeeds, drops nothing but the torn record, and the index it rebuilds, read through the
  files, is exactly the key-value store that results from carrying out every record in
  order.
\<close>

theorem recover_rebuilds_store:
  assumes "map_ok files" "map_ok segs"
    and "\<forall>i \<in> set (map_keys segs). \<exists>f seg. map_get files i = Some f \<and> map_get segs i = Some seg \<and>
      recoverable hints active L i f seg"
    and "sorted (map item_tstamp (dir_log segs L))"
  shows "\<exists>files' segs' k l'. recover ok_recover_env hints active files segs (newKeydir, l) = (Ok (k, l'), files', segs') \<and>
    represents (file_contents files') k (log_store (dir_log segs L)) \<and>
    (\<forall>i \<in> set (map_keys segs). file_contents files' i = Some (log_bytes (L i)))"
proof -
  obtain files' segs' where r: "recover ok_recover_env hints active files segs (newKeydir, l) =
      (Ok (write_segs (dir_segs segs L) newKeydir,
           foldl (\<lambda>l i. bumpTstamp (item_tstamp i) l) l (dir_log segs L)), files', segs')"
    "\<forall>i \<in> set (map_keys segs). \<exists>f seg. map_get files' i = Some f \<and> map_get segs' i = Some seg \<and> recovered L i f seg"
    by (rule recover_dir [OF assms, of l])
  have c: "\<forall>i \<in> set (map_keys segs). file_contents files' i = Some (log_bytes (L i))"
    using r(2) by (fastforce simp: recovered_def file_contents_def)
  have "\<forall>i \<in> set (map_keys segs). \<forall>it \<in> set (L i). valid_item it"
    using assms(3) by (fastforce simp: recoverable_def)
  from represents_dir_log [OF assms(2) this c] show ?thesis using r(1) c by blast
qed

theorem recover_rebuilds_store_witness:
  "let put = Single \<lparr>rec_tstamp = 1, rec_flag = recordFlagPut, rec_key = [7], rec_value = [8]\<rparr>;
       bat = Batch 2 [\<lparr>be_key = [7], be_value = [], be_delete = True\<rparr>];
       files = [(0, \<lparr>f_data = log_bytes [put], f_synced = 0\<rparr>), (1, \<lparr>f_data = take 30 (item_bytes bat), f_synced = 0\<rparr>)];
       segs = [(0, \<lparr>seg_id = 0, seg_size = 23, seg_bw = None, seg_werr = False\<rparr>),
               (1, \<lparr>seg_id = 1, seg_size = 30, seg_bw = None, seg_werr = False\<rparr>)] in
   \<exists>files' segs' k l'. recover ok_recover_env [] (Some 1) files segs (newKeydir, 0) = (Ok (k, l'), files', segs') \<and>
     represents (file_contents files') k (log_store [put])"
proof -
  let ?put = "Single \<lparr>rec_tstamp = 1, rec_flag = recordFlagPut, rec_key = [7], rec_value = [8]\<rparr>"
  let ?bat = "Batch 2 [\<lparr>be_key = [7], be_value = [], be_delete = True\<rparr>]"
  let ?files = "[(0, \<lparr>f_data = log_bytes [?put], f_synced = 0\<rparr>), (1, \<lparr>f_data = take 30 (item_bytes ?bat), f_synced = 0\<rparr>)]
    :: (u32, osfile) gomap"
  let ?segs = "[(0, \<lparr>seg_id = 0, seg_size = 23, seg_bw = None, seg_werr = False\<rparr>),
    (1, \<lparr>seg_id = 1, seg_size = 30, seg_bw = None, seg_werr = False\<rparr>)] :: (u32, segment) gomap"
  let ?L = "\<lambda>i :: u32. if i = 0 then [?put] else []"
  have v: "valid_item ?put" "valid_item ?bat" "item_size ?put = 23" "item_size ?bat = 35"
    by (simp_all add: valid_record_def valid_batch_def valid_entry_def entry_value_def int64_range_def
        record_consts batch_body_def encodedSize_def)
  have "recoverable [] (Some 1) ?L 0 (the (map_get ?files 0)) (the (map_get ?segs 0))"
    using v by (simp add: recoverable_def map_get_def seg_ok_def hint_faithful_def readHintFile_def del: item_bytes.simps valid_item.simps)
  moreover have "recoverable [] (Some 1) ?L 1 (the (map_get ?files 1)) (the (map_get ?segs 1))"
    using v by (auto simp: recoverable_def map_get_def seg_ok_def del: item_bytes.simps valid_item.simps
        intro!: exI [of _ ?bat] exI [of _ 30])
  ultimately have "\<forall>i \<in> set (map_keys ?segs). \<exists>f seg. map_get ?files i = Some f \<and> map_get ?segs i = Some seg \<and>
      recoverable [] (Some 1) ?L i f seg"
    by (simp add: map_keys_def map_get_def)
  moreover have "dir_log ?segs ?L = [?put]" by (simp add: dir_log_def dir_segs_def map_keys_def seg_simps)
  ultimately show ?thesis
    using recover_rebuilds_store [of ?files ?segs "[]" "Some 1" ?L 0]
    unfolding Let_def by (fastforce simp: map_ok_def)
qed

lemma record_bytes_not_Nil: "record_bytes r \<noteq> []"
proof
  assume "record_bytes r = []"
  then have "length (record_bytes r) = 0" by (simp only: list.size)
  then show False by (simp add: encodedSize_def recordHeaderSize_def)
qed

text \<open>
  C15. Without the order hypothesis the store is not rebuilt. After a compaction the merged
  segment has a higher id than the active one. If a key whose record was merged is then
  deleted, the tombstone stands in the segment with the lower id: it is replayed first,
  when it deletes nothing and is forgotten, and the older record of the merged segment
  brings the key back, with its old value.
\<close>

theorem recover_resurrects_deleted_key:
  assumes "valid_record p" "rec_flag p = recordFlagPut" "valid_record t" "rec_flag t = recordFlagTombstone"
    and "rec_key t = rec_key p" "rec_tstamp p < rec_tstamp t" "lo < hi"
    and "files = [(lo, \<lparr>f_data = record_bytes t, f_synced = n\<rparr>), (hi, \<lparr>f_data = record_bytes p, f_synced = m\<rparr>)]"
    and "segs = [(lo, \<lparr>seg_id = lo, seg_size = encodedSize t, seg_bw = None, seg_werr = False\<rparr>),
                 (hi, \<lparr>seg_id = hi, seg_size = encodedSize p, seg_bw = None, seg_werr = False\<rparr>)]"
    and "n \<le> encodedSize t" "m \<le> encodedSize p"
  shows "\<exists>files' segs' k l' e. recover ok_recover_env [] (Some lo) files segs (newKeydir, l) = (Ok (k, l'), files', segs') \<and>
    keydir_get k (rec_key p) = Some e \<and> ke_fileID e = hi \<and> points (record_bytes p) e (rec_value p)"
proof -
  let ?L = "\<lambda>i. if i = lo then [Single t] else [Single p]"
  have ne: "hi \<noteq> lo" using assms(7) by auto
  have "recoverable [] (Some lo) ?L lo (the (map_get files lo)) (the (map_get segs lo))"
    using assms record_bytes_not_Nil [of t]
    by (auto simp: recoverable_def map_get_def seg_ok_def intro!: exI [of _ "Single t"] exI [of _ 0])
  moreover have "recoverable [] (Some lo) ?L hi (the (map_get files hi)) (the (map_get segs hi))"
    using assms ne by (simp add: recoverable_def map_get_def seg_ok_def hint_faithful_def readHintFile_def)
  ultimately have rec: "\<forall>i \<in> set [lo, hi]. \<exists>f seg. map_get files i = Some f \<and> map_get segs i = Some seg \<and>
      recoverable [] (Some lo) ?L i f seg"
    using assms(8,9) ne by (simp add: map_get_def)
  have ok: "map_ok files" "map_ok segs" using assms(8,9) ne by (auto simp: map_ok_def)
  have "sort (map_keys segs) = [lo, hi]" using assms(7,9) by (simp add: map_keys_def less_imp_le)
  then obtain files' segs' where r: "recover ok_recover_env [] (Some lo) files segs (newKeydir, l) =
      (Ok (recover_segs [(lo, [Single t]), (hi, [Single p])] (newKeydir, l)), files', segs')"
    using recoverLoop_recovers [OF _ ok rec, of "(newKeydir, l)"] ne by (auto simp: recover_def)
  have m: "list_all2 (entry_matches hi (rec_tstamp p) ([] @ record_bytes p @ []))
      (item_entries hi (length ([] :: bytes)) (Single p)) (item_updates (Single p))"
    using assms(1) by (rule entry_matches_single)
  let ?k = "fst (recover_segs [(lo, [Single t]), (hi, [Single p])] (newKeydir, l))"
  let ?e = "put_entry hi (int (recordHeaderSize + length (rec_key p))) (rec_value p) (rec_tstamp p)"
  have "keydir_get ?k (rec_key p) = Some ?e"
    using assms(2,4) by (simp add: seg_simps recover_item_def recover_update_def applyTombstone_def
        putIfNewer_alt keydir_simps record_flags)
  moreover have "ke_fileID ?e = hi" "points (record_bytes p) ?e (rec_value p)"
    using m assms(2) by (simp_all add: entry_matches_def put_entry_def)
  ultimately show ?thesis using r by (metis prod.collapse)
qed

theorem recover_resurrects_deleted_key_witness:
  "let p = \<lparr>rec_tstamp = 1, rec_flag = recordFlagPut, rec_key = [7], rec_value = [8]\<rparr>;
       t = \<lparr>rec_tstamp = 2, rec_flag = recordFlagTombstone, rec_key = [7], rec_value = []\<rparr> in
   \<exists>files' segs' k l' e. recover ok_recover_env [] (Some 3)
       [(3, \<lparr>f_data = record_bytes t, f_synced = 0\<rparr>), (4, \<lparr>f_data = record_bytes p, f_synced = 0\<rparr>)]
       [(3, \<lparr>seg_id = 3, seg_size = encodedSize t, seg_bw = None, seg_werr = False\<rparr>),
        (4, \<lparr>seg_id = 4, seg_size = encodedSize p, seg_bw = None, seg_werr = False\<rparr>)]
       (newKeydir, 0) = (Ok (k, l'), files', segs') \<and>
     keydir_get k [7] = Some e \<and> ke_fileID e = 4 \<and> points (record_bytes p) e [8]"
proof -
  let ?p = "\<lparr>rec_tstamp = 1, rec_flag = recordFlagPut, rec_key = [7], rec_value = [8]\<rparr> :: log_record"
  let ?t = "\<lparr>rec_tstamp = 2, rec_flag = recordFlagTombstone, rec_key = [7], rec_value = []\<rparr> :: log_record"
  have "valid_record ?p" "valid_record ?t" by (simp_all add: valid_record_def int64_range_def record_consts)
  then show ?thesis
    using recover_resurrects_deleted_key [OF _ _ _ _ _ _ _ refl refl, of ?p ?t 3 4 0 0 0] by simp
qed

end
