(* ===== verification/Engine_State.thy ===== *)
theory Engine_State
  imports Replay
begin

text \<open>
  The state of an open database, \<open>internal/engine/engine.go\<close>: the data directory (segment
  files, hint files, manifest, lock), the options, and the fields of \<open>DB\<close>. A \<open>*segment\<close>
  in \<open>db.segments\<close> is its entry in \<open>db_segments\<close>; \<open>db.active\<close> aliases one of them, so it is
  the id of that entry. The error values, the options and the requests of the writer
  goroutine are here too.
\<close>

section \<open>Errors, options, requests\<close>

datatype engine_error =
    ErrKeyNotFound
  | ErrDBClosed
  | ErrKeyTooLarge
  | ErrValueTooLarge
  | ErrEmptyKey
  | ErrBatchTooLarge
  | ErrInvalidBatchEntry nat engine_error
  | ErrWritesDisabled
  | EngBadOptions
  | EngMkdir
  | EngLock
  | EngOS os_error
  | EngFsync os_error
  | EngRecord record_error
  | EngManifest manifest_error
  | EngRecovery recovery_error
  | EngHint hint_error
  | EngDirSync
  | EngReadDir
  | EngNilCallback
  | EngMissingSegment u32
  | EngUnknownFlag byte
  | EngNilActive

record options =
  o_Dir :: string
  o_MaxSegmentSize :: int
  o_SyncOnPut :: bool
  o_WriteQueueDepth :: int
  o_MaxBatchEncodedSize :: int
  o_CompactionInterval :: int

definition defaultMaxSegmentSize :: int where "defaultMaxSegmentSize = 256 * 1024 * 1024"
definition defaultWriteQueueDepth :: int where "defaultWriteQueueDepth = 64"
definition defaultMaxBatchEncodedSize :: int where "defaultMaxBatchEncodedSize = 64 * 1024 * 1024"

record stats =
  st_KeyCount :: u64
  st_BytesOnDisk :: u64

text \<open>One key moved by a compaction, and the commit handed to the writer (\<open>compact.go\<close>).\<close>

record rewrite =
  rw_key :: bytes
  rw_oldEntry :: keydirEntry
  rw_newEntry :: keydirEntry

record compactCommit =
  cc_newSeg :: "segment option"
  cc_rewrites :: "rewrite list"
  cc_oldSegs :: "segment list"

datatype writeRequest =
    WPut bytes bytes
  | WDelete bytes
  | WBatch "batch_entry list"
  | WCompactCommit compactCommit

section \<open>The data directory and the database\<close>

record disk =
  d_files :: "(u32, osfile) gomap"
  d_hints :: "(u32, bytes) gomap"
  d_manifest :: manifest_file
  d_locked :: bool

record db =
  db_opts :: options
  db_active :: "u32 option"
  db_nextID :: u32
  db_lastTstamp :: int
  db_segments :: "(u32, segment) gomap"
  db_segmentsNil :: bool
  db_keydir :: keydir
  db_closed :: bool
  db_closeErr :: "engine_error + unit"
  db_writesDisabled :: bool
  db_cachedStats :: "stats option"
  db_disk :: disk

definition set_files :: "(u32, osfile) gomap \<Rightarrow> db \<Rightarrow> db" where
  "set_files fs db = db\<lparr>db_disk := (db_disk db)\<lparr>d_files := fs\<rparr>\<rparr>"

definition set_hints :: "(u32, bytes) gomap \<Rightarrow> db \<Rightarrow> db" where
  "set_hints hs db = db\<lparr>db_disk := (db_disk db)\<lparr>d_hints := hs\<rparr>\<rparr>"

definition set_manifest :: "manifest_file \<Rightarrow> db \<Rightarrow> db" where
  "set_manifest mf db = db\<lparr>db_disk := (db_disk db)\<lparr>d_manifest := mf\<rparr>\<rparr>"

abbreviation db_files :: "db \<Rightarrow> (u32, osfile) gomap" where
  "db_files db \<equiv> d_files (db_disk db)"

text \<open>The file and the handle of a segment of the database.\<close>

definition seg_lookup :: "db \<Rightarrow> u32 \<Rightarrow> (osfile \<times> segment) option" where
  "seg_lookup db i =
     (case (map_get (db_files db) i, map_get (db_segments db) i) of
        (Some f, Some s) \<Rightarrow> Some (f, s) | _ \<Rightarrow> None)"

definition active_seg :: "db \<Rightarrow> (u32 \<times> osfile \<times> segment) option" where
  "active_seg db =
     (case db_active db of
        None \<Rightarrow> None
      | Some i \<Rightarrow> (case seg_lookup db i of None \<Rightarrow> None | Some (f, s) \<Rightarrow> Some (i, f, s)))"

definition seg_update :: "u32 \<Rightarrow> osfile \<Rightarrow> segment \<Rightarrow> db \<Rightarrow> db" where
  "seg_update i f s db =
     (set_files (map_set (db_files db) i f) db)\<lparr>db_segments := map_set (db_segments db) i s\<rparr>"

section \<open>Faults\<close>

text \<open>What the operating system answers during a rotation and during a write.\<close>

record rotate_env =
  re_syncW :: "nat option"
  re_syncS :: bool
  re_create :: bool
  re_dirSync :: bool
  re_manifest :: publish_fault
  re_remove :: bool

record write_env =
  we_now :: int
  we_rotate :: rotate_env
  we_append :: "nat option"
  we_flush :: "nat option"

definition ok_rotate_env :: rotate_env where
  "ok_rotate_env = \<lparr>re_syncW = None, re_syncS = False, re_create = False, re_dirSync = False,
     re_manifest = NoFault, re_remove = False\<rparr>"

definition ok_write_env :: "int \<Rightarrow> write_env" where
  "ok_write_env now = \<lparr>we_now = now, we_rotate = ok_rotate_env, we_append = None, we_flush = None\<rparr>"

section \<open>Access lemmas\<close>

lemma set_simps [simp]:
  "db_disk (set_files fs db) = (db_disk db)\<lparr>d_files := fs\<rparr>"
  "db_disk (set_hints hs db) = (db_disk db)\<lparr>d_hints := hs\<rparr>"
  "db_disk (set_manifest mf db) = (db_disk db)\<lparr>d_manifest := mf\<rparr>"
  "db_opts (set_files fs db) = db_opts db" "db_opts (set_hints hs db) = db_opts db" "db_opts (set_manifest mf db) = db_opts db"
  "db_active (set_files fs db) = db_active db" "db_active (set_hints hs db) = db_active db"
  "db_active (set_manifest mf db) = db_active db"
  "db_nextID (set_files fs db) = db_nextID db" "db_nextID (set_hints hs db) = db_nextID db"
  "db_nextID (set_manifest mf db) = db_nextID db"
  "db_lastTstamp (set_files fs db) = db_lastTstamp db" "db_lastTstamp (set_hints hs db) = db_lastTstamp db"
  "db_lastTstamp (set_manifest mf db) = db_lastTstamp db"
  "db_segments (set_files fs db) = db_segments db" "db_segments (set_hints hs db) = db_segments db"
  "db_segments (set_manifest mf db) = db_segments db"
  "db_keydir (set_files fs db) = db_keydir db" "db_keydir (set_hints hs db) = db_keydir db"
  "db_keydir (set_manifest mf db) = db_keydir db"
  "db_closed (set_files fs db) = db_closed db" "db_closed (set_hints hs db) = db_closed db"
  "db_closed (set_manifest mf db) = db_closed db"
  "db_writesDisabled (set_files fs db) = db_writesDisabled db" "db_writesDisabled (set_hints hs db) = db_writesDisabled db"
  "db_writesDisabled (set_manifest mf db) = db_writesDisabled db"
  by (simp_all add: set_files_def set_hints_def set_manifest_def)

lemma seg_update_simps [simp]:
  "db_segments (seg_update i f s db) = map_set (db_segments db) i s"
  "db_disk (seg_update i f s db) = (db_disk db)\<lparr>d_files := map_set (db_files db) i f\<rparr>"
  "db_opts (seg_update i f s db) = db_opts db" "db_active (seg_update i f s db) = db_active db"
  "db_nextID (seg_update i f s db) = db_nextID db" "db_lastTstamp (seg_update i f s db) = db_lastTstamp db"
  "db_keydir (seg_update i f s db) = db_keydir db" "db_closed (seg_update i f s db) = db_closed db"
  "db_writesDisabled (seg_update i f s db) = db_writesDisabled db"
  by (simp_all add: seg_update_def)

lemma seg_lookup_Some:
  "seg_lookup db i = Some (f, s) \<longleftrightarrow> map_get (db_files db) i = Some f \<and> map_get (db_segments db) i = Some s"
  by (auto simp: seg_lookup_def split: option.splits)

lemma active_seg_Some:
  "active_seg db = Some (i, f, s) \<longleftrightarrow> db_active db = Some i \<and> map_get (db_files db) i = Some f \<and>
     map_get (db_segments db) i = Some s"
  by (auto simp: active_seg_def seg_lookup_def split: option.splits)

end
