(* ===== verification/Writer.thy ===== *)
theory Writer
  imports Engine_State
begin

text \<open>
  The write path of the engine, \<open>internal/engine/engine.go\<close>: validation and submission on
  the caller's side, and the writer goroutine's handlers (\<open>handleOne\<close>, \<open>handleBatch\<close>,
  \<open>rotateActive\<close>, \<open>handleCompactCommit\<close>, \<open>processBurst\<close>). Each handler returns its result and
  the state afterwards on every path, failures included. A blocking \<open>submit\<close> is the
  handler's run on the request; the queue between them is in theory \<open>Write_Queue\<close>.
\<close>

section \<open>Rotation\<close>

definition remove_file :: "bool \<Rightarrow> u32 \<Rightarrow> db \<Rightarrow> db" where
  "remove_file fault i db = (if fault then db else set_files (map_del (db_files db) i) db)"

text \<open>
  The second half of \<open>rotateActive\<close>, once the new segment's file exists: the directory
  barrier, the manifest, and the publication to readers.
\<close>

definition publishActive :: "rotate_env \<Rightarrow> segment \<Rightarrow> db \<Rightarrow> (engine_error + unit) \<times> db" where
  "publishActive env nxt db =
     (if re_dirSync env then (Err EngDirSync, remove_file (re_remove env) (seg_id nxt) db)
      else
        let live = map_keys (db_segments db) @ [seg_id nxt] in
        (case writeManifest (re_manifest env) (d_manifest (db_disk db)) live (seg_id nxt) of
           (Inl e, mf) \<Rightarrow>
             if e = ErrManifestPublishedButUncertain
             then (Err ErrWritesDisabled, (set_manifest mf db)\<lparr>db_writesDisabled := True\<rparr>)
             else (Err (EngManifest e), remove_file (re_remove env) (seg_id nxt) (set_manifest mf db))
         | (Inr _, mf) \<Rightarrow>
             (Ok (), (set_manifest mf db)\<lparr>db_segments := map_set (db_segments db) (seg_id nxt) nxt,
                                         db_active := Some (seg_id nxt)\<rparr>)))"

definition rotateActive :: "rotate_env \<Rightarrow> db \<Rightarrow> (engine_error + unit) \<times> db" where
  "rotateActive env db =
     (case active_seg db of
        None \<Rightarrow> (Err EngNilActive, db)
      | Some (a, f, s) \<Rightarrow>
          (case seg_sync (re_syncW env) (re_syncS env) f s of
             (Inl e, f1, s1) \<Rightarrow> (Err (EngOS e), seg_update a f1 s1 db)
           | (Inr _, f1, s1) \<Rightarrow>
               let db1 = seg_update a f1 s1 db;
                   nextID = db_nextID db1;
                   db2 = db1\<lparr>db_nextID := nextID + 1\<rparr> in
               (case createSegment (re_create env) (db_files db2) nextID of
                  (Inl e, _) \<Rightarrow> (Err (EngOS e), db2)
                | (Inr nxt, files) \<Rightarrow> publishActive env nxt (set_files files db2))))"

section \<open>Appending\<close>

text \<open>The monotonic clock of the writer; \<open>lastTstamp + 1\<close> is an \<open>int64\<close> sum.\<close>

definition nextTstamp :: "int \<Rightarrow> int \<Rightarrow> int" where
  "nextTstamp now lastTstamp = (if now \<le> lastTstamp then wrap64 (lastTstamp + 1) else now)"

text \<open>Append an encoded record to the active segment and flush: the offset it starts at.\<close>

definition appendFlush :: "write_env \<Rightarrow> bytes \<Rightarrow> db \<Rightarrow> (engine_error + u32 \<times> nat) \<times> db" where
  "appendFlush env encBuf db =
     (case active_seg db of
        None \<Rightarrow> (Err EngNilActive, db)
      | Some (a, f, s) \<Rightarrow>
          (case seg_append (we_append env) f s encBuf of
             (Inl e, f1, s1) \<Rightarrow> (Err (EngOS e), seg_update a f1 s1 db)
           | (Inr offset, f1, s1) \<Rightarrow>
               (case seg_flush (we_flush env) f1 s1 of
                  (Inl e, f2, s2) \<Rightarrow> (Err (EngOS e), seg_update a f2 s2 db)
                | (Inr _, f2, s2) \<Rightarrow> (Ok (seg_id s, offset), seg_update a f2 s2 db))))"

definition active_size :: "db \<Rightarrow> nat" where
  "active_size db = (case active_seg db of None \<Rightarrow> 0 | Some (a, f, s) \<Rightarrow> seg_size s)"

text \<open>The single-record part of \<open>handleOne\<close>, from the time stamp to the index update.\<close>

definition handleSingle :: "write_env \<Rightarrow> byte \<Rightarrow> bytes \<Rightarrow> bytes \<Rightarrow> db \<Rightarrow> (engine_error + bool) \<times> db" where
  "handleSingle env flag key value db =
     (let now = nextTstamp (we_now env) (db_lastTstamp db);
          db0 = db\<lparr>db_lastTstamp := now\<rparr>;
          rec = \<lparr>rec_tstamp = now, rec_flag = flag, rec_key = key, rec_value = value\<rparr> in
      (case (if int (active_size db0) + int (encodedSize rec) > o_MaxSegmentSize (db_opts db0)
             then rotateActive (we_rotate env) db0 else (Ok (), db0)) of
         (Inl e, db1) \<Rightarrow> (Err e, db1)
       | (Inr _, db1) \<Rightarrow>
           (case encode rec (replicate (encodedSize rec) 0) of
              Inl e \<Rightarrow> (Err (EngRecord e), db1)
            | Inr (_, encBuf) \<Rightarrow>
                (case appendFlush env encBuf db1 of
                   (Inl e, db2) \<Rightarrow> (Err e, db2)
                 | (Inr (fileID, offset), db2) \<Rightarrow>
                     (Ok True, db2\<lparr>db_keydir :=
                        (if flag = recordFlagTombstone then keydir_delete (db_keydir db2) key
                         else keydir_put (db_keydir db2) key
                           \<lparr>ke_fileID = fileID, ke_valuePos = int offset + int (recordHeaderSize + length key),
                            ke_valueLen = word_of_nat (length value), ke_tstamp = now\<rparr>)\<rparr>)))))"

text \<open>The loop of \<open>handleBatch\<close> that builds the index operations.\<close>

fun batchOps :: "u32 \<Rightarrow> nat \<Rightarrow> int \<Rightarrow> nat \<Rightarrow> batch_entry list \<Rightarrow> keydirOp list" where
  "batchOps fileID offset now bodyOff [] = []"
| "batchOps fileID offset now bodyOff (e # es) =
     (let valLen = (if be_delete e then 0 else length (be_value e));
          valuePos = int offset + int (recordHeaderSize + bodyOff + batchEntryHeaderSize + length (be_key e)) in
      (if be_delete e
       then \<lparr>op_key = be_key e, op_entry = \<lparr>ke_fileID = 0, ke_valuePos = 0, ke_valueLen = 0, ke_tstamp = 0\<rparr>, op_delete = True\<rparr>
       else \<lparr>op_key = be_key e,
             op_entry = \<lparr>ke_fileID = fileID, ke_valuePos = valuePos, ke_valueLen = word_of_nat valLen, ke_tstamp = now\<rparr>,
             op_delete = False\<rparr>)
      # batchOps fileID offset now (bodyOff + (batchEntryHeaderSize + length (be_key e) + valLen)) es)"

definition handleBatch :: "write_env \<Rightarrow> batch_entry list \<Rightarrow> db \<Rightarrow> (engine_error + bool) \<times> db" where
  "handleBatch env entries db =
     (let now = nextTstamp (we_now env) (db_lastTstamp db);
          db0 = db\<lparr>db_lastTstamp := now\<rparr>;
          encodedSize = recordHeaderSize + encodedBatchBodySize entries in
      (case (if active_size db0 > 0 \<and> int (active_size db0) + int encodedSize > o_MaxSegmentSize (db_opts db0)
             then rotateActive (we_rotate env) db0 else (Ok (), db0)) of
         (Inl e, db1) \<Rightarrow> (Err e, db1)
       | (Inr _, db1) \<Rightarrow>
           (case encodeBatchRecord (replicate encodedSize 0) now entries of
              Inl e \<Rightarrow> (Err (EngRecord e), db1)
            | Inr (_, encBuf) \<Rightarrow>
                (case appendFlush env encBuf db1 of
                   (Inl e, db2) \<Rightarrow> (Err e, db2)
                 | (Inr (fileID, offset), db2) \<Rightarrow>
                     (Ok True, db2\<lparr>db_keydir := keydir_applyBatch (db_keydir db2)
                        (batchOps fileID offset now batchCountSize entries)\<rparr>)))))"

section \<open>Compaction commit\<close>

record commit_env =
  ce_dirSync :: bool
  ce_manifest :: publish_fault
  ce_close :: "u32 \<Rightarrow> nat option"
  ce_remove :: "u32 \<Rightarrow> bool"
  ce_removeHint :: "u32 \<Rightarrow> bool"

definition ok_commit_env :: commit_env where
  "ok_commit_env = \<lparr>ce_dirSync = False, ce_manifest = NoFault, ce_close = \<lambda>_. None, ce_remove = \<lambda>_. False,
     ce_removeHint = \<lambda>_. False\<rparr>"

text \<open>The retirement of one old segment: close, and unlink it with its hint unless the manifest is uncertain.\<close>

definition retireSegment :: "commit_env \<Rightarrow> bool \<Rightarrow> db \<Rightarrow> segment \<Rightarrow> db" where
  "retireSegment env manifestUncertain db s =
     (let i = seg_id s;
          db1 = (case map_get (db_files db) i of
                   None \<Rightarrow> db
                 | Some f \<Rightarrow> set_files (map_set (db_files db) i (snd (seg_close (ce_close env i) False f s))) db) in
      if manifestUncertain then db1
      else
        let db2 = remove_file (ce_remove env i) i db1 in
        set_hints (snd (removeHintFile (ce_removeHint env i) (d_hints (db_disk db2)) i)) db2)"

definition handleCompactCommit :: "commit_env \<Rightarrow> compactCommit \<Rightarrow> db \<Rightarrow> (engine_error + unit) \<times> db" where
  "handleCompactCommit env cc db =
     (let candidateSet = map seg_id (cc_oldSegs cc);
          newLive = filter (\<lambda>i. i \<notin> set candidateSet) (map_keys (db_segments db)) @
            (case cc_newSeg cc of None \<Rightarrow> [] | Some s \<Rightarrow> [seg_id s]) in
      (case db_active db of
         None \<Rightarrow> (Err EngNilActive, db)
       | Some activeID \<Rightarrow>
           if cc_newSeg cc \<noteq> None \<and> ce_dirSync env then (Err EngDirSync, db)
           else
             let (r, mf) = writeManifest (ce_manifest env) (d_manifest (db_disk db)) newLive activeID in
             if r \<noteq> Ok () \<and> r \<noteq> Err ErrManifestPublishedButUncertain
             then (Err (EngManifest (projl r)), set_manifest mf db)
             else
               let manifestUncertain = (r \<noteq> Ok ());
                   db1 = set_manifest mf db;
                   segs1 = (case cc_newSeg cc of None \<Rightarrow> db_segments db1
                            | Some s \<Rightarrow> map_set (db_segments db1) (seg_id s) s);
                   kd1 = foldl (\<lambda>k r. snd (keydir_compareAndSwap k (rw_key r) (rw_oldEntry r) (rw_newEntry r)))
                           (db_keydir db1) (cc_rewrites cc);
                   segs2 = foldl (\<lambda>m s. map_del m (seg_id s)) segs1 (cc_oldSegs cc);
                   db2 = db1\<lparr>db_segments := segs2, db_keydir := kd1\<rparr> in
               (Ok (), foldl (retireSegment env manifestUncertain) db2 (cc_oldSegs cc))))"

section \<open>The writer's dispatch\<close>

record request_env =
  qe_write :: write_env
  qe_commit :: commit_env

definition ok_request_env :: "int \<Rightarrow> request_env" where
  "ok_request_env now = \<lparr>qe_write = ok_write_env now, qe_commit = ok_commit_env\<rparr>"

text \<open>\<open>handleOne\<close>: \<open>Ok touched\<close> says whether bytes were appended to the active segment.\<close>

definition handleOne :: "request_env \<Rightarrow> writeRequest \<Rightarrow> db \<Rightarrow> (engine_error + bool) \<times> db" where
  "handleOne env req db =
     (if db_writesDisabled db then (Err ErrWritesDisabled, db)
      else (case req of
        WBatch entries \<Rightarrow> handleBatch (qe_write env) entries db
      | WCompactCommit cc \<Rightarrow>
          (case handleCompactCommit (qe_commit env) cc db of
             (Inl e, db') \<Rightarrow> (Err e, db') | (Inr _, db') \<Rightarrow> (Ok False, db'))
      | WPut key value \<Rightarrow> handleSingle (qe_write env) recordFlagPut key value db
      | WDelete key \<Rightarrow> handleSingle (qe_write env) recordFlagTombstone key [] db))"

fun handleAll :: "(request_env \<times> writeRequest) list \<Rightarrow> db \<Rightarrow> (engine_error + bool) list \<times> db" where
  "handleAll [] db = ([], db)"
| "handleAll ((env, req) # burst) db =
     (let (r, db1) = handleOne env req db; (rs, db2) = handleAll burst db1 in (r # rs, db2))"

definition reply_of :: "engine_error + bool \<Rightarrow> engine_error + unit" where
  "reply_of r = (case r of Inl e \<Rightarrow> Err e | Inr _ \<Rightarrow> Ok ())"

text \<open>\<open>processBurst\<close>: the replies in request order. The faults are those of the final fsync.\<close>

definition processBurst ::
  "nat option \<Rightarrow> bool \<Rightarrow> (request_env \<times> writeRequest) list \<Rightarrow> db \<Rightarrow> (engine_error + unit) list \<times> db" where
  "processBurst wfault sfault burst db =
     (let (results, db1) = handleAll burst db in
      if (\<exists>r \<in> set results. r = Ok True) \<and> o_SyncOnPut (db_opts db1) then
        (case active_seg db1 of
           None \<Rightarrow> (map (\<lambda>r. if r = Ok True then Err EngNilActive else reply_of r) results, db1)
         | Some (a, f, s) \<Rightarrow>
             (case seg_sync wfault sfault f s of
                (Inl e, f', s') \<Rightarrow>
                  (map (\<lambda>r. if r = Ok True then Err (EngFsync e) else reply_of r) results, seg_update a f' s' db1)
              | (Inr _, f', s') \<Rightarrow> (map reply_of results, seg_update a f' s' db1)))
      else (map reply_of results, db1))"

section \<open>The caller's side\<close>

record submit_env =
  se_req :: request_env
  se_syncW :: "nat option"
  se_syncS :: bool

definition ok_submit_env :: "int \<Rightarrow> submit_env" where
  "ok_submit_env now = \<lparr>se_req = ok_request_env now, se_syncW = None, se_syncS = False\<rparr>"

definition submit :: "submit_env \<Rightarrow> writeRequest \<Rightarrow> db \<Rightarrow> (engine_error + unit) \<times> db" where
  "submit env req db =
     (if db_closed db then (Err ErrDBClosed, db)
      else if db_writesDisabled db then (Err ErrWritesDisabled, db)
      else (case processBurst (se_syncW env) (se_syncS env) [(se_req env, req)] db of
              (rs, db') \<Rightarrow> (hd rs, db')))"

definition validateKeyValue :: "bytes \<Rightarrow> bytes \<Rightarrow> engine_error + unit" where
  "validateKeyValue key value =
     (if length key = 0 then Err ErrEmptyKey
      else if length key > maxKeyLen then Err ErrKeyTooLarge
      else if length value > maxValLen then Err ErrValueTooLarge
      else Ok ())"

definition Put :: "submit_env \<Rightarrow> bytes \<Rightarrow> bytes \<Rightarrow> db \<Rightarrow> (engine_error + unit) \<times> db" where
  "Put env key value db =
     (case validateKeyValue key value of
        Inl e \<Rightarrow> (Err e, db) | Inr _ \<Rightarrow> submit env (WPut key value) db)"

definition Delete :: "submit_env \<Rightarrow> bytes \<Rightarrow> db \<Rightarrow> (engine_error + unit) \<times> db" where
  "Delete env key db =
     (if length key = 0 then (Err ErrEmptyKey, db)
      else if length key > maxKeyLen then (Err ErrKeyTooLarge, db)
      else submit env (WDelete key) db)"

fun validateEntries :: "nat \<Rightarrow> batch_entry list \<Rightarrow> engine_error + unit" where
  "validateEntries i [] = Ok ()"
| "validateEntries i (e # es) =
     (if length (be_key e) = 0 then Err (ErrInvalidBatchEntry i ErrEmptyKey)
      else if length (be_key e) > maxKeyLen then Err (ErrInvalidBatchEntry i ErrKeyTooLarge)
      else if \<not> be_delete e \<and> length (be_value e) > maxValLen then Err (ErrInvalidBatchEntry i ErrValueTooLarge)
      else validateEntries (Suc i) es)"

definition BatchPut :: "submit_env \<Rightarrow> batch_entry list \<Rightarrow> db \<Rightarrow> (engine_error + unit) \<times> db" where
  "BatchPut env entries db =
     (if length entries = 0 then (Ok (), db)
      else if length entries > maxBatchEntries then (Err ErrBatchTooLarge, db)
      else (case validateEntries 0 entries of
              Inl e \<Rightarrow> (Err e, db)
            | Inr _ \<Rightarrow>
                if int (recordHeaderSize + encodedBatchBodySize entries) > o_MaxBatchEncodedSize (db_opts db)
                then (Err ErrBatchTooLarge, db)
                else submit env (WBatch entries) db))"

end
