(* ===== verification/Writer_Inv.thy ===== *)
theory Writer_Inv
  imports Writer
begin

text \<open>
  The invariant of an open database and the refinement of the write path: each handler
  either appends exactly one record to the active log and carries out its updates on the
  abstract store, or leaves the store as it is. \<open>db_inv L db m\<close> ties the three levels:
  \<open>L\<close> gives the log of every segment, \<open>m\<close> is the abstract key-value store.
\<close>

section \<open>Segments that hold a log\<close>

text \<open>
  A segment holds a log: its file is the log, with nothing buffered; or a write to it has
  failed, the file may end in a part of that record, and the writer refuses further writes.
\<close>

definition seg_good :: "log_item list \<Rightarrow> osfile \<Rightarrow> segment \<Rightarrow> bool" where
  "seg_good is f s \<longleftrightarrow>
     (seg_ok f s \<and> f_data f = log_bytes is \<and> (seg_bw s = None \<or> seg_bw s = Some [])) \<or>
     (seg_werr s \<and> seg_bw s \<noteq> None \<and> f_synced f \<le> length (f_data f) \<and>
      (\<exists>it m. valid_item it \<and> m < item_size it \<and> f_data f = log_bytes is @ take m (item_bytes it)))"

lemma seg_good_prefix: "seg_good is f s \<Longrightarrow> \<exists>d. f_data f = log_bytes is @ d"
  by (auto simp: seg_good_def)

lemma seg_good_whole:
  "seg_good is f s \<Longrightarrow> \<not> seg_werr s \<Longrightarrow> seg_ok f s \<and> f_data f = log_bytes is \<and> (seg_bw s = None \<or> seg_bw s = Some [])"
  by (auto simp: seg_good_def)

lemma seg_good_synced: "seg_good is f s \<Longrightarrow> f_synced f \<le> length (f_data f)"
  by (auto simp: seg_good_def seg_ok_def)

text \<open>A failed writer stays failed.\<close>

lemma seg_werr_sticky:
  assumes "seg_werr s" "seg_bw s \<noteq> None"
  shows "seg_append w f s p = (Err ErrOS, f, s)" "seg_flush w f s = (Err ErrOS, f, s)"
    "seg_sync w b f s = (Err ErrOS, f, s)"
  using assms by (auto simp: seg_append_def seg_flush_def seg_sync_def)

lemma bufio_write_empty: "bufio_write [] p = (if length p \<le> bufioSize then ([], p) else (p, []))"
  by (simp add: bufio_write_def)

text \<open>Append and flush on a segment with nothing buffered: all of the record, or a strict part of it.\<close>

lemma append_flush_cases:
  assumes "seg_ok f s" "seg_bw s = Some []" "seg_append w1 f s p = (r1, f1, s1)"
  shows "case r1 of
      Inl e \<Rightarrow> \<exists>m < length p. f1 = f\<lparr>f_data := f_data f @ take m p\<rparr> \<and> seg_werr s1 \<and> seg_bw s1 \<noteq> None \<and> seg_id s1 = seg_id s
    | Inr off \<Rightarrow> off = length (f_data f) \<and>
        (\<forall>r2 f2 s2. seg_flush w2 f1 s1 = (r2, f2, s2) \<longrightarrow>
          (case r2 of
             Inl e \<Rightarrow> \<exists>m < length p. f2 = f\<lparr>f_data := f_data f @ take m p\<rparr> \<and> seg_werr s2 \<and> seg_bw s2 \<noteq> None \<and> seg_id s2 = seg_id s
           | Inr _ \<Rightarrow> f2 = f\<lparr>f_data := f_data f @ p\<rparr> \<and> seg_ok f2 s2 \<and> seg_bw s2 = Some [] \<and> seg_id s2 = seg_id s))"
  using assms
  by (auto simp: seg_append_def bufio_write_empty seg_flush_def seg_ok_def split: if_splits option.splits)

section \<open>The invariant\<close>

definition segs_inv :: "(u32 \<Rightarrow> log_item list) \<Rightarrow> db \<Rightarrow> bool" where
  "segs_inv L db \<longleftrightarrow> map_ok (db_files db) \<and> map_ok (db_segments db) \<and>
     (\<forall>i s. map_get (db_segments db) i = Some s \<longrightarrow>
        seg_id s = i \<and> (\<exists>f. map_get (db_files db) i = Some f \<and> seg_good (L i) f s)) \<and>
     (\<exists>a s. db_active db = Some a \<and> map_get (db_segments db) a = Some s \<and> seg_bw s \<noteq> None) \<and>
     (\<forall>i s. map_get (db_segments db) i = Some s \<longrightarrow> seg_werr s \<longrightarrow> db_active db = Some i) \<and>
     (\<forall>i it. it \<in> set (L i) \<longrightarrow> valid_item it \<and> item_updates it \<noteq> []) \<and>
     (\<forall>i. map_get (db_segments db) i = None \<longrightarrow> L i = [])"

text \<open>The logs of the live segments, as the index sees them.\<close>

definition live_contents :: "(u32 \<Rightarrow> log_item list) \<Rightarrow> db \<Rightarrow> u32 \<rightharpoonup> bytes" where
  "live_contents L db i = (if map_get (db_segments db) i = None then None else Some (log_bytes (L i)))"

definition db_inv :: "(u32 \<Rightarrow> log_item list) \<Rightarrow> db \<Rightarrow> store \<Rightarrow> bool" where
  "db_inv L db m \<longleftrightarrow> segs_inv L db \<and> represents (live_contents L db) (db_keydir db) m \<and> indexed L (db_keydir db)"

lemma segs_invD:
  assumes "segs_inv L db"
  shows "map_ok (db_files db)" "map_ok (db_segments db)"
    and "map_get (db_segments db) i = Some s \<Longrightarrow> seg_id s = i"
    and "map_get (db_segments db) i = Some s \<Longrightarrow> \<exists>f. map_get (db_files db) i = Some f \<and> seg_good (L i) f s"
    and "it \<in> set (L i) \<Longrightarrow> valid_item it" "it \<in> set (L i) \<Longrightarrow> item_updates it \<noteq> []"
    and "map_get (db_segments db) i = None \<Longrightarrow> L i = []"
    and "map_get (db_segments db) i = Some s \<Longrightarrow> seg_werr s \<Longrightarrow> db_active db = Some i"
  using assms unfolding segs_inv_def by blast+

lemma segs_inv_active:
  assumes "segs_inv L db"
  obtains a f s where "active_seg db = Some (a, f, s)" "db_active db = Some a" "map_get (db_segments db) a = Some s"
    "map_get (db_files db) a = Some f" "seg_good (L a) f s" "seg_id s = a" "seg_bw s \<noteq> None"
proof -
  obtain a s where a: "db_active db = Some a" "map_get (db_segments db) a = Some s" "seg_bw s \<noteq> None"
    using assms by (auto simp: segs_inv_def)
  obtain f where f: "map_get (db_files db) a = Some f" "seg_good (L a) f s"
    using segs_invD(4) [OF assms a(2)] by blast
  have "active_seg db = Some (a, f, s)" using a f by (simp add: active_seg_Some)
  with a f segs_invD(3) [OF assms a(2)] that show ?thesis by blast
qed

text \<open>Replacing the file and handle of the active segment by good ones keeps the invariant.\<close>

lemma segs_inv_update:
  assumes "segs_inv L db" "db_active db = Some a" "map_get (db_segments db) a \<noteq> None"
    and "seg_good is f s" "seg_id s = a" "seg_bw s \<noteq> None" "\<forall>it \<in> set is. valid_item it \<and> item_updates it \<noteq> []"
  shows "segs_inv (L(a := is)) (seg_update a f s db)"
proof -
  note ok = segs_invD(1,2) [OF assms(1)]
  show ?thesis
    unfolding segs_inv_def
    using assms(2,4-7) ok segs_invD [OF assms(1)] by (auto simp: map_index_simps)
qed

lemma segs_inv_cong:
  assumes "segs_inv L db" "db_disk db' = db_disk db" "db_segments db' = db_segments db" "db_active db' = db_active db"
  shows "segs_inv L db'"
  using assms by (simp add: segs_inv_def)

text \<open>What the index can rely on: the logs of live segments only grow.\<close>

lemma db_inv_write:
  assumes "db_inv L db m" "valid_item it" "item_updates it \<noteq> []"
    and "db_active db = Some a" "map_get (db_segments db) a \<noteq> None"
    and "seg_good (L a @ [it]) f s" "seg_id s = a" "seg_bw s \<noteq> None"
    and "db' = (seg_update a f s db)\<lparr>db_keydir := write_item a (length (log_bytes (L a))) it (db_keydir db)\<rparr>"
  shows "db_inv (L(a := L a @ [it])) db' (apply_updates m (item_updates it))"
proof -
  have si: "segs_inv L db" using assms(1) by (simp add: db_inv_def)
  have "segs_inv (L(a := L a @ [it])) (seg_update a f s db)"
    by (rule segs_inv_update [OF si assms(4-8)]) (use assms(2,3) segs_invD(5,6) [OF si] in auto)
  then have "segs_inv (L(a := L a @ [it])) db'" by (rule segs_inv_cong) (simp_all add: assms(9))
  moreover have "live_contents (L(a := L a @ [it])) db' = (live_contents L db)(a \<mapsto> log_bytes (L a) @ item_bytes it)"
    using assms(5) segs_invD(2) [OF si] by (auto simp: live_contents_def assms(9) map_index_simps fun_eq_iff)
  moreover have "represents ((live_contents L db)(a \<mapsto> log_bytes (L a) @ item_bytes it))
      (write_item a (length (log_bytes (L a))) it (db_keydir db)) (apply_updates m (item_updates it))"
    using assms(1,2,5) by (intro represents_write) (auto simp: db_inv_def live_contents_def)
  moreover have "indexed (L(a := L a @ [it])) (db_keydir db')"
    using assms(1) by (simp add: assms(9) db_inv_def represents_def indexed_write)
  ultimately show ?thesis by (simp add: db_inv_def assms(9))
qed

text \<open>A step that fails on the active segment, and leaves the index alone, keeps the store.\<close>

lemma db_inv_failed:
  assumes "db_inv L db m" "db_active db = Some a" "map_get (db_segments db) a \<noteq> None"
    and "seg_good (L a) f s" "seg_id s = a" "seg_bw s \<noteq> None"
  shows "db_inv L (seg_update a f s db) m"
proof -
  have si: "segs_inv L db" using assms(1) by (simp add: db_inv_def)
  have "segs_inv (L(a := L a)) (seg_update a f s db)"
    by (rule segs_inv_update [OF si assms(2-6)]) (use segs_invD(5,6) [OF si] in auto)
  moreover have "live_contents L (seg_update a f s db) = live_contents L db"
    using assms(3) segs_invD(2) [OF si] by (auto simp: live_contents_def map_index_simps fun_eq_iff)
  ultimately show ?thesis using assms(1) by (simp add: db_inv_def)
qed

text \<open>Fields the invariant does not speak about.\<close>

lemma db_inv_cong:
  assumes "db_inv L db m" "db_files db' = db_files db" "db_segments db' = db_segments db"
    and "db_active db' = db_active db" "db_keydir db' = db_keydir db"
  shows "db_inv L db' m"
proof -
  have "live_contents L db' = live_contents L db" using assms(3) by (simp add: live_contents_def fun_eq_iff)
  then show ?thesis using assms by (simp add: db_inv_def segs_inv_def)
qed

text \<open>A file that is not a live segment's is irrelevant.\<close>

lemma db_inv_files:
  assumes "db_inv L db m" "map_ok (db_files db')" "db_segments db' = db_segments db"
    and "db_active db' = db_active db" "db_keydir db' = db_keydir db"
    and "\<And>i. map_get (db_segments db) i \<noteq> None \<Longrightarrow> map_get (db_files db') i = map_get (db_files db) i"
  shows "db_inv L db' m"
proof -
  have "live_contents L db' = live_contents L db" using assms(3) by (simp add: live_contents_def fun_eq_iff)
  moreover have "segs_inv L db'"
    using assms(1-4,6) by (simp add: db_inv_def segs_inv_def)
  ultimately show ?thesis using assms by (simp add: db_inv_def)
qed

section \<open>Appending a record\<close>

lemma seg_good_torn:
  assumes "seg_ok f s" "f_data f = log_bytes is" "valid_item it" "n < item_size it"
    and "f' = f\<lparr>f_data := f_data f @ take n (item_bytes it)\<rparr>" "seg_werr s'" "seg_bw s' \<noteq> None"
  shows "seg_good is f' s'"
  using assms by (auto simp: seg_good_def seg_ok_def)

lemma appendFlush_inv:
  assumes "db_inv L db m" "valid_item it" "appendFlush env (item_bytes it) db = (r, db')"
  shows "case r of
      Inl e \<Rightarrow> db_inv L db' m \<and> db_writesDisabled db' = db_writesDisabled db
    | Inr (i, off) \<Rightarrow> \<exists>f s. db_active db = Some i \<and> map_get (db_segments db) i \<noteq> None \<and>
        off = length (log_bytes (L i)) \<and> db' = seg_update i f s db \<and> seg_good (L i @ [it]) f s \<and>
        seg_id s = i \<and> seg_bw s = Some [] \<and> \<not> seg_werr s"
proof -
  have "segs_inv L db" using assms(1) by (simp add: db_inv_def)
  then obtain a f s where a: "active_seg db = Some (a, f, s)" "db_active db = Some a"
    "map_get (db_segments db) a = Some s" "seg_good (L a) f s" "seg_id s = a" "seg_bw s \<noteq> None"
    by (rule segs_inv_active)
  have seg: "map_get (db_segments db) a \<noteq> None" using a(3) by simp
  have fail: "db_inv L (seg_update a f' s' db) m" if "seg_good (L a) f' s'" "seg_id s' = a" "seg_bw s' \<noteq> None" for f' s'
    using db_inv_failed [OF assms(1) a(2) seg] that by blast
  show ?thesis
  proof (cases "seg_werr s")
    case True
    then have "appendFlush env (item_bytes it) db = (Err (EngOS ErrOS), seg_update a f s db)"
      using a(1,6) seg_werr_sticky(1) [OF True a(6)] by (simp add: appendFlush_def)
    then show ?thesis using assms(3) fail [OF a(4-6)] by auto
  next
    case False
    then have g: "seg_ok f s" "f_data f = log_bytes (L a)" "seg_bw s = Some []"
      using seg_good_whole [OF a(4)] a(6) by auto
    obtain r1 f1 s1 where ap: "seg_append (we_append env) f s (item_bytes it) = (r1, f1, s1)"
      by (metis prod_cases3)
    obtain r2 f2 s2 where fl: "seg_flush (we_flush env) f1 s1 = (r2, f2, s2)" by (metis prod_cases3)
    note c = append_flush_cases [OF g(1,3) ap, of "we_flush env"]
    show ?thesis
    proof (cases r1)
      case (Inl e)
      with c obtain n where n: "n < item_size it" "f1 = f\<lparr>f_data := f_data f @ take n (item_bytes it)\<rparr>"
        "seg_werr s1" "seg_bw s1 \<noteq> None" "seg_id s1 = seg_id s" by auto
      then have "seg_good (L a) f1 s1" using seg_good_torn [OF g(1,2) assms(2)] by blast
      then show ?thesis
        using fail n a(5) assms(3) a(1) ap Inl by (auto simp: appendFlush_def)
    next
      case (Inr off)
      then have off: "off = length (log_bytes (L a))" using c g(2) by simp
      show ?thesis
      proof (cases r2)
        case (Inl e)
        with c fl Inr obtain n where n: "n < item_size it" "f2 = f\<lparr>f_data := f_data f @ take n (item_bytes it)\<rparr>"
          "seg_werr s2" "seg_bw s2 \<noteq> None" "seg_id s2 = seg_id s" by auto
        then have "seg_good (L a) f2 s2" using seg_good_torn [OF g(1,2) assms(2)] by blast
        then show ?thesis
          using fail n a(5) assms(3) a(1) ap fl Inl Inr by (auto simp: appendFlush_def)
      next
        case (Inr u)
        with c fl \<open>r1 = Inr off\<close> have n: "f2 = f\<lparr>f_data := f_data f @ item_bytes it\<rparr>" "seg_ok f2 s2"
          "seg_bw s2 = Some []" "seg_id s2 = seg_id s" by auto
        then have "seg_good (L a @ [it]) f2 s2" "\<not> seg_werr s2" using g(2) by (auto simp: seg_good_def seg_ok_def)
        then show ?thesis
          using a assms(3) ap fl Inr \<open>r1 = Inr off\<close> off n seg
          by (auto simp: appendFlush_def intro!: exI [of _ f2] exI [of _ s2])
      qed
    qed
  qed
qed

section \<open>Rotation\<close>

lemma seg_sync_good:
  assumes "seg_good is f s" "seg_sync w b f s = (r, f', s')" "seg_bw s \<noteq> None"
  shows "seg_good is f' s'" "seg_id s' = seg_id s" "seg_bw s' \<noteq> None"
    "r = Ok () \<Longrightarrow> \<not> seg_werr s' \<and> f_synced f' = length (log_bytes is)"
    "seg_werr s' \<longleftrightarrow> seg_werr s"
proof -
  have "seg_good is f' s' \<and> seg_id s' = seg_id s \<and> seg_bw s' \<noteq> None \<and>
      (r = Ok () \<longrightarrow> \<not> seg_werr s' \<and> f_synced f' = length (log_bytes is)) \<and> (seg_werr s' \<longleftrightarrow> seg_werr s)"
  proof (cases "seg_werr s")
    case True
    then show ?thesis using assms seg_werr_sticky(3) [OF True assms(3), of w b f] by auto
  next
    case False
    then have "seg_ok f s" "f_data f = log_bytes is" "seg_bw s = Some []"
      using seg_good_whole [OF assms(1)] assms(3) by auto
    then show ?thesis
      using assms(2) False
      by (auto simp: seg_sync_def seg_flush_def fullSync_def seg_good_def seg_ok_def split: option.splits if_splits)
  qed
  then show "seg_good is f' s'" "seg_id s' = seg_id s" "seg_bw s' \<noteq> None"
    "r = Ok () \<Longrightarrow> \<not> seg_werr s' \<and> f_synced f' = length (log_bytes is)" "seg_werr s' \<longleftrightarrow> seg_werr s" by auto
qed

lemma createSegment_cases:
  "createSegment b files i = (r, files') \<Longrightarrow>
   (case r of Inl e \<Rightarrow> files' = files
    | Inr s \<Rightarrow> s = new_segment i \<and> map_get files i = None \<and> files' = map_set files i new_file)"
  by (auto simp: createSegment_def split: if_splits)

lemma live_contents_new:
  assumes "segs_inv L db" "map_get (db_segments db) i = None"
    and "db_segments db' = map_set (db_segments db) i s"
  shows "live_contents L db' = (live_contents L db)(i \<mapsto> [])"
  using assms segs_invD(2,7) [OF assms(1)] by (auto simp: live_contents_def map_index_simps fun_eq_iff)

text \<open>Publishing a fresh, empty segment as the active one.\<close>

lemma db_inv_new_active:
  assumes "db_inv L db m" "map_get (db_files db) i = None"
    and "db_files db' = map_set (db_files db) i new_file" "db_segments db' = map_set (db_segments db) i (new_segment i)"
    and "db_active db' = Some i" "db_keydir db' = db_keydir db"
    and "\<And>j s. map_get (db_segments db) j = Some s \<Longrightarrow> \<not> seg_werr s"
  shows "db_inv L db' m"
proof -
  have si: "segs_inv L db" and rep: "represents (live_contents L db) (db_keydir db) m" and idx: "indexed L (db_keydir db)"
    using assms(1) by (simp_all add: db_inv_def)
  have none: "map_get (db_segments db) i = None"
    using segs_invD(4) [OF si] assms(2) by (cases "map_get (db_segments db) i") force+
  then have L: "L i = []" by (rule segs_invD(7) [OF si])
  have "seg_good [] new_file (new_segment i)"
    by (simp add: seg_good_def seg_ok_def new_file_def new_segment_def)
  then have "segs_inv L db'"
    unfolding segs_inv_def using assms(3-5,7) segs_invD [OF si] L
    by (auto simp: map_index_simps new_segment_def)
  moreover have "represents ((live_contents L db)(i \<mapsto> [])) (db_keydir db) m"
    by (rule represents_mono [OF rep]) (use none in \<open>auto simp: live_contents_def\<close>)
  ultimately show ?thesis
    using live_contents_new [OF si none assms(4)] assms(6) idx by (simp add: db_inv_def)
qed

lemma remove_file_simps [simp]:
  "db_segments (remove_file b i d) = db_segments d" "db_active (remove_file b i d) = db_active d"
  "db_keydir (remove_file b i d) = db_keydir d" "db_opts (remove_file b i d) = db_opts d"
  "db_lastTstamp (remove_file b i d) = db_lastTstamp d" "db_closed (remove_file b i d) = db_closed d"
  by (simp_all add: remove_file_def)

lemma publishActive_inv:
  assumes "db_inv L db m" "map_get (db_files db) i = None" "publishActive env (new_segment i) (set_files (map_set (db_files db) i new_file) db) = (r, db')"
    and "\<And>j s. map_get (db_segments db) j = Some s \<Longrightarrow> \<not> seg_werr s"
  shows "db_inv L db' m" "db_lastTstamp db' = db_lastTstamp db" "db_opts db' = db_opts db" "db_closed db' = db_closed db"
proof -
  let ?db3 = "set_files (map_set (db_files db) i new_file) db"
  have si: "segs_inv L db" using assms(1) by (simp add: db_inv_def)
  note ok = segs_invD(1) [OF si]
  have ne: "map_get (db_segments db) j \<noteq> None \<Longrightarrow> j \<noteq> i" for j using segs_invD(4) [OF si] assms(2) by fastforce
  obtain r3 mf where wm: "writeManifest (re_manifest env) (d_manifest (db_disk ?db3)) (map_keys (db_segments ?db3) @ [i]) i = (r3, mf)"
    by (metis surj_pair)
  have extra: "db_inv L d m" if "map_ok (db_files d)" "db_segments d = db_segments db" "db_active d = db_active db"
    "db_keydir d = db_keydir db" "\<And>j. j \<noteq> i \<Longrightarrow> map_get (db_files d) j = map_get (db_files db) j" for d
    by (rule db_inv_files [OF assms(1) that(1-4)]) (use that(5) ne in auto)
  have "db' \<in> {remove_file (re_remove env) i ?db3, (set_manifest mf ?db3)\<lparr>db_writesDisabled := True\<rparr>,
      remove_file (re_remove env) i (set_manifest mf ?db3),
      (set_manifest mf ?db3)\<lparr>db_segments := map_set (db_segments ?db3) i (new_segment i), db_active := Some i\<rparr>}"
    using assms(3) wm by (auto simp: publishActive_def Let_def new_segment_def split: sum.splits if_splits)
  moreover have "db_inv L (remove_file b i ?db3) m" "db_inv L (remove_file b i (set_manifest mf ?db3)) m"
    "db_inv L ((set_manifest mf ?db3)\<lparr>db_writesDisabled := True\<rparr>) m" for b
    using ok by (auto intro!: extra simp: map_index_simps remove_file_def)
  moreover have "db_inv L ((set_manifest mf ?db3)\<lparr>db_segments := map_set (db_segments ?db3) i (new_segment i), db_active := Some i\<rparr>) m"
    by (rule db_inv_new_active [OF assms(1,2)]) (use assms(4) in auto)
  ultimately show "db_inv L db' m" "db_lastTstamp db' = db_lastTstamp db" "db_opts db' = db_opts db" "db_closed db' = db_closed db"
    by auto
qed

lemma rotateActive_inv:
  assumes "db_inv L db m" "rotateActive env db = (r, db')"
  shows "db_inv L db' m" "db_lastTstamp db' = db_lastTstamp db" "db_opts db' = db_opts db" "db_closed db' = db_closed db"
proof -
  have si: "segs_inv L db" using assms(1) by (simp add: db_inv_def)
  then obtain a f s where a: "active_seg db = Some (a, f, s)" "db_active db = Some a"
    "map_get (db_segments db) a = Some s" "seg_good (L a) f s" "seg_id s = a" "seg_bw s \<noteq> None"
    by (rule segs_inv_active)
  obtain r1 f1 s1 where sy: "seg_sync (re_syncW env) (re_syncS env) f s = (r1, f1, s1)" by (metis prod_cases3)
  note g = seg_sync_good [OF a(4) sy a(6)]
  let ?db1 = "seg_update a f1 s1 db"
  let ?db2 = "?db1\<lparr>db_nextID := db_nextID db + 1\<rparr>"
  have inv1: "db_inv L ?db1 m"
    using db_inv_failed [OF assms(1) a(2) _ g(1) _ g(3)] a(3,5) g(2) by simp
  have inv2: "db_inv L ?db2 m" by (rule db_inv_cong [OF inv1]) simp_all
  obtain r2 files where cr: "createSegment (re_create env) (db_files ?db2) (db_nextID db) = (r2, files)" by (metis surj_pair)
  note c = createSegment_cases [OF cr]
  have "db_inv L db' m \<and> db_lastTstamp db' = db_lastTstamp db \<and> db_opts db' = db_opts db \<and> db_closed db' = db_closed db"
  proof (cases "\<exists>u nxt. r1 = Inr u \<and> r2 = Inr nxt")
    case False
    then have "db' = ?db1 \<or> db' = ?db2"
      using assms(2) a(1) sy cr by (auto simp: rotateActive_def Let_def split: sum.splits)
    then show ?thesis using inv1 inv2 by auto
  next
    case True
    then obtain nxt where r: "r1 = Inr ()" "r2 = Inr nxt" by auto
    then have n: "nxt = new_segment (db_nextID db)" "map_get (db_files ?db2) (db_nextID db) = None"
      "files = map_set (db_files ?db2) (db_nextID db) new_file" using c by auto
    have "publishActive env (new_segment (db_nextID db)) (set_files (map_set (db_files ?db2) (db_nextID db) new_file) ?db2) = (r, db')"
      using assms(2) a(1) sy cr r n by (simp add: rotateActive_def Let_def)
    moreover have "\<not> seg_werr s'" if "map_get (db_segments ?db2) j = Some s'" for j s'
      using that g(4) r segs_invD(2,8) [OF si] a(2) by (auto simp: map_index_simps split: if_splits)
    ultimately show ?thesis using publishActive_inv [OF inv2 n(2)] by simp
  qed
  then show "db_inv L db' m" "db_lastTstamp db' = db_lastTstamp db" "db_opts db' = db_opts db" "db_closed db' = db_closed db"
    by simp_all
qed

section \<open>Requests\<close>

text \<open>What the callers let through: requests within the size limits.\<close>

fun valid_request :: "writeRequest \<Rightarrow> bool" where
  "valid_request (WPut key value) \<longleftrightarrow> 0 < length key \<and> length key \<le> maxKeyLen \<and> length value \<le> maxValLen"
| "valid_request (WDelete key) \<longleftrightarrow> 0 < length key \<and> length key \<le> maxKeyLen"
| "valid_request (WBatch es) \<longleftrightarrow> es \<noteq> [] \<and> (\<forall>e \<in> set es. valid_entry e) \<and> length es \<le> maxBatchEntries \<and>
     length (batch_body es) \<le> maxBatchBodyLen"
| "valid_request (WCompactCommit cc) \<longleftrightarrow> False"

text \<open>The record a request becomes, and its updates of the store.\<close>

fun request_item :: "int \<Rightarrow> writeRequest \<Rightarrow> log_item" where
  "request_item ts (WPut key value) = Single \<lparr>rec_tstamp = ts, rec_flag = recordFlagPut, rec_key = key, rec_value = value\<rparr>"
| "request_item ts (WDelete key) = Single \<lparr>rec_tstamp = ts, rec_flag = recordFlagTombstone, rec_key = key, rec_value = []\<rparr>"
| "request_item ts (WBatch es) = Batch ts es"
| "request_item ts (WCompactCommit cc) = Batch ts []"

fun request_updates :: "writeRequest \<Rightarrow> (bytes \<times> bytes option) list" where
  "request_updates (WPut key value) = [(key, Some value)]"
| "request_updates (WDelete key) = [(key, None)]"
| "request_updates (WBatch es) = map (\<lambda>e. (be_key e, if be_delete e then None else Some (be_value e))) es"
| "request_updates (WCompactCommit cc) = []"

definition request_tstamp :: "request_env \<Rightarrow> db \<Rightarrow> int" where
  "request_tstamp env db = nextTstamp (we_now (qe_write env)) (db_lastTstamp db)"

lemma nextTstamp_range: "int64_range now \<Longrightarrow> int64_range (nextTstamp now l)"
  by (simp add: nextTstamp_def)

lemma request_item_simps:
  "item_updates (request_item ts req) = request_updates req" "item_tstamp (request_item ts req) = ts"
  by (cases req; simp add: record_flags)+

lemma valid_request_item:
  "valid_request req \<Longrightarrow> int64_range ts \<Longrightarrow> valid_item (request_item ts req) \<and> request_updates req \<noteq> []"
  by (cases req) (auto simp: valid_record_def valid_batch_def record_consts)

lemma handleOne_cases:
  "valid_request req \<Longrightarrow> (\<exists>key value. req = WPut key value) \<or> (\<exists>key. req = WDelete key) \<or> (\<exists>es. req = WBatch es)"
  by (cases req) auto

text \<open>The active segment, and that its writer has not failed.\<close>

definition active_ok :: "db \<Rightarrow> u32 \<Rightarrow> bool" where
  "active_ok db a \<longleftrightarrow> db_active db = Some a \<and> (\<forall>s. map_get (db_segments db) a = Some s \<longrightarrow> \<not> seg_werr s)"

text \<open>The part shared by every record write: append, flush, and update the index.\<close>

lemma append_index_inv:
  assumes "db_inv L db m" "valid_item it" "item_updates it \<noteq> []" "appendFlush env (item_bytes it) db = (r, db1)"
    and "\<And>i off. k' i off = write_item i off it (db_keydir db)"
  shows "case r of
      Inl e \<Rightarrow> db_inv L db1 m
    | Inr (i, off) \<Rightarrow> active_ok (db1\<lparr>db_keydir := k' i off\<rparr>) i \<and>
        db_inv (L(i := L i @ [it])) (db1\<lparr>db_keydir := k' i off\<rparr>) (apply_updates m (item_updates it))"
proof (cases r)
  case (Inl e)
  then show ?thesis using appendFlush_inv [OF assms(1,2,4)] by simp
next
  case (Inr p)
  obtain i off where p: "p = (i, off)" by (cases p)
  obtain f s where c: "db_active db = Some i" "map_get (db_segments db) i \<noteq> None" "off = length (log_bytes (L i))"
    "db1 = seg_update i f s db" "seg_good (L i @ [it]) f s" "seg_id s = i" "seg_bw s \<noteq> None" "\<not> seg_werr s"
    using appendFlush_inv [OF assms(1,2,4)] Inr p by auto
  have "db_inv (L(i := L i @ [it])) (db1\<lparr>db_keydir := k' i off\<rparr>) (apply_updates m (item_updates it))"
    by (rule db_inv_write [OF assms(1-3) c(1,2,5-7)]) (simp add: c(3,4) assms(5))
  moreover have "map_ok (db_segments db)" using assms(1) by (simp add: db_inv_def segs_inv_def)
  ultimately show ?thesis using Inr p c(1,4,8) by (simp add: active_ok_def map_index_simps)
qed

text \<open>The index operations of a batch are the item's updates.\<close>

lemma batchOps_write:
  "keydir_applyBatch k (batchOps fid off now batchCountSize es) = write_item fid off (Batch now es) k"
proof -
  have "foldl applyOp k (batchOps fid off now bo es) =
      foldl update_keydir k (map (\<lambda>d. (bd_key d, if bd_flag d = recordFlagPut
        then Some (put_entry fid (bd_valuePos d) (bd_value d) now) else None)) (decoded_from (int off) bo es))" for bo
  proof (induction es arbitrary: k bo)
    case (Cons e es)
    show ?case
      using Cons.IH
      by (auto simp: Let_def applyOp_def update_keydir_def put_entry_def keydir_delete_def keydir_put_def
          entry_flag_def entry_value_def record_flags add.assoc)
  qed simp
  moreover have "keydir_applyBatch k ops = foldl applyOp k ops" for ops by (simp add: keydir_applyBatch_def)
  ultimately show ?thesis by (simp add: write_item_def)
qed

text \<open>The handlers, with the rotation they may start with.\<close>

lemma handleSingle_inv:
  assumes "db_inv L db m" "handleSingle env flag key value db = (r, db')" "int64_range (we_now env)"
    and "0 < length key" "length key \<le> maxKeyLen" "length value \<le> maxValLen"
    and "flag = recordFlagPut \<or> flag = recordFlagTombstone \<and> value = []"
    and "it = Single \<lparr>rec_tstamp = nextTstamp (we_now env) (db_lastTstamp db), rec_flag = flag, rec_key = key, rec_value = value\<rparr>"
  shows "(\<exists>e. r = Err e \<and> db_inv L db' m) \<or>
    (r = Ok True \<and> (\<exists>a. active_ok db' a \<and> db_inv (L(a := L a @ [it])) db' (apply_updates m (item_updates it))))"
proof -
  let ?db0 = "db\<lparr>db_lastTstamp := nextTstamp (we_now env) (db_lastTstamp db)\<rparr>"
  let ?rec = "\<lparr>rec_tstamp = nextTstamp (we_now env) (db_lastTstamp db), rec_flag = flag, rec_key = key, rec_value = value\<rparr>"
  have inv0: "db_inv L ?db0 m" by (rule db_inv_cong [OF assms(1)]) simp_all
  obtain r1 db1 where rot: "(if int (active_size ?db0) + int (encodedSize ?rec) > o_MaxSegmentSize (db_opts ?db0)
      then rotateActive (we_rotate env) ?db0 else (Ok (), ?db0)) = (r1, db1)" by (metis surj_pair)
  have inv1: "db_inv L db1 m" using rot inv0 rotateActive_inv(1) [OF inv0] by (auto split: if_splits)
  have v: "valid_item it" "item_updates it \<noteq> []"
    using assms(3-8) nextTstamp_range [OF assms(3)] by (auto simp: valid_record_def)
  have "encode ?rec (replicate (encodedSize ?rec) 0) = Ok (encodedSize ?rec, item_bytes it)"
    using assms(4-6,8) by (simp add: encode_Ok_iff)
  then have h: "handleSingle env flag key value db =
    (case r1 of Inl e \<Rightarrow> (Err e, db1) | Inr _ \<Rightarrow>
      (case appendFlush env (item_bytes it) db1 of
         (Inl e, db2) \<Rightarrow> (Err e, db2)
       | (Inr (fileID, offset), db2) \<Rightarrow> (Ok True, db2\<lparr>db_keydir :=
           (if flag = recordFlagTombstone then keydir_delete (db_keydir db2) key
            else keydir_put (db_keydir db2) key
              \<lparr>ke_fileID = fileID, ke_valuePos = int offset + int (recordHeaderSize + length key),
               ke_valueLen = word_of_nat (length value), ke_tstamp = nextTstamp (we_now env) (db_lastTstamp db)\<rparr>)\<rparr>)))"
    unfolding handleSingle_def Let_def rot by (simp split: sum.split)
  obtain r2 db2 where ap: "appendFlush env (item_bytes it) db1 = (r2, db2)" by (metis surj_pair)
  have kd: "db_keydir db2 = db_keydir db1"
    using ap by (auto simp: appendFlush_def split: option.splits prod.splits sum.splits)
  have idx: "(if flag = recordFlagTombstone then keydir_delete (db_keydir db2) key
      else keydir_put (db_keydir db2) key
        \<lparr>ke_fileID = i, ke_valuePos = int off + int (recordHeaderSize + length key),
         ke_valueLen = word_of_nat (length value), ke_tstamp = nextTstamp (we_now env) (db_lastTstamp db)\<rparr>) =
      write_item i off it (db_keydir db1)" for i off
    using assms(7,8) kd by (auto simp: write_item_def update_keydir_def put_entry_def record_flags)
  show ?thesis
    using append_index_inv [OF inv1 v ap idx] assms(2) inv1 ap unfolding h
    by (cases r1; cases r2) auto
qed

lemma handleBatch_inv:
  assumes "db_inv L db m" "handleBatch env es db = (r, db')" "int64_range (we_now env)" "valid_request (WBatch es)"
    and "it = Batch (nextTstamp (we_now env) (db_lastTstamp db)) es"
  shows "(\<exists>e. r = Err e \<and> db_inv L db' m) \<or>
    (r = Ok True \<and> (\<exists>a. active_ok db' a \<and> db_inv (L(a := L a @ [it])) db' (apply_updates m (item_updates it))))"
proof -
  let ?now = "nextTstamp (we_now env) (db_lastTstamp db)"
  let ?db0 = "db\<lparr>db_lastTstamp := ?now\<rparr>" and ?n = "recordHeaderSize + encodedBatchBodySize es"
  have inv0: "db_inv L ?db0 m" by (rule db_inv_cong [OF assms(1)]) simp_all
  obtain r1 db1 where rot: "(if active_size ?db0 > 0 \<and> int (active_size ?db0) + int ?n > o_MaxSegmentSize (db_opts ?db0)
      then rotateActive (we_rotate env) ?db0 else (Ok (), ?db0)) = (r1, db1)" by (metis surj_pair)
  have inv1: "db_inv L db1 m" using rot inv0 rotateActive_inv(1) [OF inv0] by (auto split: if_splits)
  have v: "valid_item it" "item_updates it \<noteq> []"
    using assms(4,5) nextTstamp_range [OF assms(3)] by (auto simp: valid_batch_def)
  have "encodeBatchRecord (replicate ?n 0) ?now es = Ok (?n, item_bytes it)"
    using assms(4,5) by (simp add: encodeBatchRecord_Ok_iff encodedBatchBodySize_eq batch_bytes_def)
  then have h: "handleBatch env es db =
    (case r1 of Inl e \<Rightarrow> (Err e, db1) | Inr _ \<Rightarrow>
      (case appendFlush env (item_bytes it) db1 of
         (Inl e, db2) \<Rightarrow> (Err e, db2)
       | (Inr (fileID, offset), db2) \<Rightarrow> (Ok True, db2\<lparr>db_keydir :=
           keydir_applyBatch (db_keydir db2) (batchOps fileID offset ?now batchCountSize es)\<rparr>)))"
    unfolding handleBatch_def Let_def rot by (simp split: sum.split)
  obtain r2 db2 where ap: "appendFlush env (item_bytes it) db1 = (r2, db2)" by (metis surj_pair)
  have "db_keydir db2 = db_keydir db1"
    using ap by (auto simp: appendFlush_def split: option.splits prod.splits sum.splits)
  then have idx: "keydir_applyBatch (db_keydir db2) (batchOps i off ?now batchCountSize es) =
      write_item i off it (db_keydir db1)" for i off
    using assms(5) by (simp add: batchOps_write)
  show ?thesis
    using append_index_inv [OF inv1 v ap idx] assms(2) inv1 ap unfolding h
    by (cases r1; cases r2) auto
qed

lemma handleOne_inv:
  assumes "db_inv L db m" "valid_request req" "int64_range (we_now (qe_write env))" "handleOne env req db = (r, db')"
  shows "(\<exists>e. r = Err e \<and> db_inv L db' m) \<or>
    (r = Ok True \<and> (\<exists>a. active_ok db' a \<and>
      db_inv (L(a := L a @ [request_item (request_tstamp env db) req])) db' (apply_updates m (request_updates req))))"
proof (cases "db_writesDisabled db")
  case True
  then show ?thesis using assms by (auto simp: handleOne_def)
next
  case False
  note h = handleSingle_inv [OF assms(1) _ assms(3) _ _ _ _ refl]
  consider key v where "req = WPut key v" | key where "req = WDelete key" | es where "req = WBatch es"
    using handleOne_cases [OF assms(2)] by blast
  then show ?thesis
  proof cases
    case 1
    then show ?thesis
      using False assms(2,4) h [of recordFlagPut key v r db'] request_item_simps(1) [of _ req]
      by (simp add: handleOne_def request_tstamp_def)
  next
    case 2
    then show ?thesis
      using False assms(2,4) h [of recordFlagTombstone key "[]" r db'] request_item_simps(1) [of _ req]
      by (simp add: handleOne_def request_tstamp_def)
  next
    case 3
    then show ?thesis
      using False assms(4) handleBatch_inv [OF assms(1) _ assms(3) assms(2) [unfolded 3] refl, of r db'] request_item_simps(1) [of _ req]
      by (simp add: handleOne_def request_tstamp_def)
  qed
qed

end
