(* ===== verification/Reader.thy ===== *)
theory Reader
  imports Writer_Inv
begin

text \<open>
  The read side of the engine: \<open>Get\<close>, \<open>Read\<close>, \<open>ReadKeyRange\<close> (\<open>engine.go\<close>), \<open>Stats\<close>
  (\<open>stats.go\<close>) and \<open>Close\<close>. A read is one step on the state here; theory
  \<open>Concurrent_Reads\<close> shows that calls interleaving with the writer return what such a step returns at
  some moment. \<open>rf\<close> says which preads fail.
\<close>

section \<open>Point reads\<close>

text \<open>The value an index entry points at: the segment must be live; empty values are not read.\<close>

definition readValue :: "(u32 \<Rightarrow> int \<Rightarrow> bool) \<Rightarrow> keydirEntry \<Rightarrow> db \<Rightarrow> os_error + bytes" where
  "readValue rf entry db =
     (if ke_valueLen entry > 0 then
        (case map_get (db_files db) (ke_fileID entry) of
           None \<Rightarrow> Err ErrNotExist
         | Some f \<Rightarrow> seg_readAt (rf (ke_fileID entry) (ke_valuePos entry)) f (unat (ke_valueLen entry)) (ke_valuePos entry))
      else Ok [])"

definition Get :: "(u32 \<Rightarrow> int \<Rightarrow> bool) \<Rightarrow> bytes \<Rightarrow> db \<Rightarrow> engine_error + bytes" where
  "Get rf key db =
     (if length key = 0 then Err ErrEmptyKey
      else if db_closed db then Err ErrDBClosed
      else (case keydir_get (db_keydir db) key of
        None \<Rightarrow> Err ErrKeyNotFound
      | Some entry \<Rightarrow>
          (case map_get (db_segments db) (ke_fileID entry) of
             None \<Rightarrow> Err ErrKeyNotFound
           | Some seg \<Rightarrow>
               (case readValue rf entry db of Inl e \<Rightarrow> Err (EngOS e) | Inr buf \<Rightarrow> Ok buf))))"

definition Read :: "(u32 \<Rightarrow> int \<Rightarrow> bool) \<Rightarrow> bytes \<Rightarrow> db \<Rightarrow> engine_error + bytes" where
  "Read rf key db = Get rf key db"

section \<open>Range reads\<close>

fun materialise :: "(u32 \<Rightarrow> int \<Rightarrow> bool) \<Rightarrow> rangePair list \<Rightarrow> db \<Rightarrow> engine_error + (bytes \<times> bytes) list" where
  "materialise rf [] db = Ok []"
| "materialise rf (p # ps) db =
     (case map_get (db_segments db) (ke_fileID (rp_entry p)) of
        None \<Rightarrow> Err (EngMissingSegment (ke_fileID (rp_entry p)))
      | Some seg \<Rightarrow>
          (case readValue rf (rp_entry p) db of
             Inl e \<Rightarrow> Err (EngOS e)
           | Inr val \<Rightarrow>
               (case materialise rf ps db of Inl e \<Rightarrow> Err e | Inr ms \<Rightarrow> Ok ((rp_key p, val) # ms))))"

text \<open>The callback may change any state of its own; returning \<open>False\<close> stops the iteration.\<close>

fun callbacks :: "(bytes \<Rightarrow> bytes \<Rightarrow> 's \<Rightarrow> bool \<times> 's) \<Rightarrow> (bytes \<times> bytes) list \<Rightarrow> 's \<Rightarrow> 's" where
  "callbacks fn [] s = s"
| "callbacks fn ((k, v) # ms) s = (let (more, s') = fn k v s in if more then callbacks fn ms s' else s')"

definition rangeSnapshot ::
  "(u32 \<Rightarrow> int \<Rightarrow> bool) \<Rightarrow> bytes option \<Rightarrow> bytes option \<Rightarrow> db \<Rightarrow> engine_error + (bytes \<times> bytes) list" where
  "rangeSnapshot rf start end db =
     (if db_closed db then Err ErrDBClosed
      else if (case (start, end) of (Some a, Some b) \<Rightarrow> bytesCompare a b \<ge> 0 | _ \<Rightarrow> False) then Ok []
      else materialise rf (keydir_snapshotRange (db_keydir db) start end) db)"

definition ReadKeyRange ::
  "(u32 \<Rightarrow> int \<Rightarrow> bool) \<Rightarrow> bytes option \<Rightarrow> bytes option \<Rightarrow> (bytes \<Rightarrow> bytes \<Rightarrow> 's \<Rightarrow> bool \<times> 's) option \<Rightarrow>
   db \<Rightarrow> 's \<Rightarrow> (engine_error + unit) \<times> 's" where
  "ReadKeyRange rf start end fn db s =
     (case fn of
        None \<Rightarrow> (Err EngNilCallback, s)
      | Some f \<Rightarrow>
          (case rangeSnapshot rf start end db of
             Inl e \<Rightarrow> (Err e, s)
           | Inr ms \<Rightarrow> (Ok (), callbacks f ms s)))"

section \<open>Stats and Close\<close>

definition statsLocked :: "db \<Rightarrow> stats" where
  "statsLocked db = \<lparr>st_KeyCount = word_of_nat (keydir_size (db_keydir db)),
     st_BytesOnDisk = foldl (\<lambda>b (i, s). b + word_of_nat (seg_size s)) 0 (db_segments db)\<rparr>"

definition Stats :: "db \<Rightarrow> stats" where
  "Stats db =
     (if db_segmentsNil db then
        (case db_cachedStats db of Some s \<Rightarrow> s | None \<Rightarrow> \<lparr>st_KeyCount = 0, st_BytesOnDisk = 0\<rparr>)
      else statsLocked db)"

record close_env =
  cl_syncW :: "nat option"
  cl_syncS :: bool
  cl_closeW :: "u32 \<Rightarrow> nat option"
  cl_close :: "u32 \<Rightarrow> bool"

definition ok_close_env :: close_env where
  "ok_close_env = \<lparr>cl_syncW = None, cl_syncS = False, cl_closeW = \<lambda>_. None, cl_close = \<lambda>_. False\<rparr>"

text \<open>\<open>closeAllSegmentsLocked\<close>: every segment is closed; the first error is kept.\<close>

fun closeSegments ::
  "close_env \<Rightarrow> (u32 \<times> segment) list \<Rightarrow> (u32, osfile) gomap \<Rightarrow> (engine_error + unit) \<times> (u32, osfile) gomap" where
  "closeSegments env [] files = (Ok (), files)"
| "closeSegments env ((i, s) # segs) files =
     (case map_get files i of
        None \<Rightarrow> closeSegments env segs files
      | Some f \<Rightarrow>
          (case seg_close (cl_closeW env i) (cl_close env i) f s of
             (r, f') \<Rightarrow>
               (case closeSegments env segs (map_set files i f') of
                  (r', files') \<Rightarrow> (case r of Inl e \<Rightarrow> (Err (EngOS e), files') | Inr _ \<Rightarrow> (r', files')))))"

definition closeAllSegmentsLocked :: "close_env \<Rightarrow> db \<Rightarrow> (engine_error + unit) \<times> db" where
  "closeAllSegmentsLocked env db =
     (case closeSegments env (db_segments db) (db_files db) of
        (r, files) \<Rightarrow> (r, (set_files files db)\<lparr>db_segments := [], db_segmentsNil := True, db_active := None\<rparr>))"

definition releaseLock :: "db \<Rightarrow> db" where
  "releaseLock db = db\<lparr>db_disk := (db_disk db)\<lparr>d_locked := False\<rparr>\<rparr>"

text \<open>
  \<open>Close\<close> once the writer and compactor goroutines have ended; the requests still queued are
  drained by theory \<open>Write_Queue\<close>. A second call returns the first one's result.
\<close>

definition Close :: "close_env \<Rightarrow> db \<Rightarrow> (engine_error + unit) \<times> db" where
  "Close env db =
     (if db_closed db then (db_closeErr db, db)
      else
        let db0 = db\<lparr>db_closed := True\<rparr>;
            db1 = db0\<lparr>db_cachedStats := Some (statsLocked db0)\<rparr>;
            (r1, db2) = (case active_seg db1 of
                           None \<Rightarrow> (Ok (), db1)
                         | Some (a, f, s) \<Rightarrow>
                             (case seg_sync (cl_syncW env) (cl_syncS env) f s of
                                (r, f', s') \<Rightarrow> (case r of Inl e \<Rightarrow> Err (EngOS e) | Inr _ \<Rightarrow> Ok (), seg_update a f' s' db1)));
            (r2, db3) = closeAllSegmentsLocked env db2;
            closeErr = (case r1 of Inl e \<Rightarrow> Err e | Inr _ \<Rightarrow> r2) in
        (closeErr, (releaseLock db3)\<lparr>db_closeErr := closeErr\<rparr>))"

section \<open>Reads agree with the store\<close>

abbreviation ok_read :: "u32 \<Rightarrow> int \<Rightarrow> bool" where
  "ok_read \<equiv> \<lambda>_ _. False"

lemma readValue_points:
  assumes "db_inv L db m" "map_get (db_segments db) (ke_fileID e) = Some s" "points (log_bytes (L (ke_fileID e))) e v"
  shows "readValue ok_read e db = Ok v"
proof -
  have "segs_inv L db" using assms(1) by (simp add: db_inv_def)
  then obtain f d where f: "map_get (db_files db) (ke_fileID e) = Some f" "f_data f = log_bytes (L (ke_fileID e)) @ d"
    using segs_invD(4) [OF _ assms(2)] seg_good_prefix by blast
  then have "points (f_data f) e v" using points_append [OF assms(3)] by simp
  then show ?thesis
    using f(1) by (auto simp: readValue_def points_def seg_readAt_def word_gt_0 unat_eq_0)
qed

lemma db_inv_entry:
  assumes "db_inv L db m" "keydir_get (db_keydir db) key = Some e"
  obtains s v where "map_get (db_segments db) (ke_fileID e) = Some s" "m key = Some v"
    "readValue ok_read e db = Ok v"
proof -
  have "represents (live_contents L db) (db_keydir db) m" using assms(1) by (simp add: db_inv_def)
  from represents_get [OF this assms(2)] obtain c v where c: "live_contents L db (ke_fileID e) = Some c" "points c e v" "m key = Some v"
    by blast
  then obtain s where "map_get (db_segments db) (ke_fileID e) = Some s" "c = log_bytes (L (ke_fileID e))"
    by (auto simp: live_contents_def split: if_splits)
  with c that readValue_points [OF assms(1)] show ?thesis by blast
qed

lemma Get_store:
  assumes "db_inv L db m" "\<not> db_closed db" "key \<noteq> []"
  shows "Get ok_read key db = (case m key of None \<Rightarrow> Err ErrKeyNotFound | Some v \<Rightarrow> Ok v)"
proof (cases "keydir_get (db_keydir db) key")
  case None
  have "m key = None"
    using represents_None [of "live_contents L db" "db_keydir db" m key] assms(1) None by (simp add: db_inv_def)
  with None assms(2,3) show ?thesis by (simp add: Get_def)
next
  case (Some e)
  from db_inv_entry [OF assms(1) Some] obtain s v where
    "map_get (db_segments db) (ke_fileID e) = Some s" "m key = Some v" "readValue ok_read e db = Ok v" .
  with Some assms(2,3) show ?thesis by (simp add: Get_def)
qed

lemma materialise_store:
  assumes "db_inv L db m" "\<forall>p \<in> set ps. keydir_get (db_keydir db) (rp_key p) = Some (rp_entry p)"
  shows "materialise ok_read ps db = Ok (map (\<lambda>p. (rp_key p, the (m (rp_key p)))) ps)"
  using assms(2)
proof (induction ps)
  case (Cons p ps)
  from Cons.prems have "keydir_get (db_keydir db) (rp_key p) = Some (rp_entry p)" by simp
  from db_inv_entry [OF assms(1) this] obtain s v where
    "map_get (db_segments db) (ke_fileID (rp_entry p)) = Some s" "m (rp_key p) = Some v" "readValue ok_read (rp_entry p) db = Ok v" .
  with Cons show ?case by simp
qed simp

lemma rangeSnapshot_store:
  assumes "db_inv L db m" "\<not> db_closed db"
  shows "\<exists>ms. rangeSnapshot ok_read start end db = Ok ms \<and> sorted_wrt (<) (map fst ms) \<and>
    set ms = {(k, v). m k = Some v \<and> in_range start end k}"
proof (cases "case (start, end) of (Some a, Some b) \<Rightarrow> bytesCompare a b \<ge> 0 | _ \<Rightarrow> False")
  case True
  then obtain a b where "start = Some a" "end = Some b" "b \<le> a"
    by (auto simp: bytesCompare_ge split: option.splits)
  then have "\<not> in_range start end k" for k by (auto simp: in_range_iff)
  then show ?thesis using True assms(2) by (simp add: rangeSnapshot_def)
next
  case False
  let ?ps = "keydir_snapshotRange (db_keydir db) start end"
  have rep: "represents (live_contents L db) (db_keydir db) m" and ok: "map_ok (db_keydir db)"
    using assms(1) by (simp_all add: db_inv_def represents_def)
  have set: "p \<in> set ?ps \<longleftrightarrow> keydir_get (db_keydir db) (rp_key p) = Some (rp_entry p) \<and> in_range start end (rp_key p)" for p
    using set_snapshotRange [OF ok, of start "end"] by blast
  let ?ms = "map (\<lambda>p. (rp_key p, the (m (rp_key p)))) ?ps"
  have "rangeSnapshot ok_read start end db = Ok ?ms"
    using False assms(2) materialise_store [OF assms(1), of ?ps] set by (simp only: rangeSnapshot_def if_False) simp
  moreover have "map fst ?ms = map rp_key ?ps" by simp
  then have "sorted_wrt (<) (map fst ?ms)" using strict_sorted_snapshotRange [OF ok] by (simp only:)
  moreover have "(k, v) \<in> set ?ms \<longleftrightarrow> m k = Some v \<and> in_range start end k" for k v
  proof
    assume "(k, v) \<in> set ?ms"
    then obtain p where "p \<in> set ?ps" "k = rp_key p" "v = the (m (rp_key p))" by auto
    then have g: "keydir_get (db_keydir db) k = Some (rp_entry p)" "in_range start end k" "v = the (m k)"
      using set [of p] by simp_all
    from db_inv_entry [OF assms(1) g(1)] obtain w where "m k = Some w" .
    then show "m k = Some v \<and> in_range start end k" using g by simp
  next
    assume a: "m k = Some v \<and> in_range start end k"
    then obtain e where e: "keydir_get (db_keydir db) k = Some e"
      using represents_None [OF rep, of k] by (cases "keydir_get (db_keydir db) k") auto
    then have "\<lparr>rp_key = k, rp_entry = e\<rparr> \<in> set ?ps" using a set by simp
    then have "(rp_key \<lparr>rp_key = k, rp_entry = e\<rparr>, the (m (rp_key \<lparr>rp_key = k, rp_entry = e\<rparr>))) \<in> set ?ms"
      unfolding set_map by (rule imageI)
    then show "(k, v) \<in> set ?ms" using a by simp
  qed
  then have "set ?ms = {(k, v). m k = Some v \<and> in_range start end k}" by auto
  ultimately show ?thesis by blast
qed

text \<open>Reads of a closed database.\<close>

lemma closed_reads:
  "db_closed db \<Longrightarrow> key \<noteq> [] \<Longrightarrow> Get rf key db = Err ErrDBClosed"
  "db_closed db \<Longrightarrow> rangeSnapshot rf start end db = Err ErrDBClosed"
  by (simp_all add: Get_def rangeSnapshot_def)

end
