(* ===== verification/Engine.thy ===== *)
theory Engine
  imports Reader
begin

text \<open>
  The engine as a key-value store. The abstract specification is a map from keys to
  values; the locale \<open>kv_store\<close> states what a client may rely on, and it is interpreted on
  the engine's own \<open>Put\<close>, \<open>Delete\<close>, \<open>BatchPut\<close> and \<open>Get\<close>. Below it, group commit: a burst of
  requests is answered one by one, and an acknowledged write is durable.
\<close>

section \<open>Bursts\<close>

definition burst_ok :: "(request_env \<times> writeRequest) list \<Rightarrow> bool" where
  "burst_ok burst \<longleftrightarrow> (\<forall>(env, req) \<in> set burst. valid_request req \<and> int64_range (we_now (qe_write env)))"

text \<open>The updates of the requests that were appended.\<close>

definition burst_updates :: "(engine_error + bool) list \<Rightarrow> (request_env \<times> writeRequest) list \<Rightarrow> (bytes \<times> bytes option) list" where
  "burst_updates rs burst = concat (map2 (\<lambda>r q. if r = Ok True then request_updates (snd q) else []) rs burst)"

lemma burst_ok_Cons:
  "burst_ok ((env, req) # burst) \<longleftrightarrow> valid_request req \<and> int64_range (we_now (qe_write env)) \<and> burst_ok burst"
  by (simp add: burst_ok_def)

lemma apply_updates_Nil [simp]: "apply_updates m [] = m"
  by (simp add: apply_updates_def)

lemma handleAll_inv:
  assumes "db_inv L db m" "burst_ok burst" "handleAll burst db = (rs, db')"
  shows "length rs = length burst \<and> (\<exists>L'. db_inv L' db' (apply_updates m (burst_updates rs burst)))"
  using assms
proof (induction burst arbitrary: L db m rs)
  case Nil
  then show ?case by (auto simp: burst_updates_def)
next
  case (Cons q burst)
  obtain env req where q: "q = (env, req)" by (cases q)
  obtain r db1 where one: "handleOne env req db = (r, db1)" by (metis surj_pair)
  obtain rs1 where rest: "handleAll burst db1 = (rs1, db')" "rs = r # rs1"
    using Cons.prems(3) one q by (auto split: prod.splits)
  have v: "valid_request req" "int64_range (we_now (qe_write env))" "burst_ok burst"
    using Cons.prems(2) q by (auto simp: burst_ok_Cons)
  obtain L1 where inv1: "db_inv L1 db1 (apply_updates m (if r = Ok True then request_updates req else []))"
    using handleOne_inv [OF Cons.prems(1) v(1,2) one] by auto
  from Cons.IH [OF this v(3) rest(1)] obtain L' where "length rs1 = length burst"
    "db_inv L' db' (apply_updates (apply_updates m (if r = Ok True then request_updates req else [])) (burst_updates rs1 burst))"
    by blast
  then show ?case
    using rest(2) q by (auto simp: burst_updates_def apply_updates_append [symmetric])
qed

text \<open>Which replies mean that the request was carried out: success, or a failed fsync after the append.\<close>

fun applied :: "engine_error + unit \<Rightarrow> bool" where
  "applied (Inr u) = True"
| "applied (Inl (EngFsync e)) = True"
| "applied (Inl e) = False"

definition reply_updates :: "(engine_error + unit) list \<Rightarrow> (request_env \<times> writeRequest) list \<Rightarrow> (bytes \<times> bytes option) list" where
  "reply_updates replies burst = concat (map2 (\<lambda>r q. if applied r then request_updates (snd q) else []) replies burst)"

lemma rotateActive_no_fsync: "rotateActive env db = (r, db') \<Longrightarrow> r \<noteq> Err (EngFsync e)"
  by (auto simp: rotateActive_def publishActive_def Let_def split: option.splits prod.splits sum.splits if_splits)

lemma appendFlush_no_fsync: "appendFlush env p db = (r, db') \<Longrightarrow> r \<noteq> Err (EngFsync e)"
  by (auto simp: appendFlush_def split: option.splits prod.splits sum.splits)

lemma rotate_opt_no_fsync: "(if b then rotateActive env db else (Ok (), db)) = (r, db') \<Longrightarrow> r \<noteq> Err (EngFsync e)"
  using rotateActive_no_fsync by (auto split: if_splits)

lemma handleOne_no_fsync:
  assumes "handleOne env req db = (r, db')"
  shows "r \<noteq> Err (EngFsync e)"
proof (cases req)
  case (WPut key v)
  then show ?thesis
    using assms rotate_opt_no_fsync appendFlush_no_fsync
    by (fastforce simp: handleOne_def handleSingle_def Let_def split: prod.splits sum.splits if_splits)
next
  case (WDelete key)
  then show ?thesis
    using assms rotate_opt_no_fsync appendFlush_no_fsync
    by (fastforce simp: handleOne_def handleSingle_def Let_def split: prod.splits sum.splits if_splits)
next
  case (WBatch es)
  then show ?thesis
    using assms rotate_opt_no_fsync appendFlush_no_fsync
    by (fastforce simp: handleOne_def handleBatch_def Let_def split: prod.splits sum.splits if_splits)
next
  case (WCompactCommit cc)
  then show ?thesis
    using assms
    by (auto simp: handleOne_def handleCompactCommit_def Let_def split: prod.splits sum.splits if_splits option.splits)
qed

lemma handleAll_no_fsync:
  "handleAll burst db = (rs, db') \<Longrightarrow> r \<in> set rs \<Longrightarrow> r \<noteq> Err (EngFsync e)"
proof (induction burst arbitrary: db rs)
  case (Cons q burst)
  then show ?case
    using handleOne_no_fsync by (cases q) (fastforce split: prod.splits)
qed simp

lemma applied_reply_of: "(\<And>e. r \<noteq> Err (EngFsync e)) \<Longrightarrow> applied (reply_of r) = is_ok r"
proof (cases r)
  case (Inl x)
  then show "(\<And>e. r \<noteq> Err (EngFsync e)) \<Longrightarrow> applied (reply_of r) = is_ok r"
    by (cases x) (auto simp: reply_of_def)
qed (simp add: reply_of_def)

text \<open>Plain requests never succeed without appending.\<close>

lemma handleAll_touched:
  assumes "db_inv L db m" "burst_ok burst" "handleAll burst db = (rs, db')" "r \<in> set rs"
  shows "is_ok r \<longleftrightarrow> r = Ok True"
  using assms
proof (induction burst arbitrary: L db m rs)
  case (Cons q burst)
  obtain env req where q: "q = (env, req)" by (cases q)
  obtain r1 db1 where one: "handleOne env req db = (r1, db1)" by (metis surj_pair)
  obtain rs1 where rest: "handleAll burst db1 = (rs1, db')" "rs = r1 # rs1"
    using Cons.prems(3) one q by (auto split: prod.splits)
  have v: "valid_request req" "int64_range (we_now (qe_write env))" "burst_ok burst"
    using Cons.prems(2) q by (auto simp: burst_ok_Cons)
  note h = handleOne_inv [OF Cons.prems(1) v(1,2) one]
  then obtain L1 m1 where "db_inv L1 db1 m1" by blast
  from Cons.IH [OF this v(3) rest(1)] show ?case
    using Cons.prems(4) rest(2) h by auto
qed simp

lemma reply_updates_eq:
  assumes "\<And>r. r \<in> set rs \<Longrightarrow> applied (g r) = (r = Ok True)" "length rs = length burst"
  shows "reply_updates (map g rs) burst = burst_updates rs burst"
proof -
  have "map2 (\<lambda>r q. if applied r then request_updates (snd q) else []) (map g rs) burst =
      map2 (\<lambda>r q. if r = Ok True then request_updates (snd q) else []) rs burst"
    using assms(2,1) by (induction rs burst rule: list_induct2) simp_all
  then show ?thesis by (simp add: reply_updates_def burst_updates_def)
qed

text \<open>The replies of a burst, and its state: that of the requests, up to the fsync of the active segment.\<close>

lemma processBurst_shape:
  assumes "db_inv L db m" "burst_ok burst" "processBurst w b burst db = (replies, db')" "handleAll burst db = (rs, db1)"
  shows "length replies = length burst" "reply_updates replies burst = burst_updates rs burst"
    "db' = db1 \<or> (\<exists>a f s r f' s'. active_seg db1 = Some (a, f, s) \<and> seg_sync w b f s = (r, f', s') \<and> db' = seg_update a f' s' db1)"
proof -
  have len: "length rs = length burst" using handleAll_inv [OF assms(1,2,4)] by blast
  have plain: "applied (reply_of r) = (r = Ok True)" if "r \<in> set rs" for r
    using handleAll_touched [OF assms(1,2,4) that] applied_reply_of [of r] handleAll_no_fsync [OF assms(4) that] by blast
  let ?fail = "\<lambda>e r. if r = Ok True then Err (EngFsync e) else reply_of r"
  have "reply_updates (map reply_of rs) burst = burst_updates rs burst"
    "reply_updates (map (?fail e) rs) burst = burst_updates rs burst" for e
    by (rule reply_updates_eq [OF _ len]; use plain in auto)+
  moreover obtain L1 m1 where "db_inv L1 db1 m1" using handleAll_inv [OF assms(1,2,4)] by blast
  then have "segs_inv L1 db1" by (simp add: db_inv_def)
  then obtain a f s where a: "active_seg db1 = Some (a, f, s)" by (rule segs_inv_active)
  then have "(replies = map reply_of rs \<or> (\<exists>e. replies = map (?fail e) rs)) \<and>
      (db' = db1 \<or> (\<exists>r f' s'. seg_sync w b f s = (r, f', s') \<and> db' = seg_update a f' s' db1))"
    using assms(3,4) by (auto simp: processBurst_def split: if_splits sum.splits prod.splits)
  ultimately show "length replies = length burst" "reply_updates replies burst = burst_updates rs burst"
    "db' = db1 \<or> (\<exists>a f s r f' s'. active_seg db1 = Some (a, f, s) \<and> seg_sync w b f s = (r, f', s') \<and> db' = seg_update a f' s' db1)"
    using len a by auto
qed

text \<open>An fsync of the active segment keeps the store.\<close>

lemma db_inv_sync:
  assumes "db_inv L db m" "active_seg db = Some (a, f, s)" "seg_sync w b f s = (r, f', s')"
  shows "db_inv L (seg_update a f' s' db) m" "db_active db = Some a" "map_get (db_segments db) a = Some s" "seg_werr s' = seg_werr s"
proof -
  have "segs_inv L db" using assms(1) by (simp add: db_inv_def)
  then have a: "db_active db = Some a" "map_get (db_segments db) a = Some s" "seg_good (L a) f s" "seg_id s = a" "seg_bw s \<noteq> None"
    using assms(2) by (auto elim!: segs_inv_active)
  note g = seg_sync_good [OF a(3) assms(3) a(5)]
  show "db_inv L (seg_update a f' s' db) m" using db_inv_failed [OF assms(1) a(1) _ g(1) _ g(3)] a(2,4) g(2) by simp
  show "db_active db = Some a" "map_get (db_segments db) a = Some s" "seg_werr s' = seg_werr s" using a g(5) by auto
qed

lemma processBurst_inv:
  assumes "db_inv L db m" "burst_ok burst" "processBurst w b burst db = (replies, db')"
  shows "length replies = length burst \<and> (\<exists>L'. db_inv L' db' (apply_updates m (reply_updates replies burst)))"
proof -
  obtain rs db1 where all: "handleAll burst db = (rs, db1)" by (metis surj_pair)
  obtain L1 where inv1: "db_inv L1 db1 (apply_updates m (burst_updates rs burst))"
    using handleAll_inv [OF assms(1,2) all] by blast
  note sh = processBurst_shape [OF assms all]
  have "db_inv L1 db' (apply_updates m (burst_updates rs burst))" using sh(3) inv1 db_inv_sync(1) [OF inv1] by blast
  with sh(1,2) show ?thesis by auto
qed

section \<open>Durability\<close>

text \<open>
  Every segment but the active one is fsynced to its end, or its file is one that \<open>X\<close> excuses. A database may
  start with sealed segments that are not: \<open>Open\<close> seals a full active segment as it finds it, and one written
  without \<open>SyncOnPut\<close> need not have been fsynced.
\<close>

definition sealed_synced :: "(u32 \<Rightarrow> osfile \<Rightarrow> bool) \<Rightarrow> db \<Rightarrow> bool" where
  "sealed_synced X db \<longleftrightarrow> (\<forall>i s f. map_get (db_segments db) i = Some s \<longrightarrow> map_get (db_files db) i = Some f \<longrightarrow>
     db_active db \<noteq> Some i \<longrightarrow> X i f \<or> f_synced f = length (f_data f))"

definition all_synced :: "(u32 \<Rightarrow> osfile \<Rightarrow> bool) \<Rightarrow> db \<Rightarrow> bool" where
  "all_synced X db \<longleftrightarrow> (\<forall>i s f. map_get (db_segments db) i = Some s \<longrightarrow> map_get (db_files db) i = Some f \<longrightarrow>
     X i f \<or> f_synced f = length (f_data f))"

text \<open>The sealed segments of a database, with their files.\<close>

definition sealed_file :: "db \<Rightarrow> u32 \<Rightarrow> osfile \<Rightarrow> bool" where
  "sealed_file db i f \<longleftrightarrow> map_get (db_segments db) i \<noteq> None \<and> db_active db \<noteq> Some i \<and> map_get (db_files db) i = Some f"

lemma sealed_synced_start: "sealed_synced (sealed_file db) db"
  by (simp add: sealed_synced_def sealed_file_def)

lemma sealed_synced_update:
  assumes "sealed_synced X db" "segs_inv L db" "db_active db = Some a"
  shows "sealed_synced X (seg_update a f s db)"
  using assms segs_invD(1,2) [OF assms(2)] by (auto simp: sealed_synced_def map_index_simps split: if_splits)

lemma sealed_synced_cong:
  assumes "sealed_synced X db" "db_segments db' = db_segments db" "db_active db' = db_active db"
    and "\<And>i. map_get (db_segments db) i \<noteq> None \<Longrightarrow> map_get (db_files db') i = map_get (db_files db) i"
  shows "sealed_synced X db'"
  using assms by (fastforce simp: sealed_synced_def)

lemma publishActive_synced:
  assumes "all_synced X db" "segs_inv L db" "map_get (db_files db) i = None"
    and "publishActive env (new_segment i) (set_files (map_set (db_files db) i new_file) db) = (r, db')"
  shows "sealed_synced X db'"
proof -
  let ?db3 = "set_files (map_set (db_files db) i new_file) db"
  note ok = segs_invD(1,2) [OF assms(2)]
  have ne: "map_get (db_segments db) j \<noteq> None \<Longrightarrow> j \<noteq> i" for j using segs_invD(4) [OF assms(2)] assms(3) by fastforce
  have ss: "sealed_synced X db" using assms(1) by (auto simp: sealed_synced_def all_synced_def)
  have keep: "sealed_synced X d" if "db_segments d = db_segments db" "db_active d = db_active db"
    "\<And>j. j \<noteq> i \<Longrightarrow> map_get (db_files d) j = map_get (db_files db) j" for d
    by (rule sealed_synced_cong [OF ss that(1,2)]) (use that(3) ne in auto)
  have "sealed_synced X d" if "db_segments d = map_set (db_segments db) i (new_segment i)" "db_active d = Some i"
    "db_files d = map_set (db_files db) i new_file" for d
    using assms(1) that ok by (auto simp: sealed_synced_def all_synced_def map_index_simps split: if_splits)
  with keep show ?thesis
    using assms(4) ok
    by (auto simp: publishActive_def Let_def new_segment_def map_index_simps remove_file_def
        split: sum.splits if_splits prod.splits)
qed

lemma rotateActive_synced:
  assumes "sealed_synced X db" "db_inv L db m" "rotateActive env db = (r, db')"
  shows "sealed_synced X db'"
proof -
  have si: "segs_inv L db" using assms(2) by (simp add: db_inv_def)
  then obtain a f s where a: "active_seg db = Some (a, f, s)" "db_active db = Some a"
    "map_get (db_segments db) a = Some s" "seg_good (L a) f s" "seg_id s = a" "seg_bw s \<noteq> None"
    by (rule segs_inv_active)
  obtain r1 f1 s1 where sy: "seg_sync (re_syncW env) (re_syncS env) f s = (r1, f1, s1)" by (metis prod_cases3)
  note g = seg_sync_good [OF a(4) sy a(6)]
  let ?db1 = "seg_update a f1 s1 db"
  let ?db2 = "?db1\<lparr>db_nextID := db_nextID db + 1\<rparr>"
  have ss1: "sealed_synced X ?db1" by (rule sealed_synced_update [OF assms(1) si a(2)])
  have si1: "segs_inv L ?db1"
    using db_inv_failed [OF assms(2) a(2) _ g(1) _ g(3)] a(3,5) g(2) by (simp add: db_inv_def)
  have si2: "segs_inv L ?db2" by (rule segs_inv_cong [OF si1]) simp_all
  have as: "all_synced X ?db2" if "r1 = Inr u" for u
  proof -
    have "f_synced f1 = length (f_data f1)" using g(1) g(4) that seg_good_whole by auto
    then show ?thesis using ss1 a(2) segs_invD(1,2) [OF si]
      by (auto simp: all_synced_def sealed_synced_def map_index_simps split: if_splits)
  qed
  obtain r2 files where cr: "createSegment (re_create env) (db_files ?db2) (db_nextID db) = (r2, files)" by (metis surj_pair)
  note c = createSegment_cases [OF cr]
  have ss2: "sealed_synced X ?db2" by (rule sealed_synced_cong [OF ss1]) simp_all
  show ?thesis
  proof (cases "\<exists>u nxt. r1 = Inr u \<and> r2 = Inr nxt")
    case False
    then have "db' = ?db1 \<or> db' = ?db2"
      using assms(3) a(1) sy cr by (auto simp: rotateActive_def Let_def split: sum.splits)
    then show ?thesis using ss1 ss2 by auto
  next
    case True
    then obtain nxt where r: "r1 = Inr ()" "r2 = Inr nxt" by auto
    then have n: "nxt = new_segment (db_nextID db)" "map_get (db_files ?db2) (db_nextID db) = None"
      "files = map_set (db_files ?db2) (db_nextID db) new_file" using c by auto
    then show ?thesis
      using publishActive_synced [OF as [OF r(1)] si2 n(2)] assms(3) a(1) sy cr r by (simp add: rotateActive_def Let_def)
  qed
qed

lemma appendFlush_shape:
  "appendFlush env p db = (r, db') \<Longrightarrow> db' = db \<or> (\<exists>a f s. db_active db = Some a \<and> db' = seg_update a f s db)"
  by (fastforce simp: appendFlush_def active_seg_Some split: option.splits prod.splits sum.splits)

lemma rotate_append_synced:
  assumes "sealed_synced X db0" "db_inv L db0 m" "(if b then rotateActive env db0 else (Ok (), db0)) = (r1, db1)"
    and "db' = db1 \<or> (\<exists>r2 db2 k. appendFlush env' p db1 = (r2, db2) \<and> (db' = db2 \<or> db' = db2\<lparr>db_keydir := k\<rparr>))"
  shows "sealed_synced X db'"
proof -
  have ss: "sealed_synced X db1" and "db_inv L db1 m"
    using assms(1-3) rotateActive_synced rotateActive_inv(1) by (auto split: if_splits)
  then have si: "segs_inv L db1" by (simp add: db_inv_def)
  have "sealed_synced X db2" if "appendFlush env' p db1 = (r2, db2)" for r2 db2
    using appendFlush_shape [OF that] ss sealed_synced_update [OF ss si] by auto
  then show ?thesis using assms(4) ss by (auto intro: sealed_synced_cong)
qed

lemma handleOne_synced:
  assumes "sealed_synced X db" "db_inv L db m" "valid_request req" "handleOne env req db = (r, db')"
  shows "sealed_synced X db'"
proof (cases "db_writesDisabled db")
  case True
  then show ?thesis using assms by (simp add: handleOne_def)
next
  case False
  let ?db0 = "db\<lparr>db_lastTstamp := nextTstamp (we_now (qe_write env)) (db_lastTstamp db)\<rparr>"
  have ss0: "sealed_synced X ?db0" by (rule sealed_synced_cong [OF assms(1)]) simp_all
  have inv0: "db_inv L ?db0 m" by (rule db_inv_cong [OF assms(2)]) simp_all
  note ra = rotate_append_synced [OF ss0 inv0]
  consider flag key v where "handleSingle (qe_write env) flag key v db = (r, db')"
    | es where "handleBatch (qe_write env) es db = (r, db')"
    using handleOne_cases [OF assms(3)] assms(4) False by (auto simp: handleOne_def)
  then show ?thesis
  proof cases
    case 1
    then show ?thesis
      unfolding handleSingle_def Let_def
      by (auto split: prod.splits sum.splits intro: ra)
  next
    case 2
    then show ?thesis
      unfolding handleBatch_def Let_def
      by (auto split: prod.splits sum.splits intro: ra)
  qed
qed

lemma handleAll_synced:
  assumes "sealed_synced X db" "db_inv L db m" "burst_ok burst" "handleAll burst db = (rs, db')"
  shows "sealed_synced X db'"
  using assms
proof (induction burst arbitrary: L db m rs)
  case (Cons q burst)
  obtain env req where q: "q = (env, req)" by (cases q)
  obtain r1 db1 where one: "handleOne env req db = (r1, db1)" by (metis surj_pair)
  obtain rs1 where rest: "handleAll burst db1 = (rs1, db')"
    using Cons.prems(4) one q by (auto split: prod.splits)
  have v: "valid_request req" "int64_range (we_now (qe_write env))" "burst_ok burst"
    using Cons.prems(3) q by (auto simp: burst_ok_Cons)
  obtain L1 m1 where "db_inv L1 db1 m1" using handleOne_inv [OF Cons.prems(2) v(1,2) one] by blast
  from Cons.IH [OF handleOne_synced [OF Cons.prems(1,2) v(1) one] this v(3) rest] show ?case .
qed simp

lemma rotateActive_frame:
  "rotateActive env db = (r, db') \<Longrightarrow> db_opts db' = db_opts db \<and> db_closed db' = db_closed db"
  by (auto simp: rotateActive_def publishActive_def Let_def split: option.splits prod.splits sum.splits if_splits)

lemma appendFlush_frame:
  "appendFlush env p db = (r, db') \<Longrightarrow> db_opts db' = db_opts db \<and> db_closed db' = db_closed db"
  by (auto simp: appendFlush_def split: option.splits prod.splits sum.splits)

lemma rotate_opt_frame:
  "(if b then rotateActive env db else (Ok (), db)) = (r, db') \<Longrightarrow> db_opts db' = db_opts db \<and> db_closed db' = db_closed db"
  using rotateActive_frame by (auto split: if_splits)

lemma handleOne_frame:
  assumes "\<forall>cc. req \<noteq> WCompactCommit cc" "handleOne env req db = (r, db')"
  shows "db_opts db' = db_opts db \<and> db_closed db' = db_closed db"
proof -
  consider "db' = db" | flag key v where "handleSingle (qe_write env) flag key v db = (r, db')"
    | es where "handleBatch (qe_write env) es db = (r, db')"
    using assms by (cases req) (auto simp: handleOne_def split: if_splits)
  then show ?thesis
  proof cases
    case 2
    then show ?thesis
      unfolding handleSingle_def Let_def
      by (auto split: prod.splits sum.splits dest!: rotate_opt_frame appendFlush_frame)
  next
    case 3
    then show ?thesis
      unfolding handleBatch_def Let_def
      by (auto split: prod.splits sum.splits dest!: rotate_opt_frame appendFlush_frame)
  qed simp
qed

lemma handleAll_frame:
  "burst_ok burst \<Longrightarrow> handleAll burst db = (rs, db') \<Longrightarrow> db_opts db' = db_opts db \<and> db_closed db' = db_closed db"
proof (induction burst arbitrary: db rs)
  case (Cons q burst)
  obtain env req where q: "q = (env, req)" by (cases q)
  obtain r db1 rs1 where one: "handleOne env req db = (r, db1)" "handleAll burst db1 = (rs1, db')"
    using Cons.prems(2) q by (auto split: prod.splits)
  have "\<forall>cc. req \<noteq> WCompactCommit cc" "burst_ok burst" using Cons.prems(1) q by (auto simp: burst_ok_Cons)
  then show ?case using handleOne_frame [OF _ one(1)] Cons.IH [OF _ one(2)] by simp
qed simp

lemma processBurst_one_frame:
  assumes "\<forall>cc. req \<noteq> WCompactCommit cc" "processBurst w b [(env, req)] db = (replies, db')"
  shows "db_opts db' = db_opts db \<and> db_closed db' = db_closed db"
proof -
  obtain r db1 where "handleOne env req db = (r, db1)" by (metis surj_pair)
  with handleOne_frame [OF assms(1) this] assms(2) show ?thesis
    by (auto simp: processBurst_def Let_def split: prod.splits if_splits option.splits sum.splits)
qed

lemma processBurst_frame:
  assumes "burst_ok burst" "processBurst w b burst db = (replies, db')"
  shows "db_opts db' = db_opts db \<and> db_closed db' = db_closed db"
  using assms handleAll_frame [OF assms(1), of db]
  by (auto simp: processBurst_def Let_def split: prod.splits if_splits option.splits sum.splits)

text \<open>A database just created: one empty active segment, listed in the manifest.\<close>

definition empty_db :: "options \<Rightarrow> db" where
  "empty_db opts = \<lparr>db_opts = opts, db_active = Some 0, db_nextID = 1, db_lastTstamp = 0,
     db_segments = [(0, new_segment 0)], db_segmentsNil = False, db_keydir = newKeydir, db_closed = False,
     db_closeErr = Ok (), db_writesDisabled = False, db_cachedStats = None,
     db_disk = \<lparr>d_files = [(0, new_file)], d_hints = [], d_manifest = Some (Some (manifest_doc [0] 0)), d_locked = True\<rparr>\<rparr>"

lemma empty_db_inv: "db_inv (\<lambda>_. []) (empty_db opts) Map.empty"
  by (simp_all add: db_inv_def segs_inv_def empty_db_def map_ok_def map_get_def new_segment_def new_file_def
      seg_good_def seg_ok_def represents_empty)

text \<open>
  C7. Group commit is a refinement of the key-value map. Whatever the operating system does
  during a burst of writes (short writes, failed fsyncs, a failed or uncertain rotation),
  every request gets exactly one reply, and afterwards the database represents the store in
  which precisely the requests answered with success, or with an fsync failure after their
  append, have been carried out, in order; all others have left no trace.
\<close>

theorem processBurst_refines:
  assumes "db_inv L db m" "burst_ok burst" "processBurst w b burst db = (replies, db')"
  shows "length replies = length burst \<and> (\<exists>L'. db_inv L' db' (apply_updates m (reply_updates replies burst)))"
  using assms by (rule processBurst_inv)

theorem processBurst_refines_witness:
  "\<exists>L'. db_inv L' (snd (processBurst None False [(ok_request_env 5, WPut [1] [2]), (ok_request_env 5, WDelete [1])]
      (empty_db \<lparr>o_Dir = ''d'', o_MaxSegmentSize = 10, o_SyncOnPut = True, o_WriteQueueDepth = 4,
        o_MaxBatchEncodedSize = 100, o_CompactionInterval = 0\<rparr>)))
    (apply_updates Map.empty (reply_updates
      (fst (processBurst None False [(ok_request_env 5, WPut [1] [2]), (ok_request_env 5, WDelete [1])]
        (empty_db \<lparr>o_Dir = ''d'', o_MaxSegmentSize = 10, o_SyncOnPut = True, o_WriteQueueDepth = 4,
          o_MaxBatchEncodedSize = 100, o_CompactionInterval = 0\<rparr>)))
      [(ok_request_env 5, WPut [1] [2]), (ok_request_env 5, WDelete [1])]))"
  by (rule conjunct2 [OF processBurst_refines [OF empty_db_inv _ surjective_pairing]])
    (simp add: burst_ok_def record_consts ok_request_env_def ok_write_env_def int64_range_def)

section \<open>Success\<close>

text \<open>A database whose next write has no reason to fail.\<close>

definition healthy :: "db \<Rightarrow> bool" where
  "healthy db \<longleftrightarrow> \<not> db_writesDisabled db \<and> map_get (db_files db) (db_nextID db) = None \<and>
     (\<forall>a s. db_active db = Some a \<longrightarrow> map_get (db_segments db) a = Some s \<longrightarrow> \<not> seg_werr s)"

lemma ok_write_env_simps [simp]:
  "we_now (ok_write_env now) = now" "we_rotate (ok_write_env now) = ok_rotate_env"
  "we_append (ok_write_env now) = None" "we_flush (ok_write_env now) = None"
  "qe_write (ok_request_env now) = ok_write_env now" "qe_commit (ok_request_env now) = ok_commit_env"
  by (simp_all add: ok_write_env_def ok_request_env_def)

lemma appendFlush_ok:
  assumes "segs_inv L db" "active_seg db = Some (a, f, s)" "\<not> seg_werr s" "we_append env = None" "we_flush env = None"
  shows "\<exists>x db'. appendFlush env p db = (Ok x, db')"
proof -
  have "map_get (db_files db) a = Some f" "map_get (db_segments db) a = Some s" "db_active db = Some a"
    using assms(2) by (simp_all add: active_seg_Some)
  with assms(1) have "seg_good (L a) f s" "seg_bw s \<noteq> None"
    using segs_invD(4) [OF assms(1), of a s] by (auto elim!: segs_inv_active)
  then have ok: "seg_ok f s" using seg_good_whole assms(3) by blast
  obtain f1 s1 where ap: "seg_append None f s p = (Ok (length (seg_content f s)), f1, s1)"
    using seg_append_total [OF ok \<open>seg_bw s \<noteq> None\<close>] by blast
  obtain f2 s2 where "seg_flush None f1 s1 = (Ok (), f2, s2)"
    using seg_flush_total [OF seg_append_Ok(3) [OF ap ok]] by blast
  then show ?thesis using assms(2,4,5) ap by (simp add: appendFlush_def)
qed

lemma rotateActive_ok:
  assumes "db_inv L db m" "healthy db"
  shows "\<exists>db'. rotateActive ok_rotate_env db = (Ok (), db') \<and>
    active_seg db' = Some (db_nextID db, new_file, new_segment (db_nextID db))"
proof -
  have si: "segs_inv L db" using assms(1) by (simp add: db_inv_def)
  then obtain a f s where a: "active_seg db = Some (a, f, s)" "db_active db = Some a"
    "map_get (db_segments db) a = Some s" "map_get (db_files db) a = Some f" "seg_good (L a) f s" "seg_id s = a"
    by (rule segs_inv_active)
  then have ok: "seg_ok f s" using seg_good_whole assms(2) by (simp add: healthy_def)
  then obtain f1 s1 where sy: "seg_sync None False f s = (Ok (), f1, s1)"
    using seg_flush_total [OF ok] by (auto simp: seg_sync_def fullSync_def)
  let ?n = "db_nextID db"
  have "?n \<noteq> a" "map_get (map_set (db_files db) a f1) ?n = None"
    using assms(2) a(4) segs_invD(1) [OF si] by (auto simp: healthy_def map_index_simps)
  moreover have "writeManifest NoFault mf (ids @ [?n]) ?n = (Ok (), Some (Some (manifest_doc (ids @ [?n]) ?n)))" for mf ids
    by (rule writeManifest_total) simp
  ultimately have "\<exists>db'. rotateActive ok_rotate_env db = (Ok (), db') \<and> db_active db' = Some ?n \<and>
      db_files db' = map_set (map_set (db_files db) a f1) ?n new_file \<and>
      db_segments db' = map_set (map_set (db_segments db) a s1) ?n (new_segment ?n)"
    using a(1) sy
    by (simp add: rotateActive_def ok_rotate_env_def createSegment_def publishActive_def Let_def new_segment_def)
  then show ?thesis using segs_invD(1,2) [OF si] by (auto simp: active_seg_Some map_index_simps)
qed

lemma rotate_opt_ok:
  assumes "db_inv L db m" "healthy db"
  shows "\<exists>db1 a f s. (if b then rotateActive ok_rotate_env db else (Ok (), db)) = (Ok (), db1) \<and> db_inv L db1 m \<and>
    active_seg db1 = Some (a, f, s) \<and> \<not> seg_werr s"
proof (cases b)
  case True
  obtain db1 where "rotateActive ok_rotate_env db = (Ok (), db1)"
    "active_seg db1 = Some (db_nextID db, new_file, new_segment (db_nextID db))"
    using rotateActive_ok [OF assms] by blast
  then show ?thesis using True rotateActive_inv(1) [OF assms(1)] by (auto simp: new_segment_def)
next
  case False
  have "segs_inv L db" using assms(1) by (simp add: db_inv_def)
  then obtain a f s where "active_seg db = Some (a, f, s)" "db_active db = Some a" "map_get (db_segments db) a = Some s"
    by (rule segs_inv_active)
  then show ?thesis using False assms by (auto simp: healthy_def)
qed

lemma handleOne_ok:
  assumes "db_inv L db m" "healthy db" "valid_request req" "int64_range now"
  shows "\<exists>db'. handleOne (ok_request_env now) req db = (Ok True, db')"
proof -
  let ?now = "nextTstamp now (db_lastTstamp db)"
  let ?db0 = "db\<lparr>db_lastTstamp := ?now\<rparr>"
  let ?it = "request_item ?now req"
  have inv0: "db_inv L ?db0 m" by (rule db_inv_cong [OF assms(1)]) simp_all
  have h0: "healthy ?db0" using assms(2) by (simp add: healthy_def)
  have ap: "\<exists>i off db2. appendFlush (ok_write_env now) p db1 = (Ok (i, off), db2)"
    if "db_inv L db1 m" "active_seg db1 = Some (a, f, s)" "\<not> seg_werr s" for db1 a f s p
    using appendFlush_ok [OF _ that(2,3), of L "ok_write_env now" p] that(1) by (auto simp: db_inv_def)
  have nd: "\<not> db_writesDisabled db" using assms(2) by (simp add: healthy_def)
  have single: "\<exists>db'. handleSingle (ok_write_env now) flag key v db = (Ok True, db')"
    if "0 < length key" "length key \<le> maxKeyLen" "length v \<le> maxValLen" for flag key v
  proof -
    let ?rec = "\<lparr>rec_tstamp = ?now, rec_flag = flag, rec_key = key, rec_value = v\<rparr>"
    have enc: "encode ?rec (replicate (encodedSize ?rec) 0) = Ok (encodedSize ?rec, record_bytes ?rec)"
      using that by (simp add: encode_Ok_iff)
    obtain db1 a f s where rot: "(if int (active_size ?db0) + int (encodedSize ?rec) > o_MaxSegmentSize (db_opts ?db0)
        then rotateActive ok_rotate_env ?db0 else (Ok (), ?db0)) = (Ok (), db1)" and d: "db_inv L db1 m" "active_seg db1 = Some (a, f, s)" "\<not> seg_werr s"
      using rotate_opt_ok [OF inv0 h0] by blast
    obtain i off db2 where app: "appendFlush (ok_write_env now) (record_bytes ?rec) db1 = (Ok (i, off), db2)"
      using ap [OF d] by blast
    show ?thesis
      by (simp only: handleSingle_def Let_def ok_write_env_simps rot enc app sum.case prod.case) simp
  qed
  have batch: "\<exists>db'. handleBatch (ok_write_env now) es db = (Ok True, db')" if "valid_request (WBatch es)" for es
  proof -
    let ?n = "recordHeaderSize + encodedBatchBodySize es"
    have enc: "encodeBatchRecord (replicate ?n 0) ?now es = Ok (?n, batch_bytes ?now es)"
      using that by (simp add: encodeBatchRecord_Ok_iff encodedBatchBodySize_eq batch_bytes_def)
    obtain db1 a f s where rot: "(if active_size ?db0 > 0 \<and> int (active_size ?db0) + int ?n > o_MaxSegmentSize (db_opts ?db0)
        then rotateActive ok_rotate_env ?db0 else (Ok (), ?db0)) = (Ok (), db1)" and d: "db_inv L db1 m" "active_seg db1 = Some (a, f, s)" "\<not> seg_werr s"
      using rotate_opt_ok [OF inv0 h0] by blast
    obtain i off db2 where app: "appendFlush (ok_write_env now) (batch_bytes ?now es) db1 = (Ok (i, off), db2)"
      using ap [OF d] by blast
    show ?thesis
      by (simp only: handleBatch_def Let_def ok_write_env_simps rot enc app sum.case prod.case) simp
  qed
  show ?thesis
    using handleOne_cases [OF assms(3)] assms(3) single batch nd by (auto simp: handleOne_def)
qed

lemma processBurst_ok:
  assumes "db_inv L db m" "healthy db" "valid_request req" "int64_range now"
  shows "\<exists>db'. processBurst None False [(ok_request_env now, req)] db = ([Ok ()], db')"
proof -
  obtain db1 where one: "handleOne (ok_request_env now) req db = (Ok True, db1)" using handleOne_ok [OF assms] by blast
  obtain a L1 m1 where act: "active_ok db1 a" and "db_inv L1 db1 m1"
    using handleOne_inv [OF assms(1,3) _ one] assms(4) by auto
  then have "segs_inv L1 db1" by (simp add: db_inv_def)
  then obtain a f s where a: "active_seg db1 = Some (a, f, s)" "db_active db1 = Some a"
    "map_get (db_segments db1) a = Some s" "seg_good (L1 a) f s"
    by (rule segs_inv_active)
  then have "seg_ok f s" using act seg_good_whole by (auto simp: active_ok_def)
  then obtain f1 s1 where "seg_sync None False f s = (Ok (), f1, s1)"
    using seg_flush_total by (fastforce simp: seg_sync_def fullSync_def)
  then show ?thesis using one a(1) by (simp add: processBurst_def reply_of_def)
qed

lemma empty_db_healthy: "healthy (empty_db opts)"
  by (simp add: healthy_def empty_db_def map_get_def new_segment_def)

section \<open>Acknowledged writes are durable\<close>

text \<open>
  C8. With \<open>SyncOnPut\<close>, an acknowledged write is durable. Once a burst of puts, deletes and batches has
  answered any of its requests with success, every live segment the burst could have written to, the ones it
  rotated away and the active one, is fsynced to its end; the only others are segments that were sealed before
  the burst began, whose files the burst has not touched. So when those were fsynced as well, every live
  segment is. In all cases the database then holds the applied requests.
\<close>

theorem processBurst_durable:
  assumes "db_inv L db m" "o_SyncOnPut (db_opts db)" "burst_ok burst"
    and "processBurst w b burst db = (replies, db')" "Ok () \<in> set replies"
  shows "(\<forall>i s f. map_get (db_segments db') i = Some s \<longrightarrow> map_get (db_files db') i = Some f \<longrightarrow>
      f_synced f = length (f_data f) \<or> sealed_file db i f) \<and>
    ((\<forall>i f. sealed_file db i f \<longrightarrow> f_synced f = length (f_data f)) \<longrightarrow> all_synced (\<lambda>_ _. False) db') \<and>
    (\<exists>L'. db_inv L' db' (apply_updates m (reply_updates replies burst)))"
proof -
  let ?X = "sealed_file db"
  obtain rs db1 where all: "handleAll burst db = (rs, db1)" by (metis surj_pair)
  obtain L1 m1 where inv1: "db_inv L1 db1 m1" using handleAll_inv [OF assms(1,3) all] by blast
  note t = handleAll_touched [OF assms(1,3) all]
  have ss1: "sealed_synced ?X db1" by (rule handleAll_synced [OF sealed_synced_start assms(1,3) all])
  have si1: "segs_inv L1 db1" using inv1 by (simp add: db_inv_def)
  then obtain a f s where a: "active_seg db1 = Some (a, f, s)" "db_active db1 = Some a"
    "map_get (db_segments db1) a = Some s" "seg_good (L1 a) f s" "seg_id s = a" "seg_bw s \<noteq> None"
    by (rule segs_inv_active)
  obtain r f' s' where sy: "seg_sync w b f s = (r, f', s')" by (metis prod_cases3)
  note g = seg_sync_good [OF a(4) sy a(6)]
  have sync: "o_SyncOnPut (db_opts db1)" using handleAll_frame [OF assms(3) all] assms(2) by simp
  have nf: "Ok False \<notin> set rs" using t [of "Ok False"] by auto
  have notok: "Ok () \<notin> set (map reply_of rs)" if "\<forall>r \<in> set rs. r \<noteq> Ok True"
    using t that by (force simp: reply_of_def is_ok_iff split: sum.splits)
  have failed: "Ok () \<notin> set (map (\<lambda>r. if r = Ok True then Err (EngFsync e) else reply_of r) rs)" for e
    using nf by (auto simp: reply_of_def split: sum.splits)
  from assms(4,5) all a(1) sy sync notok failed have r: "r = Ok ()" and db': "db' = seg_update a f' s' db1"
    by (auto simp: processBurst_def split: if_splits sum.splits)
  have "f_synced f' = length (f_data f')" using g(1,4) r seg_good_whole by auto
  then have "all_synced ?X db'"
    using ss1 a(2) segs_invD(1,2) [OF si1]
    by (auto simp: db' all_synced_def sealed_synced_def map_index_simps split: if_splits)
  then have X: "\<forall>i s f. map_get (db_segments db') i = Some s \<longrightarrow> map_get (db_files db') i = Some f \<longrightarrow>
      f_synced f = length (f_data f) \<or> sealed_file db i f"
    unfolding all_synced_def by blast
  then have "(\<forall>i f. sealed_file db i f \<longrightarrow> f_synced f = length (f_data f)) \<longrightarrow> all_synced (\<lambda>_ _. False) db'"
    unfolding all_synced_def by blast
  with X processBurst_inv [OF assms(1,3,4)] show ?thesis by blast
qed

text \<open>The record is larger than the limit on segments, so the burst rotates; both segments are fsynced.\<close>

theorem processBurst_durable_witness:
  "all_synced (\<lambda>_ _. False) (snd (processBurst None False [(ok_request_env 5, WPut [1] [2])]
      (empty_db \<lparr>o_Dir = ''d'', o_MaxSegmentSize = 10, o_SyncOnPut = True, o_WriteQueueDepth = 4,
        o_MaxBatchEncodedSize = 100, o_CompactionInterval = 0\<rparr>)))"
proof -
  let ?db = "empty_db \<lparr>o_Dir = ''d'', o_MaxSegmentSize = 10, o_SyncOnPut = True, o_WriteQueueDepth = 4,
        o_MaxBatchEncodedSize = 100, o_CompactionInterval = 0\<rparr>"
  have v: "valid_request (WPut [1] [2])" "int64_range 5" by (simp_all add: record_consts int64_range_def)
  obtain db' where p: "processBurst None False [(ok_request_env 5, WPut [1] [2])] ?db = ([Ok ()], db')"
    using processBurst_ok [OF empty_db_inv empty_db_healthy v] by blast
  have "o_SyncOnPut (db_opts ?db)" "burst_ok [(ok_request_env 5, WPut [1] [2])]" using v by (simp_all add: empty_db_def burst_ok_def)
  moreover have "\<not> sealed_file ?db i f" for i f by (simp add: sealed_file_def empty_db_def map_get_def)
  ultimately have "all_synced (\<lambda>_ _. False) db'" using processBurst_durable [OF empty_db_inv _ _ p] by auto
  then show ?thesis using p by simp
qed

end
