(* ===== verification/Store.thy ===== *)
theory Store
  imports Engine
begin

text \<open>
  The engine seen from its callers: \<open>Put\<close>, \<open>Delete\<close>, \<open>BatchPut\<close>, \<open>Get\<close> and \<open>ReadKeyRange\<close> as
  operations on an abstract map. What a client of a key-value store relies on is the locale
  \<open>kv_store\<close>; it is interpreted on the engine, so every run of client operations, whatever
  fails underneath, reads back the last update carried out for each key.
\<close>

section \<open>The interface\<close>

fun run_ops :: "('e \<Rightarrow> 'o \<Rightarrow> 's \<Rightarrow> 'r \<times> 's) \<Rightarrow> ('e \<times> 'o) list \<Rightarrow> 's \<Rightarrow> 'r list \<times> 's" where
  "run_ops exec [] s = ([], s)"
| "run_ops exec ((e, q) # qs) s =
     (let (r, s1) = exec e q s; (rs, s2) = run_ops exec qs s1 in (r # rs, s2))"

definition done_updates :: "('r \<Rightarrow> bool) \<Rightarrow> ('o \<Rightarrow> (bytes \<times> bytes option) list) \<Rightarrow> 'r list \<Rightarrow> ('e \<times> 'o) list \<Rightarrow>
    (bytes \<times> bytes option) list" where
  "done_updates done upd rs qs = concat (map2 (\<lambda>r q. if done r then upd (snd q) else []) rs qs)"

lemma apply_updates_lookup:
  "apply_updates m us key = (case map_of (rev us) key of None \<Rightarrow> m key | Some ov \<Rightarrow> ov)"
  by (induction us rule: rev_induct) (auto simp: apply_updates_def)

locale kv_store =
  fixes inv :: "'s \<Rightarrow> store \<Rightarrow> bool" and exec :: "'e \<Rightarrow> 'o \<Rightarrow> 's \<Rightarrow> 'r \<times> 's"
    and upd :: "'o \<Rightarrow> (bytes \<times> bytes option) list" and carried_out :: "'r \<Rightarrow> bool" and good_env :: "'e \<Rightarrow> bool"
    and get :: "bytes \<Rightarrow> 's \<Rightarrow> bytes option"
  assumes exec_inv: "inv s m \<Longrightarrow> good_env e \<Longrightarrow> exec e q s = (r, s') \<Longrightarrow>
      inv s' (if carried_out r then apply_updates m (upd q) else m)"
    and get_inv: "inv s m \<Longrightarrow> key \<noteq> [] \<Longrightarrow> get key s = m key"
begin

lemma run_inv:
  assumes "inv s m" "\<forall>(e, q) \<in> set qs. good_env e" "run_ops exec qs s = (rs, s')"
  shows "length rs = length qs \<and> inv s' (apply_updates m (done_updates carried_out upd rs qs))"
  using assms
proof (induction qs arbitrary: s m rs)
  case Nil
  then show ?case by (simp add: done_updates_def)
next
  case (Cons eq qs)
  obtain e q where eq: "eq = (e, q)" by (cases eq)
  obtain r s1 where one: "exec e q s = (r, s1)" by (metis surj_pair)
  obtain rs1 where rest: "run_ops exec qs s1 = (rs1, s')" "rs = r # rs1"
    using Cons.prems(3) one eq by (auto split: prod.splits)
  have "inv s1 (apply_updates m (if carried_out r then upd q else []))"
    using exec_inv [OF Cons.prems(1) _ one] Cons.prems(2) eq by auto
  from Cons.IH [OF this _ rest(1)] Cons.prems(2) rest(2) eq show ?case
    by (simp add: done_updates_def apply_updates_append split: if_splits)
qed

text \<open>After any run, a read returns the last update carried out for its key.\<close>

lemma get_run:
  assumes "inv s m" "\<forall>(e, q) \<in> set qs. good_env e" "run_ops exec qs s = (rs, s')" "key \<noteq> []"
  shows "get key s' = (case map_of (rev (done_updates carried_out upd rs qs)) key of None \<Rightarrow> m key | Some ov \<Rightarrow> ov)"
  using get_inv [OF conjunct2 [OF run_inv [OF assms(1-3)]] assms(4)] by (simp add: apply_updates_lookup)

end

section \<open>Client operations of the engine\<close>

datatype client_op = CPut bytes bytes | CDelete bytes | CBatch "batch_entry list"

fun client_exec :: "submit_env \<Rightarrow> client_op \<Rightarrow> db \<Rightarrow> (engine_error + unit) \<times> db" where
  "client_exec env (CPut key v) db = Put env key v db"
| "client_exec env (CDelete key) db = Delete env key db"
| "client_exec env (CBatch es) db = BatchPut env es db"

fun client_updates :: "client_op \<Rightarrow> (bytes \<times> bytes option) list" where
  "client_updates (CPut key v) = [(key, Some v)]"
| "client_updates (CDelete key) = [(key, None)]"
| "client_updates (CBatch es) = map (\<lambda>e. (be_key e, if be_delete e then None else Some (be_value e))) es"

definition good_submit :: "submit_env \<Rightarrow> bool" where
  "good_submit env \<longleftrightarrow> int64_range (we_now (qe_write (se_req env)))"

text \<open>An open database that represents a store; its options passed \<open>Open\<close>'s check on batch sizes.\<close>

definition store_inv :: "db \<Rightarrow> store \<Rightarrow> bool" where
  "store_inv db m \<longleftrightarrow> (\<exists>L. db_inv L db m) \<and> \<not> db_closed db \<and>
     o_MaxBatchEncodedSize (db_opts db) \<le> int (recordHeaderSize + maxBatchBodyLen)"

definition get_value :: "bytes \<Rightarrow> db \<Rightarrow> bytes option" where
  "get_value key db = (case Get ok_read key db of Inl _ \<Rightarrow> None | Inr v \<Rightarrow> Some v)"

lemma submit_inv:
  assumes "store_inv db m" "valid_request req" "good_submit env" "submit env req db = (r, db')"
  shows "store_inv db' (if applied r then apply_updates m (request_updates req) else m)"
proof -
  obtain L where inv: "db_inv L db m" and op: "\<not> db_closed db" using assms(1) by (auto simp: store_inv_def)
  show ?thesis
  proof (cases "db_writesDisabled db")
    case True
    then show ?thesis using assms(1,4) op by (auto simp: submit_def)
  next
    case False
    let ?b = "[(se_req env, req)]"
    obtain replies where p: "processBurst (se_syncW env) (se_syncS env) ?b db = (replies, db')" and r: "r = hd replies"
      using assms(4) op False by (auto simp: submit_def split: prod.splits)
    have b: "burst_ok ?b" using assms(2,3) by (simp add: burst_ok_def good_submit_def)
    obtain L' where len: "length replies = 1" and "db_inv L' db' (apply_updates m (reply_updates replies ?b))"
      using processBurst_inv [OF inv b p] by auto
    moreover have "replies = [r]" using len r by (cases replies) auto
    then have "reply_updates replies ?b = (if applied r then request_updates req else [])" by (simp add: reply_updates_def)
    ultimately show ?thesis
      using assms(1) processBurst_frame [OF b p] by (auto simp: store_inv_def)
  qed
qed

lemma validateKeyValue_Ok:
  "validateKeyValue key v = Ok u \<longleftrightarrow> 0 < length key \<and> length key \<le> maxKeyLen \<and> length v \<le> maxValLen"
  by (auto simp: validateKeyValue_def)

lemma validateEntries_Ok: "validateEntries i es = Ok u \<longleftrightarrow> (\<forall>e \<in> set es. valid_entry e)"
  by (induction es arbitrary: i) (auto simp: valid_entry_def entry_value_def split: if_splits)

lemma validate_not_applied:
  "validateKeyValue key v = Err e \<Longrightarrow> \<not> applied (Err e)"
  by (auto simp: validateKeyValue_def split: if_splits)

lemma validateEntries_not_applied:
  "validateEntries i es = Err e \<Longrightarrow> \<not> applied (Err e)"
  by (induction es arbitrary: i) (auto split: if_splits)

lemma batch_valid_request:
  assumes "es \<noteq> []" "length es \<le> maxBatchEntries" "validateEntries 0 es = Ok u"
    and "int (recordHeaderSize + encodedBatchBodySize es) \<le> n" "n \<le> int (recordHeaderSize + maxBatchBodyLen)"
  shows "valid_request (WBatch es)"
  using assms by (auto simp: validateEntries_Ok encodedBatchBodySize_eq)

lemma client_exec_inv:
  assumes "store_inv db m" "good_submit env" "client_exec env q db = (r, db')"
  shows "store_inv db' (if applied r then apply_updates m (client_updates q) else m)"
proof (cases q)
  case (CPut key v)
  then show ?thesis
    using assms submit_inv [OF assms(1) _ assms(2), of "WPut key v" r db'] validate_not_applied [of key v]
      validateKeyValue_Ok [of key v]
    by (auto simp: Put_def split: sum.splits)
next
  case (CDelete key)
  then show ?thesis
    using assms submit_inv [OF assms(1) _ assms(2), of "WDelete key" r db']
    by (auto simp: Delete_def split: if_splits)
next
  case (CBatch es)
  consider "es = []" | "es \<noteq> []" "db' = db" "\<not> applied r" | "valid_request (WBatch es)" "submit env (WBatch es) db = (r, db')"
    using assms(1,3) CBatch batch_valid_request [of es] validateEntries_not_applied [of 0 es]
    by (auto simp: BatchPut_def store_inv_def not_less split: if_splits sum.splits)
  then show ?thesis
  proof cases
    case 1
    then show ?thesis using assms(1,3) CBatch by (simp add: BatchPut_def)
  next
    case 2
    then show ?thesis using assms(1) by simp
  next
    case 3
    then show ?thesis using submit_inv [OF assms(1) _ assms(2), of "WBatch es" r db'] CBatch by (auto split: if_splits)
  qed
qed

lemma get_value_store: "store_inv db m \<Longrightarrow> key \<noteq> [] \<Longrightarrow> get_value key db = m key"
  by (auto simp: get_value_def store_inv_def Get_store split: option.splits)

interpretation es: kv_store store_inv client_exec client_updates applied good_submit get_value
  by unfold_locales (fact client_exec_inv, fact get_value_store)

section \<open>Properties\<close>

text \<open>
  C5. The engine is a key-value store: after any sequence of puts, deletes and batches, with
  whatever input sizes and whatever failures of the operating system along the way, a read
  returns the last update carried out for its key, and what the store held before when
  there is none. Carried out means answered with success, or with an fsync failure that
  came after the append.
\<close>

theorem engine_last_write_wins:
  assumes "store_inv db m" "\<forall>(env, q) \<in> set qs. good_submit env" "run_ops client_exec qs db = (rs, db')" "key \<noteq> []"
  shows "Get ok_read key db' =
    (case (case map_of (rev (done_updates applied client_updates rs qs)) key of None \<Rightarrow> m key | Some ov \<Rightarrow> ov) of
       None \<Rightarrow> Err ErrKeyNotFound | Some v \<Rightarrow> Ok v)"
proof -
  from es.run_inv [OF assms(1-3)] have "store_inv db' (apply_updates m (done_updates applied client_updates rs qs))" by simp
  then show ?thesis
    using Get_store assms(4) by (auto simp: store_inv_def apply_updates_lookup)
qed

text \<open>The requests succeed when nothing fails.\<close>

lemma submit_ok:
  assumes "db_inv L db m" "healthy db" "\<not> db_closed db" "valid_request req" "int64_range now"
  shows "\<exists>db'. submit (ok_submit_env now) req db = (Ok (), db')"
  using processBurst_ok [OF assms(1,2,4,5)] assms(2,3) by (auto simp: submit_def ok_submit_env_def healthy_def)

definition small_opts :: options where
  "small_opts = \<lparr>o_Dir = ''d'', o_MaxSegmentSize = 10, o_SyncOnPut = True, o_WriteQueueDepth = 4,
     o_MaxBatchEncodedSize = 100, o_CompactionInterval = 0\<rparr>"

lemma small_store: "store_inv (empty_db small_opts) Map.empty"
  using empty_db_inv [of small_opts] by (auto simp: store_inv_def empty_db_def small_opts_def record_consts)

lemma good_submit_ok: "int64_range now \<Longrightarrow> good_submit (ok_submit_env now)"
  by (simp add: good_submit_def ok_submit_env_def)

lemma empty_put_ok:
  "\<exists>db'. Put (ok_submit_env 5) [1] [2] (empty_db small_opts) = (Ok (), db')"
proof -
  have "\<not> db_closed (empty_db small_opts)" by (simp add: empty_db_def)
  then have "\<exists>db'. submit (ok_submit_env 5) (WPut [1] [2]) (empty_db small_opts) = (Ok (), db')"
    by (rule submit_ok [OF empty_db_inv empty_db_healthy]) (simp_all add: record_consts int64_range_def)
  then show ?thesis by (simp add: Put_def validateKeyValue_def record_consts)
qed

theorem engine_last_write_wins_witness:
  "Get ok_read [1] (snd (run_ops client_exec [(ok_submit_env 5, CPut [1] [2])] (empty_db small_opts))) = Ok [2]"
proof -
  obtain db' where "Put (ok_submit_env 5) [1] [2] (empty_db small_opts) = (Ok (), db')" using empty_put_ok by blast
  then have r: "run_ops client_exec [(ok_submit_env 5, CPut [1] [2])] (empty_db small_opts) = ([Ok ()], db')" by simp
  have "\<forall>(env, q) \<in> set [(ok_submit_env 5, CPut [1] [2])]. good_submit env"
    by (simp add: good_submit_ok int64_range_def)
  from engine_last_write_wins [OF small_store this r, of "[1]"] show ?thesis
    unfolding r by (simp add: done_updates_def)
qed

text \<open>
  C11. A batch is all or nothing. Whatever goes wrong, validation, size limits, rotation,
  a short write or the fsync, the store afterwards either has every entry of the batch
  carried out in order, so that the last entry for a key decides, or none; and a batch that
  is rejected by validation does not change the database at all.
\<close>

theorem BatchPut_all_or_nothing:
  assumes "store_inv db m" "good_submit env" "BatchPut env es db = (r, db')"
  shows "store_inv db' (if applied r then apply_updates m (client_updates (CBatch es)) else m) \<and>
    ((es \<noteq> [] \<and> (length es > maxBatchEntries \<or> (\<exists>e \<in> set es. \<not> valid_entry e))) \<longrightarrow> \<not> applied r \<and> db' = db)"
proof -
  have "client_exec env (CBatch es) db = (r, db')" using assms(3) by simp
  from client_exec_inv [OF assms(1,2) this] show ?thesis
    using assms(3) validateEntries_Ok [of 0 es] validateEntries_not_applied [of 0 es]
    by (auto simp: BatchPut_def split: if_splits sum.splits)
qed

theorem BatchPut_all_or_nothing_witness:
  "BatchPut (ok_submit_env 5) [\<lparr>be_key = [1], be_value = [], be_delete = False\<rparr>, \<lparr>be_key = [], be_value = [], be_delete = True\<rparr>]
     (empty_db small_opts) = (Err (ErrInvalidBatchEntry 1 ErrEmptyKey), empty_db small_opts) \<and>
   store_inv (empty_db small_opts) Map.empty"
proof -
  let ?es = "[\<lparr>be_key = [1], be_value = [], be_delete = False\<rparr>, \<lparr>be_key = [], be_value = [], be_delete = True\<rparr>] :: batch_entry list"
  have b: "BatchPut (ok_submit_env 5) ?es (empty_db small_opts) = (Err (ErrInvalidBatchEntry 1 ErrEmptyKey), empty_db small_opts)"
    by (simp add: BatchPut_def record_consts)
  have "good_submit (ok_submit_env 5)" by (simp add: good_submit_ok int64_range_def)
  from BatchPut_all_or_nothing [OF small_store this b] b show ?thesis by simp
qed

text \<open>
  A range read is a snapshot of the store: it returns exactly the pairs of the store whose
  keys lie in the half-open interval, in strictly ascending byte order; the callback sees
  them in that order until it asks to stop.
\<close>

theorem rangeSnapshot_correct:
  assumes "store_inv db m"
  shows "\<exists>ms. rangeSnapshot ok_read start end db = Ok ms \<and> sorted_wrt (<) (map fst ms) \<and>
    (\<forall>k v. (k, v) \<in> set ms \<longleftrightarrow> m k = Some v \<and> (\<forall>s. start = Some s \<longrightarrow> s \<le> k) \<and> (\<forall>t. end = Some t \<longrightarrow> k < t)) \<and>
    (\<forall>fn (s :: 's). ReadKeyRange ok_read start end (Some fn) db s = (Ok (), callbacks fn ms s))"
proof -
  obtain L where "db_inv L db m" "\<not> db_closed db" using assms by (auto simp: store_inv_def)
  from rangeSnapshot_store [OF this, of start "end"] show ?thesis
    by (auto simp: ReadKeyRange_def in_range_iff)
qed

theorem rangeSnapshot_correct_witness:
  "\<exists>ms. rangeSnapshot ok_read (Some [1]) None (snd (Put (ok_submit_env 5) [1] [2] (empty_db small_opts))) = Ok ms \<and>
     set ms = {([1], [2])}"
proof -
  obtain db' where p: "Put (ok_submit_env 5) [1] [2] (empty_db small_opts) = (Ok (), db')" using empty_put_ok by blast
  have "good_submit (ok_submit_env 5)" by (simp add: good_submit_ok int64_range_def)
  from client_exec_inv [OF small_store this, of "CPut [1] [2]" "Ok ()" db'] p
  have "store_inv db' [[1] \<mapsto> [2]]" by (simp add: apply_updates_def)
  from rangeSnapshot_correct [OF this, of "Some [1]" None] obtain ms where
    ms: "rangeSnapshot ok_read (Some [1]) None db' = Ok ms" "\<forall>k v. (k, v) \<in> set ms \<longleftrightarrow> [[1] \<mapsto> [2]] k = Some v \<and> [1] \<le> k"
    by auto
  have "x \<in> set ms \<longleftrightarrow> x = ([1], [2])" for x using ms(2) by (cases x) (auto split: if_splits)
  then show ?thesis using ms(1) p by auto
qed

section \<open>Failure states\<close>

text \<open>What a failed append leaves behind, and that it stays.\<close>

lemma failed_rotate:
  assumes "active_seg db = Some (a, f, s)" "seg_werr s" "seg_bw s \<noteq> None"
  shows "rotateActive env db = (Err (EngOS ErrOS), seg_update a f s db)"
  using assms seg_werr_sticky(3) [OF assms(2,3)] by (simp add: rotateActive_def)

lemma failed_append:
  assumes "active_seg db = Some (a, f, s)" "seg_werr s" "seg_bw s \<noteq> None"
  shows "appendFlush env p db = (Err (EngOS ErrOS), seg_update a f s db)"
  using assms seg_werr_sticky(1) [OF assms(2,3)] by (simp add: appendFlush_def)

text \<open>
  C28. A failed write stops the log: once an append or flush has failed, the writer accepts no
  further put, delete or batch until the database is reopened. In particular nothing is
  ever appended behind a record that reached the file only in part.
\<close>

theorem failed_write_is_sticky:
  assumes "db_inv L db m" "active_seg db = Some (a, f, s)" "seg_werr s" "seg_bw s \<noteq> None"
    and "valid_request req" "handleOne env req db = (r, db')"
  shows "\<not> is_ok r \<and> f_data (the (map_get (db_files db') a)) = f_data f \<and>
    (\<exists>f' s'. active_seg db' = Some (a, f', s') \<and> seg_werr s' \<and> seg_bw s' \<noteq> None)"
proof -
  let ?db0 = "db\<lparr>db_lastTstamp := nextTstamp (we_now (qe_write env)) (db_lastTstamp db)\<rparr>"
  have a0: "active_seg ?db0 = Some (a, f, s)" using assms(2) by (simp add: active_seg_Some)
  have ok: "map_ok (db_files db)" "map_ok (db_segments db)" using assms(1) by (simp_all add: db_inv_def segs_inv_def)
  have rot: "(if b then rotateActive env' ?db0 else (Ok (), ?db0)) =
      (if b then (Err (EngOS ErrOS), seg_update a f s ?db0) else (Ok (), ?db0))" for b env'
    using failed_rotate [OF a0 assms(3,4)] by simp
  have "\<not> is_ok r \<and> (db' = db \<or> db' = ?db0 \<or> db' = seg_update a f s ?db0)"
  proof (cases req)
    case (WPut key v)
    then show ?thesis
      using assms(5,6) unfolding handleOne_def handleSingle_def Let_def rot
      by (auto simp: failed_append [OF a0 assms(3,4)] split: if_splits sum.splits prod.splits)
  next
    case (WDelete key)
    then show ?thesis
      using assms(5,6) unfolding handleOne_def handleSingle_def Let_def rot
      by (auto simp: failed_append [OF a0 assms(3,4)] split: if_splits sum.splits prod.splits)
  next
    case (WBatch es)
    then show ?thesis
      using assms(5,6) unfolding handleOne_def handleBatch_def Let_def rot
      by (auto simp: failed_append [OF a0 assms(3,4)] split: if_splits sum.splits prod.splits)
  qed (use assms(5) in simp)
  then show ?thesis
    using assms(2-4) ok by (auto simp: active_seg_Some map_index_simps)
qed

lemma failed_db_inv:
  assumes "db = seg_update 0 new_file ((new_segment 0)\<lparr>seg_werr := True\<rparr>) (empty_db opts)"
  shows "db_inv (\<lambda>_. []) db Map.empty" "active_seg db = Some (0, new_file, (new_segment 0)\<lparr>seg_werr := True\<rparr>)"
proof -
  let ?it = "Single \<lparr>rec_tstamp = 1, rec_flag = recordFlagPut, rec_key = [1], rec_value = []\<rparr>"
  have "valid_item ?it \<and> 0 < item_size ?it"
    by (simp add: valid_record_def int64_range_def record_consts encodedSize_def)
  then have "\<exists>it m. valid_item it \<and> m < item_size it \<and> f_data new_file = log_bytes [] @ take m (item_bytes it)"
    unfolding new_file_def by (intro exI [of _ ?it] exI [of _ 0]) simp
  then have "seg_good [] new_file ((new_segment 0)\<lparr>seg_werr := True\<rparr>)"
    by (simp add: seg_good_def new_segment_def new_file_def)
  then show "db_inv (\<lambda>_. []) db Map.empty"
    unfolding assms using empty_db_inv [of opts]
    by (intro db_inv_failed) (auto simp: empty_db_def map_get_def new_segment_def)
  show "active_seg db = Some (0, new_file, (new_segment 0)\<lparr>seg_werr := True\<rparr>)"
    by (simp add: assms active_seg_Some empty_db_def map_get_def map_set_def)
qed

theorem failed_write_is_sticky_witness:
  "\<not> is_ok (fst (handleOne (ok_request_env 5) (WPut [1] [2])
      (seg_update 0 new_file ((new_segment 0)\<lparr>seg_werr := True\<rparr>) (empty_db small_opts))))"
  by (rule conjunct1 [OF failed_write_is_sticky [OF failed_db_inv(1) [OF refl] failed_db_inv(2) [OF refl] _ _ _ surjective_pairing]])
    (simp_all add: new_segment_def record_consts)

text \<open>
  C29. Once a rotation has left the manifest's durability uncertain, the engine is read-only:
  the rotation reports \<open>ErrWritesDisabled\<close>, the store is unchanged, and from then on every
  write request, also one already taken from the queue, is answered with
  \<open>ErrWritesDisabled\<close> without touching the state, while reads keep answering from the store.
\<close>

theorem uncertain_rotation_disables_writes:
  assumes "store_inv db m" "rotateActive env db = (r, db')" "r = Err ErrWritesDisabled"
  shows "db_writesDisabled db' \<and> store_inv db' m \<and>
    (\<forall>qenv req. handleOne qenv req db' = (Err ErrWritesDisabled, db')) \<and>
    (\<forall>senv req. submit senv req db' = (Err ErrWritesDisabled, db')) \<and>
    (\<forall>key. key \<noteq> [] \<longrightarrow> Get ok_read key db' = (case m key of None \<Rightarrow> Err ErrKeyNotFound | Some v \<Rightarrow> Ok v))"
proof -
  obtain L where inv: "db_inv L db m" and op: "\<not> db_closed db" using assms(1) by (auto simp: store_inv_def)
  note ri = rotateActive_inv [OF inv assms(2)]
  have d: "db_writesDisabled db'"
    using assms(2,3)
    by (auto simp: rotateActive_def publishActive_def Let_def split: option.splits prod.splits sum.splits if_splits)
  have "store_inv db' m" using assms(1) ri by (auto simp: store_inv_def)
  then show ?thesis
    using d ri(1,4) op Get_store by (auto simp: handleOne_def submit_def)
qed

lemma uncertain_rotation_empty:
  "\<exists>db'. rotateActive (ok_rotate_env\<lparr>re_manifest := FSyncDir\<rparr>) (empty_db opts) = (Err ErrWritesDisabled, db')"
  by (simp add: rotateActive_def empty_db_def active_seg_def seg_lookup_def map_get_def new_segment_def new_file_def
      ok_rotate_env_def seg_sync_def seg_flush_def fullSync_def createSegment_def publishActive_def map_set_def
      writeManifest_cases fault_before_rename_def fault_after_rename_def map_keys_def seg_update_def set_files_def)

theorem uncertain_rotation_disables_writes_witness:
  "\<exists>db'. rotateActive (ok_rotate_env\<lparr>re_manifest := FSyncDir\<rparr>) (empty_db small_opts) = (Err ErrWritesDisabled, db') \<and>
    submit (ok_submit_env 5) (WPut [1] [2]) db' = (Err ErrWritesDisabled, db') \<and> Get ok_read [1] db' = Err ErrKeyNotFound"
proof -
  obtain db' where r: "rotateActive (ok_rotate_env\<lparr>re_manifest := FSyncDir\<rparr>) (empty_db small_opts) = (Err ErrWritesDisabled, db')"
    using uncertain_rotation_empty by blast
  from uncertain_rotation_disables_writes [OF small_store r refl] r show ?thesis by (intro exI [of _ db']) auto
qed

end
