(* ===== verification/Open.thy ===== *)
theory Open
  imports Store
begin

text \<open>
  Opening a database (\<open>Open\<close>, \<open>listSegments\<close>, \<open>acquireDataDirLock\<close> in \<open>engine.go\<close> and
  \<open>recovery.go\<close>, \<open>sweepOrphans\<close> in \<open>compact.go\<close>): options, lock, manifest, recovery,
  resolution of the active segment, persisting the live set, and the orphan sweep. On every
  error the data directory as it is left behind is part of the result. File names are ids:
  only canonically named segment and hint files are part of the directory.
\<close>

section \<open>Options\<close>

definition resolveOptions :: "options \<Rightarrow> engine_error + options" where
  "resolveOptions opts =
     (if o_Dir opts = '''' then Err EngBadOptions
      else
        let o1 = (if o_MaxSegmentSize opts = 0 then opts\<lparr>o_MaxSegmentSize := defaultMaxSegmentSize\<rparr> else opts) in
        if o_MaxSegmentSize o1 < 0 then Err EngBadOptions
        else
          let o2 = (if o_WriteQueueDepth o1 = 0 then o1\<lparr>o_WriteQueueDepth := defaultWriteQueueDepth\<rparr> else o1) in
          if o_WriteQueueDepth o2 < 0 then Err EngBadOptions
          else
            let o3 = (if o_MaxBatchEncodedSize o2 = 0 then o2\<lparr>o_MaxBatchEncodedSize := defaultMaxBatchEncodedSize\<rparr> else o2) in
            if o_MaxBatchEncodedSize o3 < 0 then Err EngBadOptions
            else if o_MaxBatchEncodedSize o3 > int (recordHeaderSize + maxBatchBodyLen) then Err EngBadOptions
            else if o_CompactionInterval o3 < 0 then Err EngBadOptions
            else Ok o3)"

section \<open>Steps\<close>

record open_env =
  oe_mkdir :: bool
  oe_lock :: bool
  oe_readDir :: bool
  oe_readManifest :: bool
  oe_openSeg :: "u32 \<Rightarrow> bool"
  oe_recover :: recover_env
  oe_seek :: bool
  oe_create :: bool
  oe_manifest :: publish_fault
  oe_sweepManifest :: bool
  oe_sweepReadDir :: bool
  oe_sweepSeg :: "u32 \<Rightarrow> bool"
  oe_sweepHint :: "u32 \<Rightarrow> bool"

definition ok_open_env :: open_env where
  "ok_open_env = \<lparr>oe_mkdir = False, oe_lock = False, oe_readDir = False, oe_readManifest = False,
     oe_openSeg = \<lambda>_. False, oe_recover = ok_recover_env, oe_seek = False, oe_create = False, oe_manifest = NoFault,
     oe_sweepManifest = False, oe_sweepReadDir = False, oe_sweepSeg = \<lambda>_. False, oe_sweepHint = \<lambda>_. False\<rparr>"

definition acquireDataDirLock :: "bool \<Rightarrow> disk \<Rightarrow> engine_error + disk" where
  "acquireDataDirLock fault d = (if fault \<or> d_locked d then Err EngLock else Ok (d\<lparr>d_locked := True\<rparr>))"

definition listSegments :: "disk \<Rightarrow> u32 list" where
  "listSegments d = sort (map_keys (d_files d))"

text \<open>Opening every live segment; \<open>nextID\<close> steps past each id.\<close>

fun openSegments ::
  "(u32 \<Rightarrow> bool) \<Rightarrow> (u32, osfile) gomap \<Rightarrow> u32 list \<Rightarrow> (u32, segment) gomap \<Rightarrow> u32 \<Rightarrow>
   engine_error + (u32, segment) gomap \<times> u32" where
  "openSegments fault files [] segs nextID = Ok (segs, nextID)"
| "openSegments fault files (i # ids) segs nextID =
     (case openSegmentReadWrite (fault i) files i of
        Inl e \<Rightarrow> Err (EngOS e)
      | Inr seg \<Rightarrow> openSegments fault files ids (map_set segs i seg) (if i + 1 > nextID then i + 1 else nextID))"

definition stepPastOrphans :: "u32 list \<Rightarrow> u32 \<Rightarrow> u32" where
  "stepPastOrphans onDisk nextID =
     (if length onDisk > 0 \<and> last onDisk + 1 > nextID then last onDisk + 1 else nextID)"

definition resolveActive :: "u32 list \<Rightarrow> u32 \<Rightarrow> bool \<Rightarrow> u32 option" where
  "resolveActive existing manifestActive bootstrapped =
     (if length existing > 0 then Some (if bootstrapped then last existing else manifestActive) else None)"

text \<open>The \<open>DB\<close> value \<open>Open\<close> builds, before recovery.\<close>

definition initial_db :: "options \<Rightarrow> (u32, segment) gomap \<Rightarrow> u32 \<Rightarrow> disk \<Rightarrow> db" where
  "initial_db opts segs nextID d = \<lparr>db_opts = opts, db_active = None, db_nextID = nextID, db_lastTstamp = 0,
     db_segments = segs, db_segmentsNil = False, db_keydir = newKeydir, db_closed = False, db_closeErr = Ok (),
     db_writesDisabled = False, db_cachedStats = None, db_disk = d\<rparr>"

text \<open>Promote the resolved active segment when it has room.\<close>

definition promoteActive :: "bool \<Rightarrow> u32 option \<Rightarrow> db \<Rightarrow> engine_error + db" where
  "promoteActive seekFault active db =
     (case active of
        None \<Rightarrow> Ok db
      | Some a \<Rightarrow>
          (case map_get (db_segments db) a of
             None \<Rightarrow> Err EngNilActive
           | Some s \<Rightarrow>
               if int (seg_size s) < o_MaxSegmentSize (db_opts db) then
                 (if seekFault then Err (EngOS ErrOS)
                  else Ok (db\<lparr>db_segments := map_set (db_segments db) a (s\<lparr>seg_bw := Some []\<rparr>), db_active := Some a\<rparr>))
               else Ok db))"

text \<open>Otherwise open a fresh one; the second component says so.\<close>

definition freshActive :: "bool \<Rightarrow> db \<Rightarrow> (engine_error + bool) \<times> db" where
  "freshActive createFault db =
     (case db_active db of
        Some _ \<Rightarrow> (Ok False, db)
      | None \<Rightarrow>
          let freshID = db_nextID db; db1 = db\<lparr>db_nextID := freshID + 1\<rparr> in
          (case createSegment createFault (db_files db1) freshID of
             (Inl e, _) \<Rightarrow> (Err (EngOS e), db1)
           | (Inr s, files) \<Rightarrow>
               (Ok True, (set_files files db1)\<lparr>db_segments := map_set (db_segments db1) (seg_id s) s,
                                             db_active := Some (seg_id s)\<rparr>)))"

definition liveSegmentIDsLocked :: "db \<Rightarrow> u32 list" where
  "liveSegmentIDsLocked db = sort (map_keys (db_segments db))"

text \<open>\<open>sweepOrphans\<close>: unlink segment and hint files the manifest does not list, as far as that works.\<close>

definition sweep_map :: "(u32 \<Rightarrow> bool) \<Rightarrow> u32 list \<Rightarrow> (u32, 'v) gomap \<Rightarrow> (u32, 'v) gomap" where
  "sweep_map fault live m = foldl (\<lambda>m i. if i \<in> set live \<or> fault i then m else map_del m i) m (map_keys m)"

definition sweepOrphans :: "open_env \<Rightarrow> disk \<Rightarrow> (engine_error + unit) \<times> disk" where
  "sweepOrphans env d =
     (case readManifest (oe_sweepManifest env) (d_manifest d) of
        Inl ErrManifestMissing \<Rightarrow> (Ok (), d)
      | Inl e \<Rightarrow> (Err (EngManifest e), d)
      | Inr (live, _) \<Rightarrow>
          if oe_sweepReadDir env then (Err EngReadDir, d)
          else (Ok (), d\<lparr>d_files := sweep_map (oe_sweepSeg env) live (d_files d),
                         d_hints := sweep_map (oe_sweepHint env) live (d_hints d)\<rparr>))"

definition unlock :: "disk \<Rightarrow> disk" where
  "unlock d = d\<lparr>d_locked := False\<rparr>"

text \<open>After recovery: the active segment, the manifest, the sweep.\<close>

definition publishOpen :: "open_env \<Rightarrow> u32 option \<Rightarrow> bool \<Rightarrow> db \<Rightarrow> (engine_error \<times> disk) + db" where
  "publishOpen env active bootstrapped db1 =
     (case promoteActive (oe_seek env) active db1 of
        Inl e \<Rightarrow> Err (e, unlock (db_disk db1))
      | Inr db2 \<Rightarrow>
          (case freshActive (oe_create env) db2 of
             (Inl e, db3) \<Rightarrow> Err (e, unlock (db_disk db3))
           | (Inr fresh, db3) \<Rightarrow>
               (case (if bootstrapped \<or> fresh
                      then writeManifest (oe_manifest env) (d_manifest (db_disk db3)) (liveSegmentIDsLocked db3)
                             (the (db_active db3))
                      else (Ok (), d_manifest (db_disk db3))) of
                  (Inl e, mf) \<Rightarrow> Err (EngManifest e, unlock ((db_disk db3)\<lparr>d_manifest := mf\<rparr>))
                | (Inr _, mf) \<Rightarrow>
                    let db4 = set_manifest mf db3 in
                    Ok (db4\<lparr>db_disk := snd (sweepOrphans env (db_disk db4))\<rparr>))))"

definition finishOpen ::
  "open_env \<Rightarrow> u32 option \<Rightarrow> bool \<Rightarrow> db \<Rightarrow> (engine_error \<times> disk) + db" where
  "finishOpen env active bootstrapped db =
     (case recover (oe_recover env) (d_hints (db_disk db)) active (db_files db) (db_segments db) (db_keydir db, db_lastTstamp db) of
        (Inl e, files, segs) \<Rightarrow> Err (EngRecovery e, unlock ((db_disk db)\<lparr>d_files := files\<rparr>))
      | (Inr (k, lastTstamp), files, segs) \<Rightarrow>
          publishOpen env active bootstrapped
            ((set_files files db)\<lparr>db_segments := segs, db_keydir := k, db_lastTstamp := lastTstamp\<rparr>))"

definition Open :: "open_env \<Rightarrow> options \<Rightarrow> disk \<Rightarrow> (engine_error \<times> disk) + db" where
  "Open env opts0 d0 =
     (case resolveOptions opts0 of
        Inl e \<Rightarrow> Err (e, d0)
      | Inr opts \<Rightarrow>
          if oe_mkdir env then Err (EngMkdir, d0)
          else (case acquireDataDirLock (oe_lock env) d0 of
            Inl e \<Rightarrow> Err (e, d0)
          | Inr d \<Rightarrow>
              if oe_readDir env then Err (EngReadDir, unlock d)
              else
                let onDisk = listSegments d in
                (case reconcileManifest (oe_readManifest env) (d_manifest d) onDisk of
                   Inl e \<Rightarrow> Err (EngManifest e, unlock d)
                 | Inr (existing, manifestActive, bootstrapped) \<Rightarrow>
                     (case openSegments (oe_openSeg env) (d_files d) existing [] 0 of
                        Inl e \<Rightarrow> Err (e, unlock d)
                      | Inr (segs, nextID) \<Rightarrow>
                          finishOpen env (resolveActive existing manifestActive bootstrapped) bootstrapped
                            (initial_db opts segs (stepPastOrphans onDisk nextID) d)))))"

section \<open>Opening segments\<close>

definition opened_segment :: "u32 \<Rightarrow> osfile \<Rightarrow> segment" where
  "opened_segment i f = \<lparr>seg_id = i, seg_size = length (f_data f), seg_bw = None, seg_werr = False\<rparr>"

lemma openSegments_ok:
  assumes "\<forall>i \<in> set ids. map_get files i \<noteq> None" "map_ok segs"
  shows "\<exists>segs' n'. openSegments (\<lambda>_. False) files ids segs n = Ok (segs', n') \<and> map_ok segs' \<and>
    (\<forall>i. map_get segs' i = (if i \<in> set ids then map_option (opened_segment i) (map_get files i) else map_get segs i)) \<and>
    n' \<in> insert n ((\<lambda>i. i + 1) ` set ids)"
  using assms
proof (induction ids arbitrary: segs n)
  case (Cons i ids)
  obtain f where f: "map_get files i = Some f" using Cons.prems(1) by auto
  let ?segs = "map_set segs i (opened_segment i f)"
  have o: "openSegmentReadWrite False files i = Ok (opened_segment i f)"
    using f by (simp add: openSegmentReadWrite_def opened_segment_def)
  have ok: "map_ok ?segs" "map_get ?segs j = (if j = i then Some (opened_segment i f) else map_get segs j)" for j
    using Cons.prems(2) by (simp_all add: map_index_simps)
  have "\<forall>i \<in> set ids. map_get files i \<noteq> None" using Cons.prems(1) by simp
  from Cons.IH [OF this ok(1), of "if i + 1 > n then i + 1 else n"] show ?case
    using o f by (auto simp: ok(2) split: if_splits)
qed simp

section \<open>After recovery\<close>

text \<open>A database whose segments have been recovered and not yet given a writer.\<close>

definition recovered_db :: "(u32 \<Rightarrow> log_item list) \<Rightarrow> db \<Rightarrow> bool" where
  "recovered_db L db \<longleftrightarrow> map_ok (db_files db) \<and> map_ok (db_segments db) \<and>
     (\<forall>i s. map_get (db_segments db) i = Some s \<longrightarrow> (\<exists>f. map_get (db_files db) i = Some f \<and> recovered L i f s)) \<and>
     (\<forall>i it. it \<in> set (L i) \<longrightarrow> valid_item it \<and> item_updates it \<noteq> []) \<and>
     (\<forall>i. map_get (db_segments db) i = None \<longrightarrow> L i = [])"

lemma recovered_good: "recovered L i f s \<Longrightarrow> seg_good (L i) f s \<and> seg_id s = i \<and> \<not> seg_werr s \<and> seg_bw s = None"
  by (auto simp: recovered_def seg_good_def seg_ok_def)

lemma recovered_reopened: "recovered L i f s \<Longrightarrow> seg_good (L i) f (s\<lparr>seg_bw := Some []\<rparr>)"
  by (auto simp: recovered_def seg_good_def seg_ok_def)

lemma promote_inv:
  assumes "recovered_db L db" "map_get (db_segments db) a = Some s"
    and "represents (live_contents L db) (db_keydir db) m \<and> indexed L (db_keydir db)"
    and "db' = db\<lparr>db_segments := map_set (db_segments db) a (s\<lparr>seg_bw := Some []\<rparr>), db_active := Some a\<rparr>"
  shows "db_inv L db' m"
proof -
  have "segs_inv L db'"
    using assms(1,2) recovered_good recovered_reopened
    by (fastforce simp: assms(4) segs_inv_def recovered_db_def map_index_simps)
  moreover have "live_contents L db' = live_contents L db"
    using assms(1,2) by (auto simp: assms(4) live_contents_def recovered_db_def map_index_simps fun_eq_iff)
  ultimately show ?thesis using assms(3,4) by (simp add: db_inv_def)
qed

lemma fresh_inv:
  assumes "recovered_db L db" "map_get (db_files db) n = None"
    and "represents (live_contents L db) (db_keydir db) m \<and> indexed L (db_keydir db)"
    and "db_files db' = map_set (db_files db) n new_file" "db_segments db' = map_set (db_segments db) n (new_segment n)"
    and "db_active db' = Some n" "db_keydir db' = db_keydir db"
  shows "db_inv L db' m"
proof -
  have n: "map_get (db_segments db) n = None" "L n = []"
    using assms(1,2) by (cases "map_get (db_segments db) n"; force simp: recovered_db_def)+
  have "seg_good [] new_file (new_segment n)" by (simp add: seg_good_def seg_ok_def new_file_def new_segment_def)
  then have "segs_inv L db'"
    using assms(1,4-6) n recovered_good
    by (fastforce simp: segs_inv_def recovered_db_def map_index_simps new_segment_def)
  moreover have "live_contents L db' = (live_contents L db)(n \<mapsto> [])"
    using assms(1,5) n by (auto simp: live_contents_def recovered_db_def map_index_simps fun_eq_iff)
  moreover have "represents ((live_contents L db)(n \<mapsto> [])) (db_keydir db) m"
    by (rule represents_mono [OF conjunct1 [OF assms(3)]]) (use n in \<open>auto simp: live_contents_def\<close>)
  ultimately show ?thesis using assms(3,7) by (simp add: db_inv_def)
qed

section \<open>The orphan sweep\<close>

lemma sweep_map_ok:
  assumes "map_ok m"
  shows "map_ok (sweep_map fault live m)" "i \<in> set live \<Longrightarrow> map_get (sweep_map fault live m) i = map_get m i"
proof -
  have gen: "map_ok (foldl (\<lambda>m i. if i \<in> set live \<or> fault i then m else map_del m i) m ks) \<and>
      (\<forall>i \<in> set live. map_get (foldl (\<lambda>m i. if i \<in> set live \<or> fault i then m else map_del m i) m ks) i = map_get m i)" for ks
    using assms by (induction ks arbitrary: m) (auto simp: map_index_simps)
  show "map_ok (sweep_map fault live m)" "i \<in> set live \<Longrightarrow> map_get (sweep_map fault live m) i = map_get m i"
    using gen by (auto simp: sweep_map_def)
qed

lemma sweep_map_removes:
  assumes "map_ok m" "i \<notin> set live"
  shows "map_get (sweep_map (\<lambda>_. False) live m) i = None"
proof -
  have "map_ok m \<Longrightarrow> i \<in> set ks \<or> map_get m i = None \<Longrightarrow>
      map_get (foldl (\<lambda>m i. if i \<in> set live \<or> False then m else map_del m i) m ks) i = None" for ks
    using assms(2) by (induction ks arbitrary: m) (auto simp: map_index_simps)
  then show ?thesis using assms(1) map_keys_iff [of i m] by (auto simp: sweep_map_def)
qed

section \<open>Ids\<close>

lemma sorted_le_last: "sorted xs \<Longrightarrow> x \<in> set xs \<Longrightarrow> x \<le> last xs" for x :: "'a::linorder"
  by (induction xs rule: rev_induct) (auto simp: sorted_append)

lemma stepPastOrphans_fresh:
  assumes "sorted onDisk" "\<forall>i \<in> set onDisk. unat i + 2 < 2 ^ 32" "ids \<noteq> []" "set ids \<subseteq> set onDisk"
    and "n \<in> insert 0 ((\<lambda>i. i + 1) ` set ids)"
  shows "\<forall>i \<in> set onDisk. i < stepPastOrphans onDisk n" "unat (stepPastOrphans onDisk n) + 1 < 2 ^ 32"
proof -
  have ne: "onDisk \<noteq> []" using assms(3,4) by auto
  have suc: "unat (i + 1) = unat i + 1" if "i \<in> set onDisk" for i
  proof -
    have "unat i + 1 < 2 ^ 32" using that assms(2) by fastforce
    then show ?thesis by (simp add: unat_word_ariths)
  qed
  have lst: "last onDisk \<in> set onDisk" using ne by simp
  have "i < last onDisk + 1" if i: "i \<in> set onDisk" for i
  proof -
    have "i \<le> last onDisk" using assms(1) i by (rule sorted_le_last)
    then show ?thesis using suc [OF lst] by (simp add: word_le_nat_alt word_less_nat_alt)
  qed
  then show "\<forall>i \<in> set onDisk. i < stepPastOrphans onDisk n"
    using ne by (auto simp: stepPastOrphans_def not_less intro: less_le_trans)
  have "unat (i + 1) + 1 < 2 ^ 32" if "i \<in> set onDisk" for i using suc [OF that] that assms(2) by simp
  then show "unat (stepPastOrphans onDisk n) + 1 < 2 ^ 32"
    using assms(4,5) lst by (auto simp: stepPastOrphans_def)
qed

section \<open>The end of Open\<close>

lemma sweep_map_subset:
  assumes "map_ok m" "map_get m i = None"
  shows "map_get (sweep_map fault live m) i = None"
proof -
  have "map_ok m \<Longrightarrow> map_get m i = None \<Longrightarrow>
      map_get (foldl (\<lambda>m i. if i \<in> set live \<or> fault i then m else map_del m i) m ks) i = None" for ks
    by (induction ks arbitrary: m) (auto simp: map_index_simps)
  then show ?thesis using assms by (simp add: sweep_map_def)
qed

lemma sweepOrphans_inv:
  assumes "db_inv L db m" "d_manifest (db_disk db) = Some (Some (manifest_doc ids a))" "a \<in> set ids"
    and "\<And>i. map_get (db_segments db) i \<noteq> None \<Longrightarrow> i \<in> set ids"
    and "db' = db\<lparr>db_disk := snd (sweepOrphans ok_open_env (db_disk db))\<rparr>"
  shows "db_inv L db' m" "healthy db \<Longrightarrow> healthy db'"
proof -
  have ok: "map_ok (db_files db)" using assms(1) by (simp add: db_inv_def segs_inv_def)
  have f: "db_files db' = sweep_map (\<lambda>_. False) (sorted_list_of_set (set ids)) (db_files db)"
    using assms(2,3,5) by (simp add: sweepOrphans_def ok_open_env_def readManifest_doc)
  show "db_inv L db' m"
    by (rule db_inv_files [OF assms(1)]) (use assms(4) sweep_map_ok [OF ok] f in \<open>auto simp: assms(5)\<close>)
  show "healthy db'" if "healthy db"
    using that sweep_map_subset [OF ok] f by (auto simp: healthy_def assms(5))
qed

text \<open>The live set of a directory that is about to be opened, and what its files hold.\<close>

definition live_dir :: "disk \<Rightarrow> u32 list \<Rightarrow> u32 \<Rightarrow> (u32 \<Rightarrow> log_item list) \<Rightarrow> bool" where
  "live_dir d ids a L \<longleftrightarrow> map_ok (d_files d) \<and> d_manifest d = Some (Some (manifest_doc ids a)) \<and> a \<in> set ids \<and>
     (\<forall>i \<in> set ids. \<exists>f. map_get (d_files d) i = Some f \<and> recoverable (d_hints d) (Some a) L i f (opened_segment i f)) \<and>
     (\<forall>i. i \<notin> set ids \<longrightarrow> L i = []) \<and> (\<forall>i \<in> set (map_keys (d_files d)). unat i + 2 < 2 ^ 32)"

definition live_log :: "u32 list \<Rightarrow> (u32 \<Rightarrow> log_item list) \<Rightarrow> log_item list" where
  "live_log ids L = concat (map L (sorted_list_of_set (set ids)))"

lemma dir_log_live:
  assumes "map_ok segs" "set (map_keys segs) = set ids"
  shows "dir_log segs L = live_log ids L"
proof -
  have "sort (map_keys segs) = sorted_list_of_set (set ids)"
    using assms by (simp add: sorted_list_of_set_sort_remdups distinct_remdups_id distinct_map_keys flip: assms(2))
  then show ?thesis by (simp add: dir_log_def dir_segs_def live_log_def seg_items_def comp_def)
qed

lemma finish_fresh:
  assumes "recovered_db L db" "represents (live_contents L db) (db_keydir db) m \<and> indexed L (db_keydir db)" "db_active db = None"
    and "\<And>i. map_get (db_files db) i \<noteq> None \<Longrightarrow> i < db_nextID db" "unat (db_nextID db) + 1 < 2 ^ 32" "\<not> db_writesDisabled db"
  shows "\<exists>db'. freshActive False db = (Ok True, db') \<and> db_inv L db' m \<and> healthy db' \<and> db_active db' = Some (db_nextID db) \<and>
    db_segments db' = map_set (db_segments db) (db_nextID db) (new_segment (db_nextID db)) \<and> db_opts db' = db_opts db \<and>
    db_closed db' = db_closed db \<and> d_manifest (db_disk db') = d_manifest (db_disk db)"
proof -
  let ?n = "db_nextID db"
  have n: "map_get (db_files db) ?n = None" using assms(4) by force
  let ?db' = "(set_files (map_set (db_files db) ?n new_file) (db\<lparr>db_nextID := ?n + 1\<rparr>))
    \<lparr>db_segments := map_set (db_segments db) ?n (new_segment ?n), db_active := Some ?n\<rparr>"
  have fr: "freshActive False db = (Ok True, ?db')"
    using assms(3) n by (simp add: freshActive_def createSegment_def Let_def new_segment_def)
  have inv: "db_inv L ?db' m" by (rule fresh_inv [OF assms(1) n assms(2)]) simp_all
  have ok: "map_ok (db_files db)" "map_ok (db_segments db)" using assms(1) by (simp_all add: recovered_db_def)
  have gt: "?n < ?n + 1" using assms(5) by (simp add: word_less_nat_alt unat_word_ariths)
  then have "map_get (db_files db) (?n + 1) = None"
    using assms(4) [of "?n + 1"] by (cases "map_get (db_files db) (?n + 1)") auto
  then have "map_get (map_set (db_files db) ?n new_file) (?n + 1) = None"
    using ok(1) gt by (simp add: map_index_simps)
  then have "healthy ?db'" using assms(6) ok by (simp add: healthy_def map_index_simps new_segment_def)
  with fr inv show ?thesis by simp
qed

lemma ok_open_env_simps [simp]:
  "oe_mkdir ok_open_env = False" "oe_lock ok_open_env = False" "oe_readDir ok_open_env = False"
  "oe_readManifest ok_open_env = False" "oe_openSeg ok_open_env = (\<lambda>_. False)" "oe_recover ok_open_env = ok_recover_env"
  "oe_seek ok_open_env = False" "oe_create ok_open_env = False" "oe_manifest ok_open_env = NoFault"
  by (simp_all add: ok_open_env_def)

lemma publish_promoted:
  assumes "recovered_db L db" "represents (live_contents L db) (db_keydir db) m \<and> indexed L (db_keydir db)" "map_get (db_segments db) a = Some s"
    and "int (seg_size s) < o_MaxSegmentSize (db_opts db)" "d_manifest (db_disk db) = Some (Some (manifest_doc ids a))"
    and "a \<in> set ids" "\<And>i. map_get (db_segments db) i \<noteq> None \<Longrightarrow> i \<in> set ids"
    and "map_get (db_files db) (db_nextID db) = None" "\<not> db_writesDisabled db"
  shows "\<exists>db'. publishOpen ok_open_env (Some a) False db = Ok db' \<and> db_inv L db' m \<and> healthy db' \<and>
    db_opts db' = db_opts db \<and> db_closed db' = db_closed db"
proof -
  let ?db2 = "db\<lparr>db_segments := map_set (db_segments db) a (s\<lparr>seg_bw := Some []\<rparr>), db_active := Some a\<rparr>"
  let ?db4 = "set_manifest (d_manifest (db_disk ?db2)) ?db2"
  have ok: "map_ok (db_segments db)" using assms(1) by (simp add: recovered_db_def)
  have "\<not> seg_werr s" using assms(1,3) recovered_good by (fastforce simp: recovered_db_def)
  then have h: "healthy ?db4" using assms(8,9) ok by (simp add: healthy_def map_index_simps)
  have "db_inv L ?db2 m" using assms(1-3) by (intro promote_inv) simp_all
  then have inv: "db_inv L ?db4 m" by (rule db_inv_cong) simp_all
  have "\<And>i. map_get (db_segments ?db4) i \<noteq> None \<Longrightarrow> i \<in> set ids"
    using assms(6,7) ok by (auto simp: map_index_simps split: if_splits)
  moreover have "d_manifest (db_disk ?db4) = Some (Some (manifest_doc ids a))" using assms(5) by simp
  ultimately have sw: "db_inv L (?db4\<lparr>db_disk := snd (sweepOrphans ok_open_env (db_disk ?db4))\<rparr>) m"
    "healthy (?db4\<lparr>db_disk := snd (sweepOrphans ok_open_env (db_disk ?db4))\<rparr>)"
    using sweepOrphans_inv [OF inv _ assms(6) _ refl] h by blast+
  have "publishOpen ok_open_env (Some a) False db = Ok (?db4\<lparr>db_disk := snd (sweepOrphans ok_open_env (db_disk ?db4))\<rparr>)"
    using assms(3,4) by (simp add: publishOpen_def promoteActive_def freshActive_def Let_def)
  moreover have "db_opts (?db4\<lparr>db_disk := x\<rparr>) = db_opts db" "db_closed (?db4\<lparr>db_disk := x\<rparr>) = db_closed db" for x
    by simp_all
  ultimately show ?thesis using sw by blast
qed

lemma publish_fresh:
  assumes "recovered_db L db" "represents (live_contents L db) (db_keydir db) m \<and> indexed L (db_keydir db)" "map_get (db_segments db) a = Some s"
    and "\<not> int (seg_size s) < o_MaxSegmentSize (db_opts db)" "db_active db = None"
    and "\<And>i. map_get (db_files db) i \<noteq> None \<Longrightarrow> i < db_nextID db" "unat (db_nextID db) + 1 < 2 ^ 32" "\<not> db_writesDisabled db"
  shows "\<exists>db'. publishOpen ok_open_env (Some a) False db = Ok db' \<and> db_inv L db' m \<and> healthy db' \<and>
    db_opts db' = db_opts db \<and> db_closed db' = db_closed db"
proof -
  let ?n = "db_nextID db"
  obtain db3 where f: "freshActive False db = (Ok True, db3)" "db_inv L db3 m" "healthy db3" "db_active db3 = Some ?n"
    "db_segments db3 = map_set (db_segments db) ?n (new_segment ?n)" "db_opts db3 = db_opts db" "db_closed db3 = db_closed db"
    using finish_fresh [OF assms(1,2,5,6-8)] by auto
  let ?ids = "liveSegmentIDsLocked db3"
  let ?db4 = "set_manifest (Some (Some (manifest_doc ?ids ?n))) db3"
  have ok: "map_ok (db_segments db)" using assms(1) by (simp add: recovered_db_def)
  have ids: "i \<in> set ?ids \<longleftrightarrow> map_get (db_segments db3) i \<noteq> None" for i
    by (simp add: liveSegmentIDsLocked_def map_keys_iff)
  have n: "?n \<in> set ?ids" unfolding ids using f(5) ok by (simp add: map_index_simps)
  have inv: "db_inv L ?db4 m" by (rule db_inv_cong [OF f(2)]) simp_all
  have h: "healthy ?db4" using f(3) by (simp add: healthy_def)
  have "\<And>i. map_get (db_segments ?db4) i \<noteq> None \<Longrightarrow> i \<in> set ?ids" using ids by simp
  moreover have "d_manifest (db_disk ?db4) = Some (Some (manifest_doc ?ids ?n))" by simp
  ultimately have sw: "db_inv L (?db4\<lparr>db_disk := snd (sweepOrphans ok_open_env (db_disk ?db4))\<rparr>) m"
    "healthy (?db4\<lparr>db_disk := snd (sweepOrphans ok_open_env (db_disk ?db4))\<rparr>)"
    using sweepOrphans_inv [OF inv _ n _ refl] h by blast+
  have "publishOpen ok_open_env (Some a) False db = Ok (?db4\<lparr>db_disk := snd (sweepOrphans ok_open_env (db_disk ?db4))\<rparr>)"
    using assms(3,4) f(1,4) n by (simp add: publishOpen_def promoteActive_def writeManifest_total Let_def)
  moreover have "db_opts (?db4\<lparr>db_disk := x\<rparr>) = db_opts db" "db_closed (?db4\<lparr>db_disk := x\<rparr>) = db_closed db" for x
    by (simp_all add: f(6,7))
  ultimately show ?thesis using sw by blast
qed

lemma finishOpen_ok:
  assumes "map_ok (db_files db)" "map_ok (db_segments db)" "db_keydir db = newKeydir" "db_active db = None"
    and "\<forall>i \<in> set (map_keys (db_segments db)). \<exists>f seg. map_get (db_files db) i = Some f \<and>
      map_get (db_segments db) i = Some seg \<and> recoverable (d_hints (db_disk db)) (Some a) L i f seg"
    and "sorted (map item_tstamp (dir_log (db_segments db) L))" "\<forall>i. map_get (db_segments db) i = None \<longrightarrow> L i = []"
    and "d_manifest (db_disk db) = Some (Some (manifest_doc ids a))" "a \<in> set ids" "set (map_keys (db_segments db)) = set ids"
    and "\<And>i. map_get (db_files db) i \<noteq> None \<Longrightarrow> i < db_nextID db" "unat (db_nextID db) + 1 < 2 ^ 32" "\<not> db_writesDisabled db"
  shows "\<exists>db'. finishOpen ok_open_env (Some a) False db = Ok db' \<and> db_inv L db' (log_store (dir_log (db_segments db) L)) \<and>
    healthy db' \<and> db_opts db' = db_opts db \<and> db_closed db' = db_closed db"
proof -
  let ?k = "write_segs (dir_segs (db_segments db) L) newKeydir" and ?m = "log_store (dir_log (db_segments db) L)"
  let ?l = "foldl (\<lambda>l i. bumpTstamp (item_tstamp i) l) (db_lastTstamp db) (dir_log (db_segments db) L)"
  obtain files segs where rec: "recover ok_recover_env (d_hints (db_disk db)) (Some a) (db_files db) (db_segments db)
      (newKeydir, db_lastTstamp db) = (Ok (?k, ?l), files, segs)"
    and r: "map_ok files" "map_ok segs"
    "\<forall>j. j \<notin> set (map_keys (db_segments db)) \<longrightarrow> map_get files j = map_get (db_files db) j \<and> map_get segs j = map_get (db_segments db) j"
    "\<forall>i \<in> set (map_keys (db_segments db)). \<exists>f seg. map_get files i = Some f \<and> map_get segs i = Some seg \<and> recovered L i f seg"
    by (rule recover_dir [OF assms(1,2,5,6), of "db_lastTstamp db"])
  let ?db1 = "(set_files files db)\<lparr>db_segments := segs, db_keydir := ?k, db_lastTstamp := ?l\<rparr>"
  have keys: "map_get segs i \<noteq> None \<longleftrightarrow> i \<in> set (map_keys (db_segments db))" for i
    using r(3,4) map_keys_iff [of i "db_segments db"] by (cases "i \<in> set (map_keys (db_segments db))") auto
  have val: "\<forall>it \<in> set (L i). valid_item it \<and> item_updates it \<noteq> []" for i
    using assms(5,7) map_keys_iff [of i "db_segments db"]
    by (cases "i \<in> set (map_keys (db_segments db))") (fastforce simp: recoverable_def)+
  have "\<exists>f. map_get files i = Some f \<and> recovered L i f s" if "map_get segs i = Some s" for i s
    using r(4) keys [of i] that by force
  moreover have "L i = []" if "map_get segs i = None" for i
    using keys [of i] that assms(7) map_keys_iff [of i "db_segments db"] by metis
  ultimately have rdb: "recovered_db L ?db1"
    using r(1,2) val by (simp add: recovered_db_def)
  have rep: "represents (live_contents L ?db1) (db_keydir ?db1) ?m \<and> indexed L (db_keydir ?db1)"
    using represents_dir_log [OF assms(2), of L "live_contents L ?db1"] indexed_dir_log [OF assms(2,7)] val keys
    by (simp add: live_contents_def)
  have lt: "i < db_nextID ?db1" if "map_get (db_files ?db1) i \<noteq> None" for i
    using that assms(5) assms(11) [of i] r(3) by (cases "i \<in> set (map_keys (db_segments db))") auto
  then have free: "map_get (db_files ?db1) (db_nextID ?db1) = None" by (metis less_irrefl)
  obtain s where s: "map_get (db_segments ?db1) a = Some s" using keys [of a] assms(9,10) by auto
  have live: "map_get (db_segments ?db1) i \<noteq> None \<Longrightarrow> i \<in> set ids" for i using keys assms(10) by simp
  have "finishOpen ok_open_env (Some a) False db = publishOpen ok_open_env (Some a) False ?db1"
    using rec assms(3) by (simp add: finishOpen_def)
  then show ?thesis
    using publish_promoted [OF rdb rep s _ _ assms(9) live free] publish_fresh [OF rdb rep s _ _ lt] assms(4,8,12,13)
    by (cases "int (seg_size s) < o_MaxSegmentSize (db_opts ?db1)") simp_all
qed

section \<open>Reopening rebuilds the store\<close>

lemma Open_live_dir:
  assumes "live_dir d ids a L" "\<not> d_locked d" "resolveOptions opts = Ok opts'"
    and "sorted (map item_tstamp (live_log ids L))"
  shows "\<exists>db. Open ok_open_env opts d = Ok db \<and> db_inv L db (log_store (live_log ids L)) \<and> healthy db \<and>
    db_opts db = opts' \<and> \<not> db_closed db"
proof -
  let ?d = "d\<lparr>d_locked := True\<rparr>" and ?ids = "sorted_list_of_set (set ids)"
  have ok: "map_ok (d_files d)" and mf: "d_manifest d = Some (Some (manifest_doc ids a))" and a: "a \<in> set ids"
    and files: "\<forall>i \<in> set ids. \<exists>f. map_get (d_files d) i = Some f \<and> recoverable (d_hints d) (Some a) L i f (opened_segment i f)"
    and out: "\<forall>i. i \<notin> set ids \<longrightarrow> L i = []" and big: "\<forall>i \<in> set (map_keys (d_files d)). unat i + 2 < 2 ^ 32"
    using assms(1) by (auto simp: live_dir_def)
  have disk: "set (listSegments ?d) = set (map_keys (d_files d))" "sorted (listSegments ?d)" by (simp_all add: listSegments_def)
  have sub: "set ids \<subseteq> set (listSegments ?d)" using files map_keys_iff [of _ "d_files d"] disk by fastforce
  then have "find (\<lambda>i. i \<notin> set (listSegments ?d)) ?ids = None" by (auto simp: find_None_iff)
  then have rec: "reconcileManifest False (d_manifest ?d) (listSegments ?d) = Ok (?ids, a, False)"
    using mf readManifest_doc [OF a] by (simp add: reconcileManifest_def)
  have "\<forall>i \<in> set ?ids. map_get (d_files d) i \<noteq> None" using files by fastforce
  from openSegments_ok [OF this gm.ok_emp, of 0] obtain segs n where op:
    "openSegments (\<lambda>_. False) (d_files d) ?ids [] 0 = Ok (segs, n)" "map_ok segs"
    "\<And>i. map_get segs i = (if i \<in> set ids then map_option (opened_segment i) (map_get (d_files d) i) else None)"
    "n \<in> insert 0 ((\<lambda>i. i + 1) ` set ?ids)" by (auto simp: map_index_simps)
  let ?n = "stepPastOrphans (listSegments ?d) n"
  have ne: "?ids \<noteq> []" using a by force
  note st = stepPastOrphans_fresh [OF disk(2) _ ne _ op(4)]
  have lt: "\<forall>i \<in> set (listSegments ?d). i < ?n" and nn: "unat ?n + 1 < 2 ^ 32"
    using st big sub disk(1) by simp_all
  let ?db = "initial_db opts' segs ?n ?d"
  have keys: "set (map_keys segs) = set ids" using op(3) files by (auto simp: map_keys_iff split: if_splits)
  have dl: "dir_log segs L = live_log ids L" by (rule dir_log_live [OF op(2) keys])
  have "\<exists>db'. finishOpen ok_open_env (Some a) False ?db = Ok db' \<and> db_inv L db' (log_store (dir_log (db_segments ?db) L)) \<and>
    healthy db' \<and> db_opts db' = db_opts ?db \<and> db_closed db' = db_closed ?db"
  proof (rule finishOpen_ok)
    show "\<forall>i \<in> set (map_keys (db_segments ?db)). \<exists>f seg. map_get (db_files ?db) i = Some f \<and>
        map_get (db_segments ?db) i = Some seg \<and> recoverable (d_hints (db_disk ?db)) (Some a) L i f seg"
      using files keys op(3) by (fastforce simp: initial_db_def)
    show "\<And>i. map_get (db_files ?db) i \<noteq> None \<Longrightarrow> i < db_nextID ?db"
      using lt disk(1) map_keys_iff [of _ "d_files d"] by (auto simp: initial_db_def)
    show "\<forall>i. map_get (db_segments ?db) i = None \<longrightarrow> L i = []"
      using op(3) out files by (fastforce simp: initial_db_def split: if_splits)
  qed (use ok op(2) mf a keys nn assms(4) dl in \<open>simp_all add: initial_db_def\<close>)
  then show ?thesis
    using assms(2,3) rec op(1) dl ne
    by (simp add: Open_def acquireDataDirLock_def resolveActive_def initial_db_def)
qed

lemma resolveOptions_bound:
  "resolveOptions opts = Ok opts' \<Longrightarrow> o_MaxBatchEncodedSize opts' \<le> int (recordHeaderSize + maxBatchBodyLen)"
  by (auto simp: resolveOptions_def Let_def split: if_splits)

text \<open>
  C1. Opening a data directory rebuilds the store it holds. The manifest lists the live
  segments; the sealed ones are whole logs with missing, corrupt or faithful hints, the
  active one may end in a torn record, and any number of orphaned segment and hint files
  may lie around. If time stamps do not decrease along the live log, \<open>Open\<close> succeeds,
  representing exactly the store of the live log, and the database accepts writes.
\<close>

theorem Open_rebuilds_store:
  assumes "live_dir d ids a L" "\<not> d_locked d" "resolveOptions opts = Ok opts'"
    and "sorted (map item_tstamp (live_log ids L))"
  shows "\<exists>db. Open ok_open_env opts d = Ok db \<and> store_inv db (log_store (live_log ids L)) \<and>
    (\<forall>req now. valid_request req \<longrightarrow> int64_range now \<longrightarrow> (\<exists>db'. submit (ok_submit_env now) req db = (Ok (), db')))"
proof -
  obtain db where o: "Open ok_open_env opts d = Ok db" "db_inv L db (log_store (live_log ids L))" "healthy db"
    "db_opts db = opts'" "\<not> db_closed db"
    using Open_live_dir [OF assms] by blast
  moreover have "store_inv db (log_store (live_log ids L))"
    using o(2,4,5) resolveOptions_bound [OF assms(3)] by (auto simp: store_inv_def)
  ultimately show ?thesis using submit_ok [OF o(2,3,5)] by blast
qed

theorem Open_rebuilds_store_witness:
  "let put = Single \<lparr>rec_tstamp = 1, rec_flag = recordFlagPut, rec_key = [7], rec_value = [8]\<rparr>;
       d = \<lparr>d_files = [(0, \<lparr>f_data = log_bytes [put] @ take 9 (item_bytes put), f_synced = 0\<rparr>), (5, new_file)],
            d_hints = [], d_manifest = Some (Some (manifest_doc [0] 0)), d_locked = False\<rparr> in
   \<exists>db. Open ok_open_env small_opts d = Ok db \<and> store_inv db (log_store [put])"
proof -
  let ?put = "Single \<lparr>rec_tstamp = 1, rec_flag = recordFlagPut, rec_key = [7], rec_value = [8]\<rparr>"
  let ?f = "\<lparr>f_data = log_bytes [?put] @ take 9 (item_bytes ?put), f_synced = 0\<rparr>"
  let ?d = "\<lparr>d_files = [(0, ?f), (5, new_file)], d_hints = [], d_manifest = Some (Some (manifest_doc [0] 0)), d_locked = False\<rparr> :: disk"
  let ?L = "\<lambda>i :: u32. if i = 0 then [?put] else []"
  have v: "valid_item ?put" "9 < item_size ?put"
    by (simp_all add: valid_record_def int64_range_def record_consts encodedSize_def)
  have "recoverable [] (Some 0) ?L 0 ?f (opened_segment 0 ?f)"
    using v by (auto simp: recoverable_def opened_segment_def seg_ok_def simp del: item_bytes.simps valid_item.simps
        intro!: exI [of _ ?put] exI [of _ 9])
  then have l: "live_dir ?d [0] 0 ?L"
    by (simp add: live_dir_def map_ok_def map_get_def map_keys_def del: item_bytes.simps)
  have o: "resolveOptions small_opts = Ok small_opts"
    by (simp add: resolveOptions_def small_opts_def record_consts)
  have ll: "live_log [0] ?L = [?put]" by (simp add: live_log_def)
  have "sorted (map item_tstamp (live_log [0] ?L))" "\<not> d_locked ?d" unfolding ll by simp_all
  with Open_rebuilds_store [OF l _ o] show ?thesis unfolding ll Let_def by blast
qed

section \<open>Corruption\<close>

lemma openSegments_opened:
  assumes "openSegments fault files ids segs n = Ok (segs', n')" "map_ok segs"
  shows "map_ok segs' \<and> (\<forall>i. map_get segs' i = (if i \<in> set ids then map_option (opened_segment i) (map_get files i) else map_get segs i))"
  using assms
proof (induction ids arbitrary: segs n)
  case (Cons i ids)
  obtain f where f: "map_get files i = Some f" "openSegmentReadWrite (fault i) files i = Ok (opened_segment i f)"
    using Cons.prems(1) by (auto simp: openSegmentReadWrite_def opened_segment_def split: option.splits if_splits)
  have ok: "map_ok (map_set segs i (opened_segment i f))" using Cons.prems(2) by (simp add: map_index_simps)
  have "openSegments fault files ids (map_set segs i (opened_segment i f)) (if i + 1 > n then i + 1 else n) = Ok (segs', n')"
    using Cons.prems(1) f(2) by simp
  from Cons.IH [OF this ok] show ?case using Cons.prems(2) f(1) by (auto simp: map_index_simps)
qed simp

lemma recoverLoop_fails:
  assumes "i \<in> set ids" "distinct ids" "map_ok files" "map_ok segs" "map_get files i = Some f" "map_get segs i = Some seg"
    and "\<And>s. \<not> is_ok (recoverOne env hints f seg (isActive i) s)"
  shows "\<not> is_ok (fst (recoverLoop env hints isActive ids files segs s))"
  using assms(1-6)
proof (induction ids arbitrary: files segs s)
  case (Cons j ids)
  show ?case
  proof (cases "j = i")
    case True
    then show ?thesis using Cons.prems(5,6) assms(7) [of s] by (auto split: sum.splits)
  next
    case False
    then have i: "i \<in> set ids" "distinct ids" using Cons.prems(1,2) by auto
    note ih = Cons.IH [OF i]
    show ?thesis using Cons.prems False by (auto simp: map_index_simps ih split: option.splits sum.splits)
  qed
qed simp

text \<open>Recovery of a directory fails when the scan of one segment does; only a hint in place of the scan avoids it.\<close>

lemma recover_fails:
  assumes "map_ok files" "map_ok segs" "map_get files i = Some f" "map_get segs i = Some (opened_segment i f)"
    and "active = Some i \<or> (\<forall>es. readHintFile (rv_hint env i) hints i = Ok es \<longrightarrow> (\<exists>e \<in> set es. \<not> hintInBounds (int (length (f_data f))) e))"
    and "\<And>rf tf torn s. \<not> is_ok (recoverSegment rf tf f (opened_segment i f) torn s)"
  shows "\<not> is_ok (fst (recover env hints active files segs s))"
proof -
  have "\<not> is_ok (recoverOne env hints f (opened_segment i f) (active = Some i) s)" for s
    using assms(5,6) by (auto simp: recoverOne_def tryRecoverFromHint_def opened_segment_def split: sum.splits hint_error.splits)
  moreover have "i \<in> set (sort (map_keys segs))" "distinct (sort (map_keys segs))" using assms(2,4) by (simp_all add: map_keys_iff distinct_map_keys)
  ultimately show ?thesis unfolding recover_def using assms(1-4) by (intro recoverLoop_fails)
qed

text \<open>
  C16. Corruption of what is scanned is never dropped silently. Change one byte of any record of a live segment, outside the record's length
  fields: if the segment is the active one, or has no hint that can be used (it is missing, unreadable, corrupt or out of bounds), then \<open>Open\<close> fails,
  whatever records follow, whatever the other segments hold and whatever else goes wrong. (A sealed segment with a usable hint is not scanned: its
  records are not checked when the database is opened, as the specification says.)
\<close>

theorem Open_detects_corruption:
  assumes "readManifest False (d_manifest d) = Ok (ids, a)" "i \<in> set ids" "map_ok (d_files d)" "map_get (d_files d) i = Some f"
    and "i = a \<or> (\<forall>es. readHintFile (rv_hint (oe_recover env) i) (d_hints d) i = Ok es \<longrightarrow>
      (\<exists>e \<in> set es. \<not> hintInBounds (int (length (f_data f))) e))"
    and "f_data f = log_bytes pre @ (item_bytes it)[j := b] @ post" "\<forall>x \<in> set pre. valid_item x" "valid_item it"
    and "j < item_size it" "j < 13 \<or> 21 \<le> j" "b \<noteq> item_bytes it ! j"
  shows "\<not> is_ok (Open env opts d)"
proof
  assume "is_ok (Open env opts d)"
  then obtain db where "Open env opts d = Ok db" by (auto simp: is_ok_iff)
  then obtain existing act boot segs n o' where
    rc: "reconcileManifest (oe_readManifest env) (d_manifest d) (listSegments (d\<lparr>d_locked := True\<rparr>)) = Ok (existing, act, boot)"
    and os: "openSegments (oe_openSeg env) (d_files d) existing [] 0 = Ok (segs, n)"
    and fo: "finishOpen env (resolveActive existing act boot) boot
      (initial_db o' segs (stepPastOrphans (listSegments (d\<lparr>d_locked := True\<rparr>)) n) (d\<lparr>d_locked := True\<rparr>)) = Ok db"
    by (auto simp: Open_def acquireDataDirLock_def Let_def split: sum.splits if_splits)
  have "existing = ids" "act = a" "\<not> boot"
    using rc assms(1) by (auto simp: reconcileManifest_def readManifest_def split: option.splits if_splits sum.splits manifest_error.splits)
  then have act: "resolveActive existing act boot = Some a" using assms(2) by (auto simp: resolveActive_def)
  have so: "map_ok segs" "map_get segs i = Some (opened_segment i f)"
    using openSegments_opened [OF os] assms(2,4) \<open>existing = ids\<close> by (simp_all add: map_ok_def)
  have "\<not> is_ok (recoverSegment rf tf f (opened_segment i f) torn s)" for rf tf torn s
    by (rule recoverSegment_refuses [OF assms(7-11,6)]) (simp add: opened_segment_def)
  then have "\<not> is_ok (fst (recover (oe_recover env) (d_hints d) (Some a) (d_files d) segs (newKeydir, 0)))"
    using assms(3-5) so by (intro recover_fails [where i = i and f = f]) auto
  then show False using fo by (auto simp: finishOpen_def initial_db_def act is_ok_iff split: sum.splits prod.splits)
qed

theorem Open_detects_corruption_witness:
  "let put = Single \<lparr>rec_tstamp = 1, rec_flag = recordFlagPut, rec_key = [7], rec_value = [8]\<rparr>;
       f = \<lparr>f_data = (item_bytes put)[22 := 9] @ item_bytes put, f_synced = 0\<rparr> in
   \<not> is_ok (Open ok_open_env small_opts
     \<lparr>d_files = [(3, f)], d_hints = [], d_manifest = Some (Some (manifest_doc [3] 3)), d_locked = False\<rparr>)"
proof -
  let ?put = "Single \<lparr>rec_tstamp = 1, rec_flag = recordFlagPut, rec_key = [7], rec_value = [8]\<rparr>"
  let ?f = "\<lparr>f_data = (item_bytes ?put)[22 := 9] @ item_bytes ?put, f_synced = 0\<rparr>"
  let ?d = "\<lparr>d_files = [(3, ?f)], d_hints = [], d_manifest = Some (Some (manifest_doc [3] 3)), d_locked = False\<rparr> :: disk"
  have "9 \<noteq> item_bytes ?put ! 22" by (simp add: record_bytes_def frame_bytes_split nth_append)
  moreover have "readManifest False (d_manifest ?d) = Ok ([3], 3)" by (simp add: readManifest_doc)
  moreover have "f_data ?f = log_bytes [] @ (item_bytes ?put)[22 := 9] @ item_bytes ?put" by simp
  moreover have "valid_item ?put" "22 < item_size ?put" by (simp_all add: valid_record_def int64_range_def record_consts encodedSize_def)
  ultimately have "\<not> is_ok (Open ok_open_env small_opts ?d)"
    by (intro Open_detects_corruption [where i = 3 and f = ?f and ids = "[3]" and a = 3 and pre = "[]" and it = ?put and j = 22 and b = 9])
      (simp_all add: map_ok_def map_get_def del: item_bytes.simps valid_item.simps)
  then show ?thesis unfolding Let_def .
qed

end
