(* ===== verification/Crash.thy ===== *)
theory Crash
  imports Open
begin

text \<open>
  Crash and restart, end to end. \<open>plain_inv\<close> is the invariant of a database that has not
  been compacted: the active segment has the highest id, the manifest names exactly the
  live segments, and time stamps do not decrease along the log. Every write keeps it,
  failures included; and whenever the process stops, reopening the directory it leaves
  behind rebuilds the store. What the model's crash keeps is what the operating system has
  accepted: the contents of the files; buffered bytes are lost.
\<close>

section \<open>Logs in id order\<close>

lemma live_log_cong: "set ids = set ids' \<Longrightarrow> live_log ids L = live_log ids' L"
  by (simp add: live_log_def)

lemma concat_map_empty: "concat (map L xs) = concat (map L (filter (\<lambda>i. L i \<noteq> []) xs))"
  by (induction xs) auto

lemma sorted_list_of_set_filter:
  "finite S \<Longrightarrow> filter P (sorted_list_of_set S) = sorted_list_of_set {i \<in> S. P i}"
  by (rule sorted_distinct_set_unique) (auto intro: sorted_filter [of id, simplified])

text \<open>Segments with an empty log do not count.\<close>

lemma live_log_support:
  assumes "{i \<in> set ids'. L i \<noteq> []} = {i \<in> set ids. L i \<noteq> []}"
  shows "live_log ids' L = live_log ids L"
  unfolding live_log_def
  by (subst (1 2) concat_map_empty) (simp only: sorted_list_of_set_filter List.finite_set assms)

text \<open>Appending to the segment with the highest id appends to the log.\<close>

lemma live_log_append:
  assumes "a \<in> set ids" "\<forall>i \<in> set ids. i \<le> a"
  shows "live_log ids (L(a := L a @ is)) = live_log ids L @ is"
proof -
  let ?S = "set ids - {a}"
  have "sorted_list_of_set (set ids) = sorted_list_of_set ?S @ [a]"
    by (rule sorted_distinct_set_unique) (use assms in \<open>auto simp: sorted_append\<close>)
  moreover have "map (L(a := L a @ is)) (sorted_list_of_set ?S) = map L (sorted_list_of_set ?S)" by auto
  ultimately show ?thesis by (simp add: live_log_def)
qed

section \<open>The invariant\<close>

definition manifest_covers :: "db \<Rightarrow> bool" where
  "manifest_covers db \<longleftrightarrow> (\<exists>ids a. d_manifest (db_disk db) = Some (Some (manifest_doc ids a)) \<and>
     ((db_active db = Some a \<and> set ids = set (map_keys (db_segments db))) \<or>
      (db_writesDisabled db \<and> set ids = insert a (set (map_keys (db_segments db))) \<and> map_get (db_segments db) a = None \<and>
       map_get (db_files db) a = Some new_file \<and> (\<forall>i s. map_get (db_segments db) i = Some s \<longrightarrow> \<not> seg_werr s))))"

text \<open>What does not depend on the logs: no hint files, the active id on top, fresh ids above all files.\<close>

definition plain_layout :: "db \<Rightarrow> bool" where
  "plain_layout db \<longleftrightarrow> d_hints (db_disk db) = [] \<and> manifest_covers db \<and>
     (\<forall>a i. db_active db = Some a \<longrightarrow> map_get (db_segments db) i \<noteq> None \<longrightarrow> i \<le> a) \<and>
     (\<forall>i. map_get (db_files db) i \<noteq> None \<longrightarrow> i < db_nextID db)"

definition log_ordered :: "(u32 \<Rightarrow> log_item list) \<Rightarrow> db \<Rightarrow> bool" where
  "log_ordered L db \<longleftrightarrow> sorted (map item_tstamp (live_log (map_keys (db_segments db)) L)) \<and>
     (\<forall>i. \<forall>it \<in> set (L i). item_tstamp it \<le> db_lastTstamp db)"

definition plain_inv :: "(u32 \<Rightarrow> log_item list) \<Rightarrow> db \<Rightarrow> store \<Rightarrow> bool" where
  "plain_inv L db m \<longleftrightarrow> db_inv L db m \<and> plain_layout db \<and> log_ordered L db \<and>
     m = log_store (live_log (map_keys (db_segments db)) L)"

lemma plain_invD:
  assumes "plain_inv L db m"
  shows "db_inv L db m" "plain_layout db" "log_ordered L db" "segs_inv L db"
  using assms unfolding plain_inv_def db_inv_def by blast+

lemma set_map_keys_set: "map_ok m \<Longrightarrow> set (map_keys (map_set m k v)) = insert k (set (map_keys m))"
  by (auto simp: map_keys_iff map_index_simps split: if_splits)

lemma plain_empty: "plain_inv (\<lambda>_. []) (empty_db opts) Map.empty"
  using empty_db_inv [of opts]
  by (auto simp: plain_inv_def plain_layout_def manifest_covers_def log_ordered_def empty_db_def map_keys_def map_get_def live_log_def
      log_store_def intro!: exI [of _ "[0]"] exI [of _ 0] split: if_splits)

section \<open>Reopening\<close>

lemma some_item: "\<exists>it. valid_item it"
  by (rule exI [of _ "Single \<lparr>rec_tstamp = 0, rec_flag = recordFlagPut, rec_key = [0], rec_value = []\<rparr>"])
    (simp add: valid_record_def int64_range_def record_consts)

lemma seg_good_torn_tail:
  assumes "seg_good is f s"
  shows "\<exists>it m. valid_item it \<and> m < item_size it \<and> f_data f = log_bytes is @ take m (item_bytes it)"
proof -
  obtain it where "valid_item it" using some_item by blast
  then show ?thesis using assms item_size_pos [of it] by (force simp: seg_good_def)
qed

lemma recoverable_good:
  assumes "seg_good (L i) f s" "\<forall>it \<in> set (L i). valid_item it \<and> item_updates it \<noteq> []" "active \<noteq> Some i \<Longrightarrow> \<not> seg_werr s"
  shows "recoverable [] active L i f (opened_segment i f)"
  using assms seg_good_synced [OF assms(1)] seg_good_torn_tail [OF assms(1)] seg_good_whole [OF assms(1)]
  by (auto simp: recoverable_def opened_segment_def seg_ok_def hint_faithful_def readHintFile_def map_index_simps)

lemma plain_live_dir:
  assumes "plain_inv L db m" "\<forall>i \<in> set (map_keys (db_files db)). unat i + 2 < 2 ^ 32"
  shows "\<exists>ids a. live_dir (unlock (db_disk db)) ids a L \<and> live_log ids L = live_log (map_keys (db_segments db)) L"
proof -
  have si: "segs_inv L db" and h: "d_hints (db_disk db) = []" using assms(1) by (auto simp: plain_inv_def plain_layout_def db_inv_def)
  have val: "\<forall>it \<in> set (L i). valid_item it \<and> item_updates it \<noteq> []" for i using segs_invD(5,6) [OF si] by blast
  have live: "\<exists>f. map_get (db_files db) i = Some f \<and> recoverable [] (Some a) L i f (opened_segment i f)"
    if i: "i \<in> set (map_keys (db_segments db))" and w: "\<And>s. map_get (db_segments db) i = Some s \<Longrightarrow> a \<noteq> i \<Longrightarrow> \<not> seg_werr s" for a i
  proof -
    obtain s where s: "map_get (db_segments db) i = Some s" using i by (auto simp: map_keys_iff)
    obtain f where f: "map_get (db_files db) i = Some f" "seg_good (L i) f s" using segs_invD(4) [OF si s] by blast
    show ?thesis using recoverable_good [of L i f s "Some a"] f val w s by auto
  qed
  have out: "\<forall>i. i \<notin> set (map_keys (db_segments db)) \<longrightarrow> L i = []" using segs_invD(7) [OF si] by (auto simp: map_keys_iff)
  obtain ids a where mf: "d_manifest (db_disk db) = Some (Some (manifest_doc ids a))" and
    c: "(db_active db = Some a \<and> set ids = set (map_keys (db_segments db))) \<or>
      (set ids = insert a (set (map_keys (db_segments db))) \<and> map_get (db_segments db) a = None \<and>
       map_get (db_files db) a = Some new_file \<and> (\<forall>i s. map_get (db_segments db) i = Some s \<longrightarrow> \<not> seg_werr s))"
    using assms(1) by (auto simp: plain_inv_def plain_layout_def manifest_covers_def)
  obtain b s where b: "db_active db = Some b" "map_get (db_segments db) b = Some s"
    using segs_inv_active [OF si] by metis
  note dd = live_dir_def unlock_def
  from c show ?thesis
  proof
    assume c: "db_active db = Some a \<and> set ids = set (map_keys (db_segments db))"
    then have "a \<in> set ids" using b by (auto simp: map_keys_iff)
    moreover have "\<not> seg_werr s" if "map_get (db_segments db) i = Some s" "a \<noteq> i" for i s
      using segs_invD(8) [OF si that(1)] c that(2) by auto
    ultimately have "live_dir (unlock (db_disk db)) ids a L"
      using c live out mf h assms(2) segs_invD(1) [OF si] by (simp add: dd)
    then show ?thesis using c live_log_cong by blast
  next
    assume c: "set ids = insert a (set (map_keys (db_segments db))) \<and> map_get (db_segments db) a = None \<and>
       map_get (db_files db) a = Some new_file \<and> (\<forall>i s. map_get (db_segments db) i = Some s \<longrightarrow> \<not> seg_werr s)"
    then have La: "L a = []" using segs_invD(7) [OF si] by blast
    have "seg_good (L a) new_file (new_segment a)" by (simp add: La seg_good_def seg_ok_def new_file_def new_segment_def)
    then have "recoverable [] (Some a) L a new_file (opened_segment a new_file)"
      using recoverable_good [of L a new_file "new_segment a" "Some a"] La by simp
    then have "live_dir (unlock (db_disk db)) ids a L"
      using c live out mf h assms(2) segs_invD(1) [OF si] by (auto simp: dd)
    then show ?thesis using live_log_support [of ids L "map_keys (db_segments db)"] La c by auto
  qed
qed

lemma plain_reopen:
  assumes "plain_inv L db m" "\<forall>i \<in> set (map_keys (db_files db)). unat i + 2 < 2 ^ 32" "resolveOptions opts = Ok opts'"
  shows "\<exists>db'. Open ok_open_env opts (unlock (db_disk db)) = Ok db' \<and> store_inv db' m"
proof -
  obtain ids a where l: "live_dir (unlock (db_disk db)) ids a L" "live_log ids L = live_log (map_keys (db_segments db)) L"
    using plain_live_dir [OF assms(1,2)] by blast
  have "sorted (map item_tstamp (live_log ids L))" "m = log_store (live_log ids L)" "\<not> d_locked (unlock (db_disk db))"
    using assms(1) l(2) by (simp_all add: plain_inv_def log_ordered_def unlock_def)
  with Open_live_dir [OF l(1) _ assms(3)] resolveOptions_bound [OF assms(3)] show ?thesis
    by (fastforce simp: store_inv_def)
qed

section \<open>Writes keep the invariant\<close>

lemma plain_layout_cong:
  assumes "plain_layout db" "db_disk db' = db_disk db" "db_segments db' = db_segments db" "db_active db' = db_active db"
    and "db_writesDisabled db' = db_writesDisabled db" "db_nextID db \<le> db_nextID db'"
  shows "plain_layout db'"
  using assms by (auto simp: plain_layout_def manifest_covers_def intro: less_le_trans)

lemma plain_layout_update:
  assumes "plain_layout db" "segs_inv L db" "db_active db = Some a" "map_get (db_segments db) a \<noteq> None"
    and "db_writesDisabled db \<Longrightarrow> seg_werr s \<Longrightarrow> map_get (db_segments db) a = Some s0 \<and> seg_werr s0"
  shows "plain_layout (seg_update a f s db)"
proof -
  note ok = segs_invD(1,2) [OF assms(2)]
  have fa: "map_get (db_files db) a \<noteq> None" using segs_invD(4) [OF assms(2), of a] assms(4) by fastforce
  have keys: "set (map_keys (map_set (db_segments db) a s)) = set (map_keys (db_segments db))"
    using assms(4) ok by (auto simp: set_map_keys_set map_keys_iff)
  obtain ids b where mf: "d_manifest (db_disk db) = Some (Some (manifest_doc ids b))" and
    c: "(db_active db = Some b \<and> set ids = set (map_keys (db_segments db))) \<or>
      (db_writesDisabled db \<and> set ids = insert b (set (map_keys (db_segments db))) \<and> map_get (db_segments db) b = None \<and>
       map_get (db_files db) b = Some new_file \<and> (\<forall>i s. map_get (db_segments db) i = Some s \<longrightarrow> \<not> seg_werr s))"
    using assms(1) unfolding plain_layout_def manifest_covers_def by blast
  have "manifest_covers (seg_update a f s db)"
    unfolding manifest_covers_def
    by (rule exI [of _ ids], rule exI [of _ b]) (use mf c assms(4,5) ok keys in \<open>auto simp: map_index_simps\<close>)
  then show ?thesis using assms(1,3,4) fa ok by (auto simp: plain_layout_def map_index_simps)
qed

lemma plain_publish:
  assumes "plain_layout db" "segs_inv L db" "\<not> db_writesDisabled db" "map_get (db_files db) i = None" "i < db_nextID db"
    and "\<forall>j. map_get (db_files db) j \<noteq> None \<longrightarrow> j < i"
    and "\<And>j s. map_get (db_segments db) j = Some s \<Longrightarrow> \<not> seg_werr s"
    and "publishActive env (new_segment i) (set_files (map_set (db_files db) i new_file) db) = (r, db')"
  shows "plain_layout db'"
proof -
  note ok = segs_invD(1,2) [OF assms(2)]
  have segs: "map_get (db_segments db) j \<noteq> None \<Longrightarrow> j < i" for j using segs_invD(4) [OF assms(2)] assms(6) by fastforce
  have none: "map_get (db_segments db) i = None" using segs [of i] by blast
  let ?db3 = "set_files (map_set (db_files db) i new_file) db" and ?ids = "map_keys (db_segments db) @ [i]"
  have keep: "plain_layout d" if "map_ok (db_files d)" "d_hints (db_disk d) = []" "d_manifest (db_disk d) = d_manifest (db_disk db)"
    "db_segments d = db_segments db" "db_active d = db_active db" "db_writesDisabled d = db_writesDisabled db" "db_nextID d = db_nextID db"
    "\<And>j f. map_get (db_files d) j = Some f \<Longrightarrow> j < db_nextID db" for d
    using assms(1,3,5) that by (auto simp: plain_layout_def manifest_covers_def)
  have new: "plain_layout d" if "d_hints (db_disk d) = []" "d_manifest (db_disk d) = Some (Some (manifest_doc ?ids i))"
    "db_nextID d = db_nextID db" "db_files d = map_set (db_files db) i new_file"
    "(db_segments d = map_set (db_segments db) i (new_segment i) \<and> db_active d = Some i) \<or>
     (db_segments d = db_segments db \<and> db_active d = db_active db \<and> db_writesDisabled d)" for d
  proof -
    have "manifest_covers d" unfolding manifest_covers_def
      by (rule exI [of _ ?ids], rule exI [of _ i])
        (use that(2,4,5) ok none assms(7) in \<open>auto simp: set_map_keys_set map_index_simps\<close>)
    then show ?thesis
      using that assms(1,5) segs ok by (fastforce simp: plain_layout_def map_index_simps split: if_splits)
  qed
  have h: "d_hints (db_disk db) = []" and fs: "map_get (db_files db) j = Some f \<Longrightarrow> j < db_nextID db" for j f
    using assms(1) by (auto simp: plain_layout_def)
  consider "db' = remove_file (re_remove env) i ?db3"
    | "db' = remove_file (re_remove env) i (set_manifest (d_manifest (db_disk db)) ?db3)"
    | "db' = (set_manifest (Some (Some (manifest_doc ?ids i))) ?db3)\<lparr>db_writesDisabled := True\<rparr>"
    | "db' = (set_manifest (Some (Some (manifest_doc ?ids i))) ?db3)\<lparr>db_segments := map_set (db_segments db) i (new_segment i), db_active := Some i\<rparr>"
    using assms(8) by (auto simp: publishActive_def Let_def new_segment_def writeManifest_cases split: if_splits)
  then show ?thesis
  proof cases
    case 1 then show ?thesis by (intro keep) (use fs in \<open>auto simp: h ok assms(5) remove_file_def map_index_simps split: if_splits\<close>)
  next
    case 2 then show ?thesis by (intro keep) (use fs in \<open>auto simp: h ok assms(5) remove_file_def map_index_simps split: if_splits\<close>)
  next
    case 3 then show ?thesis by (intro new) (auto simp: h)
  next
    case 4 then show ?thesis by (intro new) (auto simp: h)
  qed
qed

lemma plain_rotate:
  assumes "plain_layout db" "db_inv L db m" "\<not> db_writesDisabled db" "db_nextID db < db_nextID db + 1"
    and "rotateActive env db = (r, db')"
  shows "plain_layout db'" "db_nextID db' \<le> db_nextID db + 1" "db_nextID db \<le> db_nextID db'"
    "\<forall>i. map_get (db_segments db) i \<noteq> None \<longrightarrow> map_get (db_segments db') i \<noteq> None" "r = Ok () \<Longrightarrow> \<not> db_writesDisabled db'"
proof -
  have si: "segs_inv L db" using assms(2) by (simp add: db_inv_def)
  then obtain a f s where a: "active_seg db = Some (a, f, s)" "db_active db = Some a"
    "map_get (db_segments db) a = Some s" "seg_good (L a) f s" "seg_id s = a" "seg_bw s \<noteq> None"
    by (rule segs_inv_active)
  note ok = segs_invD(1,2) [OF si]
  obtain r1 f1 s1 where sy: "seg_sync (re_syncW env) (re_syncS env) f s = (r1, f1, s1)" by (metis prod_cases3)
  note g = seg_sync_good [OF a(4) sy a(6)]
  let ?db1 = "seg_update a f1 s1 db"
  let ?db2 = "?db1\<lparr>db_nextID := db_nextID db + 1\<rparr>"
  have l1: "plain_layout ?db1" by (rule plain_layout_update [OF assms(1) si a(2)]) (use a(3) assms(3) in auto)
  have l2: "plain_layout ?db2" by (rule plain_layout_cong [OF l1]) (use assms(4) in auto)
  have inv1: "db_inv L ?db1 m" using db_inv_failed [OF assms(2) a(2) _ g(1) _ g(3)] a(3,5) g(2) by simp
  have si2: "segs_inv L ?db2" by (rule segs_inv_cong [of L ?db1]) (use inv1 in \<open>simp_all add: db_inv_def\<close>)
  obtain r2 files where cr: "createSegment (re_create env) (db_files ?db2) (db_nextID db) = (r2, files)" by (metis surj_pair)
  note c = createSegment_cases [OF cr]
  have "plain_layout db' \<and> (\<forall>i. map_get (db_segments db) i \<noteq> None \<longrightarrow> map_get (db_segments db') i \<noteq> None) \<and>
    db_nextID db \<le> db_nextID db' \<and> db_nextID db' \<le> db_nextID db + 1 \<and> (r = Ok () \<longrightarrow> \<not> db_writesDisabled db')"
  proof (cases "\<exists>u nxt. r1 = Inr u \<and> r2 = Inr nxt")
    case False
    then have "db' = ?db1 \<and> r \<noteq> Ok () \<or> db' = ?db2 \<and> r \<noteq> Ok ()"
      using assms(5) a(1) sy cr by (auto simp: rotateActive_def Let_def split: sum.splits)
    then show ?thesis using l1 l2 ok assms(4) by (auto simp: map_index_simps)
  next
    case True
    then obtain nxt where r: "r1 = Inr ()" "r2 = Inr nxt" by auto
    then have n: "nxt = new_segment (db_nextID db)" "map_get (db_files ?db2) (db_nextID db) = None"
      "files = map_set (db_files ?db2) (db_nextID db) new_file" using c by auto
    have pub: "publishActive env (new_segment (db_nextID db)) (set_files (map_set (db_files ?db2) (db_nextID db) new_file) ?db2) = (r, db')"
      using assms(5) a(1) sy cr r n by (simp add: rotateActive_def Let_def)
    have "plain_layout db'"
    proof (rule plain_publish [OF l2 si2 _ n(2) _ _ _ pub])
      show "\<forall>j. map_get (db_files ?db2) j \<noteq> None \<longrightarrow> j < db_nextID db"
        using l1 by (simp add: plain_layout_def)
      show "\<not> seg_werr s'" if "map_get (db_segments ?db2) j = Some s'" for j s'
        using that g(4) r segs_invD(2,8) [OF si] a(2) by (auto simp: map_index_simps split: if_splits)
    qed (use assms(3,4) in auto)
    moreover have "db_nextID db' = db_nextID db + 1 \<and> (r = Ok () \<longrightarrow> \<not> db_writesDisabled db') \<and>
        (db_segments db' = db_segments ?db2 \<or> db_segments db' = map_set (db_segments ?db2) (db_nextID db) (new_segment (db_nextID db)))"
      using pub assms(3) by (auto simp: publishActive_def Let_def remove_file_def new_segment_def split: if_splits prod.splits sum.splits)
    ultimately show ?thesis using ok assms(4) by (auto simp: map_index_simps)
  qed
  then show "plain_layout db'" "db_nextID db' \<le> db_nextID db + 1" "db_nextID db \<le> db_nextID db'"
    "\<forall>i. map_get (db_segments db) i \<noteq> None \<longrightarrow> map_get (db_segments db') i \<noteq> None" "r = Ok () \<Longrightarrow> \<not> db_writesDisabled db'" by auto
qed

definition grown :: "db \<Rightarrow> db \<Rightarrow> bool" where
  "grown db db' \<longleftrightarrow> plain_layout db' \<and> db_nextID db \<le> db_nextID db' \<and> db_nextID db' \<le> db_nextID db + 1 \<and>
     (\<forall>i. map_get (db_segments db) i \<noteq> None \<longrightarrow> map_get (db_segments db') i \<noteq> None)"

lemma rotate_append_grown:
  assumes "plain_layout db0" "db_inv L db0 m" "\<not> db_writesDisabled db0" "db_nextID db0 < db_nextID db0 + 1"
    and "(if b then rotateActive env db0 else (Ok (), db0)) = (r1, db1)"
    and "db' = db1 \<or> (r1 = Ok () \<and> (\<exists>r2 db2 k. appendFlush env' p db1 = (r2, db2) \<and> (db' = db2 \<or> db' = db2\<lparr>db_keydir := k\<rparr>)))"
  shows "grown db0 db'"
proof -
  note rot = plain_rotate [OF assms(1-4)]
  have g1: "grown db0 db1" and nd: "r1 = Ok () \<Longrightarrow> \<not> db_writesDisabled db1" and inv1: "db_inv L db1 m"
    using assms(1-5) rot rotateActive_inv(1) by (auto simp: grown_def split: if_splits)
  have si: "segs_inv L db1" using inv1 by (simp add: db_inv_def)
  have upd: "grown db0 (seg_update a f s db1)" if "r1 = Ok ()" "db_active db1 = Some a" for a f s
  proof -
    have "map_get (db_segments db1) a \<noteq> None" using segs_inv_active [OF si] that(2) by (metis option.inject option.distinct(1))
    then show ?thesis using g1 plain_layout_update [OF _ si that(2)] nd that segs_invD(2) [OF si]
      by (auto simp: grown_def map_index_simps)
  qed
  have "grown db0 db2" if "r1 = Ok ()" "appendFlush env' p db1 = (r2, db2)" for r2 db2
    using appendFlush_shape [OF that(2)] g1 upd [OF that(1)] by auto
  moreover have "grown db0 (d\<lparr>db_keydir := k\<rparr>)" if "grown db0 d" for d k
    using that plain_layout_cong [of d "d\<lparr>db_keydir := k\<rparr>"] by (simp add: grown_def)
  ultimately show ?thesis using assms(6) g1 by auto
qed

lemma handleOne_grown:
  assumes "plain_layout db" "db_inv L db m" "db_nextID db < db_nextID db + 1" "valid_request req" "handleOne env req db = (r, db')"
  shows "grown db db'"
proof (cases "db_writesDisabled db")
  case True
  then show ?thesis using assms by (auto simp: handleOne_def grown_def)
next
  case False
  let ?db0 = "db\<lparr>db_lastTstamp := nextTstamp (we_now (qe_write env)) (db_lastTstamp db)\<rparr>"
  have l0: "plain_layout ?db0" by (rule plain_layout_cong [OF assms(1)]) simp_all
  have inv0: "db_inv L ?db0 m" by (rule db_inv_cong [OF assms(2)]) simp_all
  have ra: "grown ?db0 d" if "(if b then rotateActive env1 ?db0 else (Ok (), ?db0)) = (r1, db1)"
    "d = db1 \<or> (r1 = Ok () \<and> (\<exists>r2 db2 k. appendFlush env' p db1 = (r2, db2) \<and> (d = db2 \<or> d = db2\<lparr>db_keydir := k\<rparr>)))"
    for d b env1 r1 db1 env' p
    by (rule rotate_append_grown [OF l0 inv0 _ _ that]) (use False assms(3) in auto)
  consider flag key v where "handleSingle (qe_write env) flag key v db = (r, db')"
    | es where "handleBatch (qe_write env) es db = (r, db')"
    using handleOne_cases [OF assms(4)] assms(5) False by (auto simp: handleOne_def)
  then have "grown ?db0 db'"
  proof cases
    case 1
    then show ?thesis unfolding handleSingle_def Let_def by (auto split: prod.splits sum.splits intro: ra)
  next
    case 2
    then show ?thesis unfolding handleBatch_def Let_def by (auto split: prod.splits sum.splits intro: ra)
  qed
  then show ?thesis by (simp add: grown_def)
qed

lemma rotateActive_tstamp: "rotateActive env db = (r, db') \<Longrightarrow> db_lastTstamp db' = db_lastTstamp db"
  by (auto simp: rotateActive_def publishActive_def Let_def split: option.splits prod.splits sum.splits if_splits)

lemma appendFlush_tstamp: "appendFlush env p db = (r, db') \<Longrightarrow> db_lastTstamp db' = db_lastTstamp db"
  by (auto simp: appendFlush_def split: option.splits prod.splits sum.splits)

lemma handleOne_tstamp:
  assumes "valid_request req" "handleOne env req db = (r, db')"
  shows "db_lastTstamp db' = (if db_writesDisabled db then db_lastTstamp db else request_tstamp env db)"
proof (cases "db_writesDisabled db")
  case False
  consider flag key v where "handleSingle (qe_write env) flag key v db = (r, db')"
    | es where "handleBatch (qe_write env) es db = (r, db')"
    using handleOne_cases [OF assms(1)] assms(2) False by (auto simp: handleOne_def)
  then have "db_lastTstamp db' = request_tstamp env db"
  proof cases
    case 1
    then show ?thesis unfolding handleSingle_def Let_def request_tstamp_def
      by (auto split: prod.splits sum.splits if_splits dest!: rotateActive_tstamp appendFlush_tstamp)
  next
    case 2
    then show ?thesis unfolding handleBatch_def Let_def request_tstamp_def
      by (auto split: prod.splits sum.splits if_splits dest!: rotateActive_tstamp appendFlush_tstamp)
  qed
  then show ?thesis using False by simp
qed (use assms in \<open>auto simp: handleOne_def\<close>)

text \<open>The logs a state keeps, and the store they hold, depend only on the segments with records.\<close>

lemma plain_invI:
  assumes "plain_inv L db m" "db_inv L db' m" "grown db db'" "db_lastTstamp db \<le> db_lastTstamp db'"
  shows "plain_inv L db' m"
proof -
  have "segs_inv L db" using assms(1) by (simp add: plain_inv_def db_inv_def)
  then have "live_log (map_keys (db_segments db')) L = live_log (map_keys (db_segments db)) L"
    using assms(3) segs_invD(7) [of L db] by (intro live_log_support) (auto simp: map_keys_iff grown_def)
  then show ?thesis
    using assms by (fastforce simp: plain_inv_def log_ordered_def grown_def)
qed

lemma plain_inv_write:
  assumes "plain_inv L db m" "db_inv (L(a := L a @ [it])) db' (apply_updates m (item_updates it))" "grown db db'"
    and "db_active db' = Some a" "db_lastTstamp db \<le> item_tstamp it" "db_lastTstamp db' = item_tstamp it"
  shows "plain_inv (L(a := L a @ [it])) db' (apply_updates m (item_updates it))"
proof -
  let ?L = "L(a := L a @ [it])" and ?ids = "map_keys (db_segments db')"
  have si: "segs_inv L db" and si': "segs_inv ?L db'" using assms(1,2) by (simp_all add: plain_inv_def db_inv_def)
  have eq: "live_log ?ids L = live_log (map_keys (db_segments db)) L"
    using assms(3) segs_invD(7) [OF si] by (intro live_log_support) (auto simp: map_keys_iff grown_def)
  have top: "a \<in> set ?ids" "\<forall>i \<in> set ?ids. i \<le> a"
    using assms(3,4) segs_inv_active [OF si'] by (auto simp: grown_def plain_layout_def map_keys_iff)
  have app: "live_log ?ids ?L = live_log (map_keys (db_segments db)) L @ [it]" using live_log_append [OF top, of L "[it]"] eq by simp
  have low: "item_tstamp x \<le> item_tstamp it" if "x \<in> set (L i)" for x i
    using assms(1,5) that by (fastforce simp: plain_inv_def log_ordered_def)
  have "\<forall>x \<in> set (live_log (map_keys (db_segments db)) L). item_tstamp x \<le> item_tstamp it"
    using low by (auto simp: live_log_def)
  then have "log_ordered ?L db'"
    using assms(1,6) app low by (auto simp: log_ordered_def plain_inv_def sorted_append)
  moreover have "apply_updates m (item_updates it) = log_store (live_log ?ids ?L)"
    using assms(1) app by (simp add: plain_inv_def log_store_def apply_updates_append)
  ultimately show ?thesis using assms(2,3) by (simp add: plain_inv_def grown_def)
qed

text \<open>
  No counter overflows: \<open>n\<close> more requests may each take a fresh segment id and a time stamp
  past \<open>T\<close>, the bound on the clock and the last time stamp.
\<close>

definition room :: "int \<Rightarrow> nat \<Rightarrow> db \<Rightarrow> bool" where
  "room T n db \<longleftrightarrow> unat (db_nextID db) + n + 2 < 2 ^ 32 \<and> db_lastTstamp db \<le> T \<and> T + int n < 2 ^ 63 - 1 \<and> - (2 ^ 63) \<le> db_lastTstamp db"

lemma room_next: "room T (Suc n) db \<Longrightarrow> db_nextID db < db_nextID db + 1 \<and> unat (db_nextID db + 1) = Suc (unat (db_nextID db))"
  by (simp add: room_def word_less_nat_alt unat_word_ariths)

lemma nextTstamp_bounds:
  assumes "l \<le> T" "now \<le> T" "T < 2 ^ 63 - 1" "- (2 ^ 63) \<le> l"
  shows "l < nextTstamp now l" "nextTstamp now l \<le> T + 1"
proof -
  have "wrap64 (l + 1) = l + 1" using assms by (intro wrap64_id) (simp add: int64_range_def)
  then show "l < nextTstamp now l" "nextTstamp now l \<le> T + 1" using assms by (auto simp: nextTstamp_def)
qed

lemma handleOne_plain:
  assumes "plain_inv L db m" "valid_request req" "int64_range (we_now (qe_write env))" "we_now (qe_write env) \<le> T"
    and "room T (Suc n) db" "handleOne env req db = (r, db')"
  shows "(\<exists>L'. plain_inv L' db' (apply_updates m (if r = Ok True then request_updates req else []))) \<and> room (T + 1) n db'"
proof -
  note inv = plain_invD(1) [OF assms(1)] and lay = plain_invD(2) [OF assms(1)]
  note nx = room_next [OF assms(5)]
  have g: "grown db db'" using handleOne_grown [OF lay inv _ assms(2,6)] nx by simp
  have ts: "db_lastTstamp db < request_tstamp env db" "request_tstamp env db \<le> T + 1"
    using assms(4,5) nextTstamp_bounds [of "db_lastTstamp db" T "we_now (qe_write env)"]
    by (auto simp: room_def request_tstamp_def)
  note lt = handleOne_tstamp [OF assms(2,6)]
  have "unat (db_nextID db') \<le> Suc (unat (db_nextID db))"
    using g nx unfolding grown_def word_le_nat_alt by simp
  then have room: "room (T + 1) n db'" using assms(5) ts lt by (auto simp: room_def)
  consider e where "r = Err e" "db_inv L db' m"
    | a where "r = Ok True" "active_ok db' a" "db_inv (L(a := L a @ [request_item (request_tstamp env db) req])) db' (apply_updates m (request_updates req))"
    using handleOne_inv [OF inv assms(2,3,6)] by blast
  then show ?thesis
  proof cases
    case 1
    have "db_lastTstamp db \<le> db_lastTstamp db'" using ts lt by simp
    then show ?thesis using plain_invI [OF assms(1) 1(2) g] room 1(1) by auto
  next
    case 2
    have "\<not> db_writesDisabled db" using 2(1) assms(6) by (auto simp: handleOne_def)
    then show ?thesis
      using 2 plain_inv_write [OF assms(1), of a "request_item (request_tstamp env db) req" db'] g ts lt room
      by (auto simp: active_ok_def request_item_simps)
  qed
qed

lemma handleAll_plain:
  assumes "plain_inv L db m" "burst_ok burst" "\<forall>(env, req) \<in> set burst. we_now (qe_write env) \<le> T"
    and "room T (length burst + n) db" "handleAll burst db = (rs, db')"
  shows "(\<exists>L'. plain_inv L' db' (apply_updates m (burst_updates rs burst))) \<and> room (T + int (length burst)) n db'"
  using assms
proof (induction burst arbitrary: L db m rs T)
  case Nil
  then show ?case by (auto simp: burst_updates_def)
next
  case (Cons q burst)
  obtain env req where q: "q = (env, req)" by (cases q)
  obtain r db1 where one: "handleOne env req db = (r, db1)" by (metis surj_pair)
  obtain rs1 where rest: "handleAll burst db1 = (rs1, db')" "rs = r # rs1"
    using Cons.prems(5) one q by (auto split: prod.splits)
  have v: "valid_request req" "int64_range (we_now (qe_write env))" "burst_ok burst" "we_now (qe_write env) \<le> T"
    and late: "\<forall>(env, req) \<in> set burst. we_now (qe_write env) \<le> T + 1" using Cons.prems(2,3) q by (auto simp: burst_ok_Cons)
  obtain L1 where inv1: "plain_inv L1 db1 (apply_updates m (if r = Ok True then request_updates req else []))"
    and r1: "room (T + 1) (length burst + n) db1"
    using handleOne_plain [OF Cons.prems(1) v(1,2,4) _ one, of "length burst + n"] Cons.prems(4) by auto
  from Cons.IH [OF inv1 v(3) late r1 rest(1)] show ?case
    using rest(2) q by (auto simp: burst_updates_def apply_updates_append [symmetric] algebra_simps)
qed

lemma processBurst_plain:
  assumes "plain_inv L db m" "burst_ok burst" "\<forall>(env, req) \<in> set burst. we_now (qe_write env) \<le> T"
    and "room T (length burst) db" "processBurst w b burst db = (replies, db')"
  shows "\<exists>L'. plain_inv L' db' (apply_updates m (reply_updates replies burst))"
    and "unat (db_nextID db') + 2 < 2 ^ 32"
proof -
  obtain rs db1 where all: "handleAll burst db = (rs, db1)" by (metis surj_pair)
  obtain L1 where p1: "plain_inv L1 db1 (apply_updates m (burst_updates rs burst))" and r1: "room (T + int (length burst)) 0 db1"
    using handleAll_plain [OF assms(1-3) _ all, of 0] assms(4) by auto
  note inv = plain_invD(1) [OF assms(1)] and inv1 = plain_invD(1) [OF p1] and lay = plain_invD(2) [OF p1] and si = plain_invD(4) [OF p1]
  note sh = processBurst_shape [OF inv assms(2,5) all]
  have "plain_inv L1 db' (apply_updates m (burst_updates rs burst)) \<and> db_nextID db' = db_nextID db1"
  proof (cases "db' = db1")
    case False
    then obtain a f s r f' s' where sy: "active_seg db1 = Some (a, f, s)" "seg_sync w b f s = (r, f', s')" "db' = seg_update a f' s' db1"
      using sh(3) by blast
    note s = db_inv_sync [OF inv1 sy(1,2)]
    have "plain_layout db'" unfolding sy(3) by (rule plain_layout_update [OF lay si s(2), of _ s]) (use s(3,4) in auto)
    then have "grown db1 db'" 
      using sy(3) segs_invD(2) [OF si] r1 by (auto simp: grown_def map_index_simps room_def word_le_nat_alt unat_word_ariths)
    then show ?thesis using plain_invI [OF p1] s(1) sy(3) by simp
  qed (use p1 in simp)
  then show "\<exists>L'. plain_inv L' db' (apply_updates m (reply_updates replies burst))" "unat (db_nextID db') + 2 < 2 ^ 32"
    using sh(2) r1 by (auto simp: room_def)
qed

section \<open>Crash safety\<close>

text \<open>
  C2. Crash safety of group commit, end to end, for a database that has never been compacted (\<open>plain_inv\<close>:
  there are no hint files, the active segment has the highest id, and time stamps do not decrease along the
  log; every burst keeps this). A burst of puts, deletes and batches runs with any faults (short
  writes, failed fsyncs, failed or uncertain rotations); then the process dies and the lock
  on the directory is gone. Opening the directory again succeeds, and the new database holds
  exactly the store before the burst with the requests that were applied (answered with
  success, or with an fsync failure after their append) carried out in order: no torn record,
  no partial batch, nothing lost. Segment ids and time stamps are assumed not to run out
  (\<open>room\<close>). After a compaction it need not hold: theory \<open>Replay\<close> has a deleted key come back.
\<close>

theorem crash_reopen_keeps_applied:
  assumes "plain_inv L db m" "burst_ok burst" "\<forall>(env, req) \<in> set burst. we_now (qe_write env) \<le> T"
    and "room T (length burst) db" "processBurst w b burst db = (replies, db')" "resolveOptions opts = Ok opts'"
  shows "\<exists>db''. Open ok_open_env opts (unlock (db_disk db')) = Ok db'' \<and>
    store_inv db'' (apply_updates m (reply_updates replies burst))"
proof -
  note p = processBurst_plain [OF assms(1-5)]
  then obtain L' where pl: "plain_inv L' db' (apply_updates m (reply_updates replies burst))" by blast
  have "unat i < unat (db_nextID db')" if "i \<in> set (map_keys (db_files db'))" for i
    using plain_invD(2) [OF pl] that by (auto simp: plain_layout_def map_keys_iff word_less_nat_alt)
  then have "\<forall>i \<in> set (map_keys (db_files db')). unat i + 2 < 2 ^ 32" using p(2) by fastforce
  from plain_reopen [OF pl this assms(6)] show ?thesis .
qed

text \<open>A put whose record is cut after three bytes, followed by a delete: the torn record leaves no trace.\<close>

definition torn_env :: request_env where
  "torn_env = \<lparr>qe_write = (ok_write_env 5)\<lparr>we_flush := Some 3\<rparr>, qe_commit = ok_commit_env\<rparr>"

theorem crash_reopen_keeps_applied_witness:
  "\<exists>db''. Open ok_open_env small_opts (unlock (db_disk (snd (processBurst None False
        [(ok_request_env 5, WPut [1] [2]), (torn_env, WPut [3] [4]), (ok_request_env 6, WDelete [1])] (empty_db small_opts))))) = Ok db'' \<and>
     store_inv db'' (apply_updates Map.empty (reply_updates (fst (processBurst None False
        [(ok_request_env 5, WPut [1] [2]), (torn_env, WPut [3] [4]), (ok_request_env 6, WDelete [1])] (empty_db small_opts)))
        [(ok_request_env 5, WPut [1] [2]), (torn_env, WPut [3] [4]), (ok_request_env 6, WDelete [1])]))"
  by (rule crash_reopen_keeps_applied [OF plain_empty, where T = 6 and opts' = small_opts, OF _ _ _ surjective_pairing])
    (simp_all add: burst_ok_def record_consts ok_request_env_def ok_write_env_def torn_env_def int64_range_def
      room_def empty_db_def resolveOptions_def small_opts_def)

end
