(* ===== verification/Compact.thy ===== *)
theory Compact
  imports Store
begin

text \<open>
  Compaction, \<open>internal/engine/compact.go\<close>: the scan of the sealed segments, the merged segment
  with its hint, and the commit handed to the writer (\<open>handleCompactCommit\<close> is in theory
  \<open>Writer\<close>). A pass runs beside the writer goroutine. What the writer does meanwhile is a parameter:
  \<open>view d i pos\<close> is the index as the scan sees it when it looks up the record whose value is at \<open>pos\<close> of
  segment \<open>i\<close>, and \<open>between d\<close> is the database when the commit is handed over, both from the state \<open>d\<close>
  in which the merged segment has just been created.
\<close>

section \<open>The merge\<close>

definition compactionMinCandidates :: nat where "compactionMinCandidates = 2"

record compact_env =
  cp_create :: bool
  cp_read :: "u32 \<Rightarrow> nat \<Rightarrow> bool"
  cp_append :: "u32 \<Rightarrow> int \<Rightarrow> nat option"
  cp_syncW :: "nat option"
  cp_syncS :: bool
  cp_hint :: publish_fault
  cp_close :: "nat option"
  cp_remove :: bool
  cp_removeHint :: bool

definition ok_compact_env :: compact_env where
  "ok_compact_env = \<lparr>cp_create = False, cp_read = \<lambda>_ _. False, cp_append = \<lambda>_ _. None, cp_syncW = None,
     cp_syncS = False, cp_hint = NoFault, cp_close = None, cp_remove = False, cp_removeHint = False\<rparr>"

text \<open>The merged segment under construction: its file, its handle and the rewrites so far.\<close>

record merge =
  mg_file :: osfile
  mg_seg :: segment
  mg_rewrites :: "rewrite list"

text \<open>
  One PUT of segment \<open>cid\<close>, a record or an entry of a batch: it is live if the index still points
  exactly at it, and then it is copied as a record of its own.
\<close>

definition copyLive ::
  "compact_env \<Rightarrow> keydir \<Rightarrow> u32 \<Rightarrow> int \<Rightarrow> bytes \<Rightarrow> bytes \<Rightarrow> int \<Rightarrow> merge \<Rightarrow> (engine_error + unit) \<times> merge" where
  "copyLive env kd cid tstamp key value valuePos st =
     (let valLen = word_of_nat (length value) in
      (case keydir_get kd key of
         None \<Rightarrow> (Ok (), st)
       | Some cur \<Rightarrow>
           if ke_fileID cur \<noteq> cid \<or> ke_valuePos cur \<noteq> valuePos \<or> ke_valueLen cur \<noteq> valLen then (Ok (), st)
           else
             let rec = \<lparr>rec_tstamp = tstamp, rec_flag = recordFlagPut, rec_key = key, rec_value = value\<rparr> in
             (case encode rec (replicate (encodedSize rec) 0) of
                Inl e \<Rightarrow> (Err (EngRecord e), st)
              | Inr (_, encBuf) \<Rightarrow>
                  (case seg_append (cp_append env cid valuePos) (mg_file st) (mg_seg st) encBuf of
                     (Inl e, f, s) \<Rightarrow> (Err (EngOS e), st\<lparr>mg_file := f, mg_seg := s\<rparr>)
                   | (Inr newOffset, f, s) \<Rightarrow>
                       (Ok (), \<lparr>mg_file = f, mg_seg = s, mg_rewrites = mg_rewrites st @
                         [\<lparr>rw_key = key,
                           rw_oldEntry = \<lparr>ke_fileID = cid, ke_valuePos = valuePos, ke_valueLen = valLen, ke_tstamp = tstamp\<rparr>,
                           rw_newEntry = \<lparr>ke_fileID = seg_id s,
                             ke_valuePos = int newOffset + int (recordHeaderSize + length key),
                             ke_valueLen = valLen, ke_tstamp = tstamp\<rparr>\<rparr>]\<rparr>)))))"

fun copyEntries ::
  "compact_env \<Rightarrow> (int \<Rightarrow> keydir) \<Rightarrow> u32 \<Rightarrow> int \<Rightarrow> batchEntryDecoded list \<Rightarrow> merge \<Rightarrow> (engine_error + unit) \<times> merge" where
  "copyEntries env view cid tstamp [] st = (Ok (), st)"
| "copyEntries env view cid tstamp (e # es) st =
     (if bd_flag e = recordFlagTombstone then copyEntries env view cid tstamp es st
      else (case copyLive env (view (bd_valuePos e)) cid tstamp (bd_key e) (bd_value e) (bd_valuePos e) st of
              (Inl x, st') \<Rightarrow> (Err x, st')
            | (Inr _, st') \<Rightarrow> copyEntries env view cid tstamp es st'))"

definition compactRecord ::
  "compact_env \<Rightarrow> (int \<Rightarrow> keydir) \<Rightarrow> u32 \<Rightarrow> nat \<Rightarrow> log_record \<Rightarrow> merge \<Rightarrow> (engine_error + unit) \<times> merge" where
  "compactRecord env view cid recordStart rec st =
     (if rec_flag rec = recordFlagTombstone then (Ok (), st)
      else if rec_flag rec = recordFlagPut then
        let valuePos = int recordStart + int (recordHeaderSize + length (rec_key rec)) in
        copyLive env (view valuePos) cid (rec_tstamp rec) (rec_key rec) (rec_value rec) valuePos st
      else if rec_flag rec = recordFlagBatch then
        (case decodeBatchBody (rec_value rec) (int recordStart) of
           Inl e \<Rightarrow> (Err (EngRecord e), st)
         | Inr entries \<Rightarrow> copyEntries env view cid (rec_tstamp rec) entries st)
      else (Err (EngUnknownFlag (rec_flag rec)), st))"

lemma readRecord_consumes: "readRecord src = Ok (rec, n, rest) \<Longrightarrow> 0 < n \<and> n \<le> length src"
  by (auto simp: readRecord_def readFull_def Let_def recordHeaderSize_def split: sum.splits option.splits if_splits prod.splits)

text \<open>The loop of \<open>compactSegmentInto\<close> over the sequential reader of a segment.\<close>

function compactScan ::
  "compact_env \<Rightarrow> (int \<Rightarrow> keydir) \<Rightarrow> u32 \<Rightarrow> bytes \<Rightarrow> nat \<Rightarrow> merge \<Rightarrow> (engine_error + unit) \<times> merge" where
  "compactScan env view cid data off st =
     (if off < length data \<and> cp_read env cid off then (Err (EngOS ErrOS), st)
      else (case readRecord (drop off data) of
        Inl (e, _) \<Rightarrow> if e = ErrEOF then (Ok (), st) else (Err (EngRecord e), st)
      | Inr (rec, n, _) \<Rightarrow>
          (case compactRecord env view cid off rec st of
             (Inl x, st') \<Rightarrow> (Err x, st')
           | (Inr _, st') \<Rightarrow> compactScan env view cid data (off + n) st')))"
  by pat_completeness auto
termination
  by (relation "measure (\<lambda>(env, view, cid, data, off, st). length data - off)") (auto dest!: sym [THEN readRecord_consumes] readRecord_consumes)

declare compactScan.simps [simp del]

definition compactSegmentInto ::
  "compact_env \<Rightarrow> (u32 \<Rightarrow> int \<Rightarrow> keydir) \<Rightarrow> osfile \<Rightarrow> segment \<Rightarrow> merge \<Rightarrow> (engine_error + unit) \<times> merge" where
  "compactSegmentInto env view f c st =
     compactScan env (view (seg_id c)) (seg_id c) (take (seg_size c) (f_data f)) 0 st"

fun mergeAll ::
  "compact_env \<Rightarrow> (u32 \<Rightarrow> int \<Rightarrow> keydir) \<Rightarrow> (u32, osfile) gomap \<Rightarrow> segment list \<Rightarrow> merge \<Rightarrow> (engine_error + unit) \<times> merge" where
  "mergeAll env view files [] st = (Ok (), st)"
| "mergeAll env view files (c # cs) st =
     (case map_get files (seg_id c) of
        None \<Rightarrow> (Err (EngOS ErrNotExist), st)
      | Some f \<Rightarrow>
          (case compactSegmentInto env view f c st of
             (Inl x, st') \<Rightarrow> (Err x, st')
           | (Inr _, st') \<Rightarrow> mergeAll env view files cs st'))"

section \<open>A pass\<close>

text \<open>The candidates, in ascending id order, and the merged segment; \<open>None\<close> when there is nothing to do.\<close>

definition compactBegin :: "compact_env \<Rightarrow> db \<Rightarrow> (engine_error + (segment list \<times> segment) option) \<times> db" where
  "compactBegin env db =
     (if db_closed db then (Err ErrDBClosed, db)
      else (case db_active db of
        None \<Rightarrow> (Ok None, db)
      | Some activeID \<Rightarrow>
          let candidates = map (\<lambda>i. the (map_get (db_segments db) i)) (sort (filter (\<lambda>i. i \<noteq> activeID) (map_keys (db_segments db)))) in
          if length candidates < compactionMinCandidates then (Ok None, db)
          else
            let newID = db_nextID db; db1 = db\<lparr>db_nextID := newID + 1\<rparr> in
            (case createSegment (cp_create env) (db_files db1) newID of
               (Inl e, _) \<Rightarrow> (Err (EngOS e), db1)
             | (Inr newSeg, files) \<Rightarrow> (Ok (Some (candidates, newSeg)), set_files files db1))))"

definition cleanupNewSeg :: "compact_env \<Rightarrow> osfile \<Rightarrow> segment \<Rightarrow> db \<Rightarrow> db" where
  "cleanupNewSeg env f s db =
     remove_file (cp_remove env) (seg_id s)
       (set_files (map_set (db_files db) (seg_id s) (snd (seg_close (cp_close env) False f s))) db)"

definition rewrite_hint :: "rewrite \<Rightarrow> hintEntry" where
  "rewrite_hint r = \<lparr>h_key = rw_key r, h_valuePos = ke_valuePos (rw_newEntry r), h_valueLen = ke_valueLen (rw_newEntry r),
     h_tstamp = ke_tstamp (rw_newEntry r)\<rparr>"

text \<open>From the end of the scan: publish the merged segment and its hint, and commit; or clean up.\<close>

definition compactFinish ::
  "compact_env \<Rightarrow> submit_env \<Rightarrow> segment list \<Rightarrow> (engine_error + unit) \<times> merge \<Rightarrow> db \<Rightarrow> (engine_error + unit) \<times> db" where
  "compactFinish env se candidates scan db =
     (case scan of
        (Inl e, st) \<Rightarrow> (Err e, cleanupNewSeg env (mg_file st) (mg_seg st) db)
      | (Inr _, st) \<Rightarrow>
          if mg_rewrites st = [] then
            submit se (WCompactCommit \<lparr>cc_newSeg = None, cc_rewrites = [], cc_oldSegs = candidates\<rparr>)
              (cleanupNewSeg env (mg_file st) (mg_seg st) db)
          else (case seg_sync (cp_syncW env) (cp_syncS env) (mg_file st) (mg_seg st) of
            (Inl e, f, s) \<Rightarrow> (Err (EngOS e), cleanupNewSeg env f s db)
          | (Inr _, f, s) \<Rightarrow>
              let db1 = set_files (map_set (db_files db) (seg_id s) f) db;
                  hintEntries = map rewrite_hint (mg_rewrites st) in
              (case writeHintFile (cp_hint env) (d_hints (db_disk db1)) (seg_id s) hintEntries of
                 (Inl e, hs) \<Rightarrow> (Err (EngHint e), cleanupNewSeg env f s (set_hints hs db1))
               | (Inr _, hs) \<Rightarrow>
                   (case submit se (WCompactCommit \<lparr>cc_newSeg = Some s, cc_rewrites = mg_rewrites st, cc_oldSegs = candidates\<rparr>)
                           (set_hints hs db1) of
                      (Inl e, db2) \<Rightarrow>
                        let db3 = cleanupNewSeg env f s db2 in
                        (Err e, set_hints (snd (removeHintFile (cp_removeHint env) (d_hints (db_disk db3)) (seg_id s))) db3)
                    | (Inr _, db2) \<Rightarrow> (Ok (), db2)))))"

definition compactOnce ::
  "compact_env \<Rightarrow> (db \<Rightarrow> u32 \<Rightarrow> int \<Rightarrow> keydir) \<Rightarrow> (db \<Rightarrow> db) \<Rightarrow> submit_env \<Rightarrow> db \<Rightarrow> (engine_error + unit) \<times> db" where
  "compactOnce env view between se db =
     (case compactBegin env db of
        (Inl e, db0) \<Rightarrow> (Err e, between db0)
      | (Inr None, db0) \<Rightarrow> (Ok (), between db0)
      | (Inr (Some (candidates, newSeg)), db0) \<Rightarrow>
          compactFinish env se candidates
            (mergeAll env (view db0) (db_files db0) candidates \<lparr>mg_file = new_file, mg_seg = newSeg, mg_rewrites = []\<rparr>)
            (between db0))"

definition Compact ::
  "compact_env \<Rightarrow> (db \<Rightarrow> u32 \<Rightarrow> int \<Rightarrow> keydir) \<Rightarrow> (db \<Rightarrow> db) \<Rightarrow> submit_env \<Rightarrow> db \<Rightarrow> (engine_error + unit) \<times> db" where
  "Compact env view between se db = (if db_closed db then (Err ErrDBClosed, db) else compactOnce env view between se db)"

text \<open>The background loop: what its \<open>select\<close> receives, one event after the other.\<close>

datatype tick =
    TickDone
  | Tick compact_env "db \<Rightarrow> u32 \<Rightarrow> int \<Rightarrow> keydir" "db \<Rightarrow> db" submit_env

fun compactorLoop :: "tick list \<Rightarrow> db \<Rightarrow> db" where
  "compactorLoop [] db = db"
| "compactorLoop (TickDone # ts) db = db"
| "compactorLoop (Tick env view between se # ts) db =
     (if db_closed db then db else compactorLoop ts (snd (compactOnce env view between se db)))"

end
