(* ===== verification/Compact_Merge.thy ===== *)
theory Compact_Merge
  imports Compact
begin

text \<open>
  What a merge produces: a segment whose log is a sequence of PUT records, one rewrite per record that points from
  the old value to the same value in the new segment, a hint that lists exactly that log, and a rewrite
  for every index entry that was live whenever it was looked up.
\<close>

section \<open>The merged segment\<close>

definition copied :: "(u32 \<Rightarrow> log_item list) \<Rightarrow> u32 \<Rightarrow> log_item list \<Rightarrow> rewrite \<Rightarrow> bool" where
  "copied L n items r \<longleftrightarrow> (\<exists>pre rc post. items = pre @ Single rc # post \<and>
     (rw_key r, Some (rw_newEntry r)) \<in> set (item_entries n (length (log_bytes pre)) (Single rc)) \<and>
     points (log_bytes (L (ke_fileID (rw_oldEntry r)))) (rw_oldEntry r) (rec_value rc))"

definition merge_inv :: "(u32 \<Rightarrow> log_item list) \<Rightarrow> u32 set \<Rightarrow> u32 \<Rightarrow> log_item list \<Rightarrow> merge \<Rightarrow> bool" where
  "merge_inv L C n items st \<longleftrightarrow> seg_ok (mg_file st) (mg_seg st) \<and> seg_content (mg_file st) (mg_seg st) = log_bytes items \<and>
     seg_id (mg_seg st) = n \<and> seg_bw (mg_seg st) \<noteq> None \<and> (\<forall>it \<in> set items. valid_item it \<and> item_updates it \<noteq> []) \<and>
     (\<forall>r \<in> set (mg_rewrites st). copied L n items r \<and> ke_fileID (rw_oldEntry r) \<in> C) \<and>
     map rewrite_hint (mg_rewrites st) = log_hints n 0 items"

text \<open>The index entries a scan has taken care of.\<close>

definition moved :: "bytes \<Rightarrow> keydirEntry \<Rightarrow> merge \<Rightarrow> bool" where
  "moved key e st \<longleftrightarrow> (\<exists>r \<in> set (mg_rewrites st). rw_key r = key \<and> rw_oldEntry r = e)"

text \<open>
  The outcome of a step of the merge: on success the merged segment is good, no rewrite is lost, and the
  given entries are moved if the index had them; on failure it still is the same segment.
\<close>

definition merge_step ::
  "(u32 \<Rightarrow> log_item list) \<Rightarrow> u32 set \<Rightarrow> u32 \<Rightarrow> (int \<Rightarrow> keydir) \<Rightarrow> (bytes \<times> keydirEntry option) set \<Rightarrow> merge \<Rightarrow>
   (engine_error + unit) \<times> merge \<Rightarrow> bool" where
  "merge_step L C n view us st res \<longleftrightarrow>
     (case res of
        (Inl x, st') \<Rightarrow> seg_id (mg_seg st') = n
      | (Inr _, st') \<Rightarrow> (\<exists>items. merge_inv L C n items st') \<and> set (mg_rewrites st) \<subseteq> set (mg_rewrites st') \<and>
          (\<forall>key e. (key, Some e) \<in> us \<longrightarrow> keydir_get (view (ke_valuePos e)) key = Some e \<longrightarrow> moved key e st'))"

lemma log_hints_append:
  "log_hints sid off (is @ js) = log_hints sid off is @ log_hints sid (off + length (log_bytes is)) js"
  by (induction "is" arbitrary: off) (simp_all add: add.assoc)

lemma copied_append: "copied L n items r \<Longrightarrow> copied L n (items @ js) r"
  unfolding copied_def by (metis append.assoc append_Cons)

lemma copied_fileID: "copied L n items r \<Longrightarrow> ke_fileID (rw_newEntry r) = n"
  unfolding copied_def by (blast dest: item_entries_fileID)

lemma seg_append_id: "seg_append w f s p = (r, f', s') \<Longrightarrow> seg_id s' = seg_id s"
  by (auto simp: seg_append_def Let_def split: option.splits if_splits prod.splits)

lemma copyLive_step:
  assumes "merge_inv L C n items st" "cid \<in> C" "e = put_entry cid pos v ts" "points (log_bytes (L cid)) e v"
    and "0 < length key" "length key \<le> maxKeyLen" "length v \<le> maxValLen" "int64_range ts"
  shows "merge_step L C n view {(key, Some e)} st (copyLive env (view pos) cid ts key v pos st)"
proof -
  let ?cur = "keydir_get (view pos) key" and ?rc = "\<lparr>rec_tstamp = ts, rec_flag = recordFlagPut, rec_key = key, rec_value = v\<rparr>"
  have en: "encode ?rc (replicate (encodedSize ?rc) 0) = Ok (encodedSize ?rc, record_bytes ?rc)"
    using assms(5-7) by (simp add: encode_Ok_iff)
  have id: "seg_id (mg_seg st) = n" using assms(1) by (simp add: merge_inv_def)
  obtain r f s where ap: "seg_append (cp_append env cid pos) (mg_file st) (mg_seg st) (record_bytes ?rc) = (r, f, s)"
    by (metis prod_cases3)
  show ?thesis
  proof (cases "\<exists>cur. ?cur = Some cur \<and> ke_fileID cur = cid \<and> ke_valuePos cur = pos \<and> ke_valueLen cur = word_of_nat (length v)")
    case False
    then have "copyLive env (view pos) cid ts key v pos st = (Ok (), st)"
      by (auto simp: copyLive_def Let_def split: option.splits)
    moreover have "?cur \<noteq> Some e" using False assms(3) by (auto simp: put_entry_def)
    ultimately show ?thesis using assms(1,3) by (auto simp: merge_step_def put_entry_def)
  next
    case True
    let ?new = "\<lparr>ke_fileID = seg_id s, ke_valuePos = int (length (log_bytes items)) + int (recordHeaderSize + length key),
      ke_valueLen = word_of_nat (length v), ke_tstamp = ts\<rparr>"
    let ?rw = "\<lparr>rw_key = key, rw_oldEntry = e, rw_newEntry = ?new\<rparr>"
    have h: "copyLive env (view pos) cid ts key v pos st =
      (case r of Inl x \<Rightarrow> (Err (EngOS x), st\<lparr>mg_file := f, mg_seg := s\<rparr>)
       | Inr off \<Rightarrow> (Ok (), \<lparr>mg_file = f, mg_seg = s, mg_rewrites = mg_rewrites st @ [?rw\<lparr>rw_newEntry :=
          ?new\<lparr>ke_valuePos := int off + int (recordHeaderSize + length key)\<rparr>\<rparr>]\<rparr>))"
      using True en ap assms(3) by (auto simp: copyLive_def Let_def put_entry_def split: sum.splits)
    show ?thesis
    proof (cases r)
      case (Inl x)
      then show ?thesis using h id seg_append_id [OF ap] by (simp add: merge_step_def)
    next
      case (Inr off)
      have ok: "seg_ok (mg_file st) (mg_seg st)" "seg_content (mg_file st) (mg_seg st) = log_bytes items"
        using assms(1) by (simp_all add: merge_inv_def)
      note a = seg_append_Ok [OF ap [unfolded Inr] ok(1)]
      let ?st' = "\<lparr>mg_file = f, mg_seg = s, mg_rewrites = mg_rewrites st @ [?rw]\<rparr>"
      have res: "copyLive env (view pos) cid ts key v pos st = (Ok (), ?st')" using h Inr a(1) ok(2) by simp
      have it: "valid_item (Single ?rc)" "item_updates (Single ?rc) \<noteq> []" using assms(5-8) by (simp_all add: valid_record_def)
      have ent: "item_entries n (length (log_bytes items)) (Single ?rc) = [(key, Some ?new)]"
        using a(4) id by (simp add: put_entry_def)
      have "copied L n (items @ [Single ?rc]) ?rw"
        unfolding copied_def using ent assms(3,4) by (intro exI [of _ items] exI [of _ ?rc] exI [of _ "[]"]) (simp add: put_entry_def)
      moreover have "ke_fileID e \<in> C" using assms(2,3) by (simp add: put_entry_def)
      moreover have "rewrite_hint ?rw = hint_of ts (key, Some ?new)" by (simp add: rewrite_hint_def hint_of_def)
      then have "map rewrite_hint (mg_rewrites ?st') = log_hints n 0 (items @ [Single ?rc])"
        using assms(1) ent by (simp add: merge_inv_def log_hints_append)
      ultimately have "merge_inv L C n (items @ [Single ?rc]) ?st'"
        using assms(1) a it id by (auto simp: merge_inv_def intro: copied_append)
      moreover have "moved key e ?st'" by (simp add: moved_def)
      ultimately show ?thesis unfolding res merge_step_def by auto
    qed
  qed
qed

lemma merge_step_moved: "merge_step L C n view us st (Inr u, st') \<Longrightarrow> moved key e st \<Longrightarrow> moved key e st'"
  by (auto simp: merge_step_def moved_def)

lemma merge_step_trans:
  assumes "merge_step L C n view us st (Inr u, st1)" "merge_step L C n view ws st1 res"
  shows "merge_step L C n view (us \<union> ws) st res"
  using assms by (auto simp: merge_step_def moved_def split: prod.splits sum.splits) blast+

lemma merge_step_mono: "merge_step L C n view us st res \<Longrightarrow> (\<And>key e. (key, Some e) \<in> ws \<Longrightarrow> (key, Some e) \<in> us) \<Longrightarrow> merge_step L C n view ws st res"
  by (auto simp: merge_step_def split: prod.splits sum.splits)

lemma merge_step_refl: "merge_inv L C n items st \<Longrightarrow> merge_step L C n view {} st (Inr u, st)"
  by (auto simp: merge_step_def)

section \<open>Scanning the candidates\<close>

definition entry_of :: "u32 \<Rightarrow> int \<Rightarrow> batchEntryDecoded \<Rightarrow> bytes \<times> keydirEntry option" where
  "entry_of cid ts d = (bd_key d, if bd_flag d = recordFlagPut then Some (put_entry cid (bd_valuePos d) (bd_value d) ts) else None)"

lemma copyEntries_step:
  assumes "merge_inv L C n items st" "cid \<in> C" "int64_range ts"
    and "\<And>d. d \<in> set ds \<Longrightarrow> bd_flag d \<in> {recordFlagPut, recordFlagTombstone} \<and> 0 < length (bd_key d) \<and> length (bd_key d) \<le> maxKeyLen \<and>
      length (bd_value d) \<le> maxValLen \<and>
      (bd_flag d = recordFlagPut \<longrightarrow> points (log_bytes (L cid)) (put_entry cid (bd_valuePos d) (bd_value d) ts) (bd_value d))"
  shows "merge_step L C n view (set (map (entry_of cid ts) ds)) st (copyEntries env view cid ts ds st)"
  using assms
proof (induction ds arbitrary: st items)
  case Nil
  then show ?case using merge_step_refl by simp
next
  case (Cons d ds)
  note d = Cons.prems(4) [of d, simplified]
  show ?case
  proof (cases "bd_flag d = recordFlagTombstone")
    case True
    then have "merge_step L C n view (set (map (entry_of cid ts) ds)) st (copyEntries env view cid ts (d # ds) st)"
      using Cons.IH [OF Cons.prems(1-3)] Cons.prems(4) by simp
    then show ?thesis by (rule merge_step_mono) (use True in \<open>auto simp: entry_of_def record_flags\<close>)
  next
    case False
    then have put: "bd_flag d = recordFlagPut" using d by blast
    obtain r st1 where c: "copyLive env (view (bd_valuePos d)) cid ts (bd_key d) (bd_value d) (bd_valuePos d) st = (r, st1)"
      by (metis surj_pair)
    have s1: "merge_step L C n view {entry_of cid ts d} st (r, st1)"
      using copyLive_step [OF Cons.prems(1,2) refl, of "bd_valuePos d" "bd_value d" ts "bd_key d" view env] d put Cons.prems(3) c
      by (simp add: entry_of_def)
    show ?thesis
    proof (cases r)
      case (Inl x)
      then show ?thesis using s1 c False by (simp add: merge_step_def)
    next
      case (Inr u)
      then obtain items1 where "merge_inv L C n items1 st1" using s1 by (auto simp: merge_step_def)
      then have "merge_step L C n view (set (map (entry_of cid ts) ds)) st1 (copyEntries env view cid ts ds st1)"
        using Cons.IH [OF _ Cons.prems(2,3)] Cons.prems(4) by simp
      from merge_step_trans [OF s1 [unfolded Inr] this] show ?thesis
        using c False Inr by simp
    qed
  qed
qed

text \<open>The record of a log item, as it is read.\<close>

fun item_record :: "log_item \<Rightarrow> log_record" where
  "item_record (Single r) = r"
| "item_record (Batch ts es) = \<lparr>rec_tstamp = ts, rec_flag = recordFlagBatch, rec_key = [], rec_value = batch_body es\<rparr>"

lemma readRecord_item: "valid_item it \<Longrightarrow> readRecord (item_bytes it @ rest) = Ok (item_record it, item_size it, rest)"
  by (cases it) (simp_all add: readRecord_record_bytes readRecord_batch_bytes)

lemma decoded_points:
  assumes "valid_batch ts es" "data = pre @ batch_bytes ts es @ post" "d \<in> set (decoded_from (int (length pre)) batchCountSize es)"
  shows "bd_flag d \<in> {recordFlagPut, recordFlagTombstone} \<and> 0 < length (bd_key d) \<and> length (bd_key d) \<le> maxKeyLen \<and>
      length (bd_value d) \<le> maxValLen \<and>
      (bd_flag d = recordFlagPut \<longrightarrow> points data (put_entry cid (bd_valuePos d) (bd_value d) ts) (bd_value d))"
proof -
  let ?ds = "decoded_from (int (length pre)) batchCountSize es"
  note al = decoded_from_aligned [of "int (length pre)" batchCountSize es]
  obtain i where i: "i < length ?ds" "d = ?ds ! i" using assms(3) by (auto simp: in_set_conv_nth)
  then have es: "es ! i \<in> set es" using list_all2_lengthD [OF al] by simp
  obtain e where e: "e \<in> set es" "bd_flag d = entry_flag e" "bd_key d = be_key e" "bd_value d = entry_value e"
    by (rule that [OF es]) (use list_all2_nthD [OF al i(1)] i(2) in simp_all)
  have "valid_entry e" using assms(1) e(1) by (simp add: valid_batch_def)
  then have v: "0 < length (bd_key d)" "length (bd_key d) \<le> maxKeyLen" "length (bd_value d) \<le> maxValLen"
    "bd_flag d \<in> {recordFlagPut, recordFlagTombstone}"
    using e by (auto simp: valid_entry_def entry_flag_def entry_value_def)
  moreover have "points data (put_entry cid (bd_valuePos d) (bd_value d) ts) (bd_value d)"
    using batch_bytes_value_at [OF assms(3) refl, of ts post] v(3) assms(2)
    by (auto simp: points_def put_entry_def unat_len_val)
  ultimately show ?thesis by blast
qed

lemma compactRecord_step:
  assumes "merge_inv L C n items st" "cid \<in> C" "valid_item it" "L cid = pre @ it # post"
  shows "merge_step L C n view (set (item_entries cid (length (log_bytes pre)) it)) st
    (compactRecord env view cid (length (log_bytes pre)) (item_record it) st)"
proof (cases it)
  case (Single r)
  let ?pos = "int (length (log_bytes pre)) + int (recordHeaderSize + length (rec_key r))"
  have v: "valid_record r" using assms(3) Single by simp
  show ?thesis
  proof (cases "rec_flag r = recordFlagTombstone")
    case True
    then have "merge_step L C n view {} st (compactRecord env view cid (length (log_bytes pre)) (item_record it) st)"
      using merge_step_refl [OF assms(1)] Single by (simp add: compactRecord_def)
    then show ?thesis by (rule merge_step_mono) (use True Single in \<open>auto simp: record_flags\<close>)
  next
    case False
    then have put: "rec_flag r = recordFlagPut" using v by (auto simp: valid_record_def)
    have "points (log_bytes (L cid)) (put_entry cid ?pos (rec_value r) (rec_tstamp r)) (rec_value r)"
      using entry_matches_single [OF v, of cid "log_bytes pre" "log_bytes post"] put assms(4) Single
      by (simp add: entry_matches_def)
    then show ?thesis
      using copyLive_step [OF assms(1,2) refl, of ?pos "rec_value r" "rec_tstamp r" "rec_key r" view env] v put Single
      by (simp add: compactRecord_def Let_def valid_record_def record_flags)
  qed
next
  case (Batch ts es)
  then have v: "valid_batch ts es" using assms(3) by simp
  have dec: "decodeBatchBody (batch_body es) (int (length (log_bytes pre))) =
      Ok (decoded_from (int (length (log_bytes pre))) batchCountSize es)"
    using v by (intro decodeBatchBody_batch_body) (auto simp: valid_batch_def)
  have data: "log_bytes (L cid) = log_bytes pre @ batch_bytes ts es @ log_bytes post" using assms(4) Batch by simp
  have "int64_range ts" using v by (simp add: valid_batch_def)
  from copyEntries_step [OF assms(1,2) this, of "decoded_from (int (length (log_bytes pre))) batchCountSize es" view env]
  show ?thesis
    using decoded_points [OF v data] dec Batch by (simp add: compactRecord_def record_flags entry_of_def [abs_def])
qed

text \<open>A scan over the rest of a log.\<close>

lemma compactScan_step:
  assumes "merge_inv L C n items st" "cid \<in> C" "L cid = pre @ is" "\<forall>it \<in> set (L cid). valid_item it"
  shows "merge_step L C n view {u. \<exists>ipre it ipost. is = ipre @ it # ipost \<and>
      u \<in> set (item_entries cid (length (log_bytes (pre @ ipre))) it)} st
    (compactScan env view cid (log_bytes (L cid)) (length (log_bytes pre)) st)"
  using assms
proof (induction "is" arbitrary: pre st items)
  case Nil
  then have "drop (length (log_bytes pre)) (log_bytes (L cid)) = []" by simp
  moreover have "readRecord [] = Err (ErrEOF, 0)" by (simp add: readRecord_def readFull_def recordHeaderSize_def)
  ultimately have "compactScan env view cid (log_bytes (L cid)) (length (log_bytes pre)) st = (Ok (), st)"
    using Nil.prems(3) by (subst compactScan.simps) simp
  then show ?case using merge_step_refl [OF Nil.prems(1)] by simp
next
  case (Cons it "is")
  let ?off = "length (log_bytes pre)" and ?data = "log_bytes (L cid)"
  have v: "valid_item it" using Cons.prems(3,4) by simp
  have rd: "readRecord (drop ?off ?data) = Ok (item_record it, item_size it, log_bytes is)"
    using readRecord_item [OF v] Cons.prems(3) by simp
  obtain r st1 where c: "compactRecord env view cid ?off (item_record it) st = (r, st1)" by (metis surj_pair)
  have s1: "merge_step L C n view (set (item_entries cid ?off it)) st (r, st1)"
    using compactRecord_step [OF Cons.prems(1,2) v Cons.prems(3), of view env] c by simp
  show ?case
  proof (cases "?off < length ?data \<and> cp_read env cid ?off \<or> (\<exists>x. r = Inl x)")
    case True
    have "seg_id (mg_seg st) = n" using Cons.prems(1) by (simp add: merge_inv_def)
    then show ?thesis using True c rd s1 by (subst compactScan.simps) (auto simp: merge_step_def)
  next
    case False
    then obtain u where r: "r = Inr u" by (cases r) auto
    have sc: "compactScan env view cid ?data ?off st = compactScan env view cid ?data (length (log_bytes (pre @ [it]))) st1"
      using False c rd r by (subst compactScan.simps) auto
    obtain items1 where "merge_inv L C n items1 st1" using s1 r by (auto simp: merge_step_def)
    note s2 = Cons.IH [OF this Cons.prems(2), of "pre @ [it]"]
    have "merge_step L C n view (set (item_entries cid ?off it) \<union> {u. \<exists>ipre jt ipost. is = ipre @ jt # ipost \<and>
        u \<in> set (item_entries cid (length (log_bytes ((pre @ [it]) @ ipre))) jt)}) st (compactScan env view cid ?data ?off st)"
      unfolding sc by (rule merge_step_trans [OF s1 [unfolded r] s2]) (use Cons.prems(3,4) in simp_all)
    then show ?thesis
    proof (rule merge_step_mono)
      fix key e
      assume "(key, Some e) \<in> {u. \<exists>ipre jt ipost. it # is = ipre @ jt # ipost \<and>
          u \<in> set (item_entries cid (length (log_bytes (pre @ ipre))) jt)}"
      then obtain ipre jt ipost where i: "it # is = ipre @ jt # ipost"
        "(key, Some e) \<in> set (item_entries cid (length (log_bytes (pre @ ipre))) jt)" by blast
      then show "(key, Some e) \<in> set (item_entries cid ?off it) \<union> {u. \<exists>ipre jt ipost. is = ipre @ jt # ipost \<and>
          u \<in> set (item_entries cid (length (log_bytes ((pre @ [it]) @ ipre))) jt)}"
        by (cases ipre) auto
    qed
  qed
qed

lemma compactSegmentInto_step:
  assumes "merge_inv L C n items st" "seg_id c \<in> C" "take (seg_size c) (f_data f) = log_bytes (L (seg_id c))"
    and "\<forall>it \<in> set (L (seg_id c)). valid_item it"
  shows "merge_step L C n (view (seg_id c)) {u. \<exists>pre it post. L (seg_id c) = pre @ it # post \<and>
      u \<in> set (item_entries (seg_id c) (length (log_bytes pre)) it)} st (compactSegmentInto env view f c st)"
  using compactScan_step [OF assms(1,2) append_Nil [symmetric] assms(4), of "view (seg_id c)" env] assms(3)
  by (simp add: compactSegmentInto_def)

text \<open>All candidates: every live entry of any of them is moved.\<close>

lemma mergeAll_step:
  assumes "merge_inv L C n items st" "\<And>c. c \<in> set cs \<Longrightarrow> seg_id c \<in> C \<and> (\<forall>it \<in> set (L (seg_id c)). valid_item it) \<and>
      (\<exists>f. map_get files (seg_id c) = Some f \<and> take (seg_size c) (f_data f) = log_bytes (L (seg_id c)))"
    and "mergeAll env view files cs st = (r, st')"
  shows "seg_id (mg_seg st') = n" "r = Inr u \<Longrightarrow> (\<exists>items. merge_inv L C n items st') \<and> set (mg_rewrites st) \<subseteq> set (mg_rewrites st')"
    and "r = Inr u \<Longrightarrow> c \<in> set cs \<Longrightarrow> L (seg_id c) = pre @ it # post \<Longrightarrow>
      (key, Some e) \<in> set (item_entries (seg_id c) (length (log_bytes pre)) it) \<Longrightarrow>
      keydir_get (view (seg_id c) (ke_valuePos e)) key = Some e \<Longrightarrow> moved key e st'"
proof -
  have "seg_id (mg_seg st') = n \<and> (r = Inr u \<longrightarrow> (\<exists>items. merge_inv L C n items st') \<and> set (mg_rewrites st) \<subseteq> set (mg_rewrites st') \<and>
    (\<forall>c \<in> set cs. \<forall>pre it post key e. L (seg_id c) = pre @ it # post \<longrightarrow>
      (key, Some e) \<in> set (item_entries (seg_id c) (length (log_bytes pre)) it) \<longrightarrow>
      keydir_get (view (seg_id c) (ke_valuePos e)) key = Some e \<longrightarrow> moved key e st'))"
    using assms
  proof (induction cs arbitrary: st items)
    case Nil
    then show ?case by (auto simp: merge_inv_def)
  next
    case (Cons c cs)
    obtain f where f: "map_get files (seg_id c) = Some f" "take (seg_size c) (f_data f) = log_bytes (L (seg_id c))"
      using Cons.prems(2) [of c] by auto
    obtain r1 st1 where c1: "compactSegmentInto env view f c st = (r1, st1)" by (metis surj_pair)
    have s1: "merge_step L C n (view (seg_id c)) {u. \<exists>pre it post. L (seg_id c) = pre @ it # post \<and>
      u \<in> set (item_entries (seg_id c) (length (log_bytes pre)) it)} st (r1, st1)"
      using compactSegmentInto_step [OF Cons.prems(1) _ f(2), of view env] Cons.prems(2) [of c] c1 by simp
    show ?case
    proof (cases r1)
      case (Inl x)
      then show ?thesis using s1 Cons.prems(3) f(1) c1 by (auto simp: merge_step_def)
    next
      case (Inr v)
      then have rest: "mergeAll env view files cs st1 = (r, st')" using Cons.prems(3) f(1) c1 by simp
      obtain items1 where i1: "merge_inv L C n items1 st1" using s1 Inr by (auto simp: merge_step_def)
      have ih: "seg_id (mg_seg st') = n \<and> (r = Inr u \<longrightarrow> (\<exists>items. merge_inv L C n items st') \<and> set (mg_rewrites st1) \<subseteq> set (mg_rewrites st') \<and>
        (\<forall>c \<in> set cs. \<forall>pre it post key e. L (seg_id c) = pre @ it # post \<longrightarrow>
          (key, Some e) \<in> set (item_entries (seg_id c) (length (log_bytes pre)) it) \<longrightarrow>
          keydir_get (view (seg_id c) (ke_valuePos e)) key = Some e \<longrightarrow> moved key e st'))"
        by (rule Cons.IH [OF i1 _ rest], rule Cons.prems(2), rule list.set_intros(2))
      then have m: "moved key e st'" if "moved key e st1" "r = Inr u" for key e using that unfolding moved_def by blast
      have sub: "set (mg_rewrites st) \<subseteq> set (mg_rewrites st1)" using s1 Inr by (simp add: merge_step_def)
      have "moved key e st1" if "L (seg_id c) = pre @ it # post"
        "(key, Some e) \<in> set (item_entries (seg_id c) (length (log_bytes pre)) it)"
        "keydir_get (view (seg_id c) (ke_valuePos e)) key = Some e" for pre it post key e
        using s1 [unfolded Inr merge_step_def, simplified] that by blast
      with m ih sub show ?thesis by (metis (no_types, lifting) set_ConsD subset_trans)
    qed
  qed
  then show "seg_id (mg_seg st') = n" "r = Inr u \<Longrightarrow> (\<exists>items. merge_inv L C n items st') \<and> set (mg_rewrites st) \<subseteq> set (mg_rewrites st')"
    "r = Inr u \<Longrightarrow> c \<in> set cs \<Longrightarrow> L (seg_id c) = pre @ it # post \<Longrightarrow>
      (key, Some e) \<in> set (item_entries (seg_id c) (length (log_bytes pre)) it) \<Longrightarrow>
      keydir_get (view (seg_id c) (ke_valuePos e)) key = Some e \<Longrightarrow> moved key e st'" by blast+
qed

end
