(* ===== verification/Compact_Inv.thy ===== *)
theory Compact_Inv
  imports Compact_Merge
begin

text \<open>
  Compaction keeps the store. First what the writer leaves alone while a pass runs: the file and handle
  of every sealed segment, and the rule that an index entry into a sealed segment is never new.
  Then the merge: what is live at the commit was live whenever the scan looked, so it has been copied, and
  every rewrite points at the value it replaces. Last the commit, through compare-and-swap.
\<close>

section \<open>What the writer leaves alone\<close>

definition kept :: "u32 \<Rightarrow> db \<Rightarrow> db \<Rightarrow> bool" where
  "kept c db db' \<longleftrightarrow> map_get (db_segments db') c = map_get (db_segments db) c \<and>
     map_get (db_files db') c = map_get (db_files db) c \<and> db_active db' \<noteq> Some c \<and>
     (\<forall>key e. keydir_get (db_keydir db') key = Some e \<longrightarrow> ke_fileID e = c \<longrightarrow> keydir_get (db_keydir db) key = Some e)"

lemma kept_refl: "db_active db \<noteq> Some c \<Longrightarrow> kept c db db"
  by (simp add: kept_def)

lemma kept_trans: "kept c db db1 \<Longrightarrow> kept c db1 db2 \<Longrightarrow> kept c db db2"
  by (simp add: kept_def)

definition sealed :: "db \<Rightarrow> u32 \<Rightarrow> bool" where
  "sealed db c \<longleftrightarrow> map_get (db_files db) c \<noteq> None \<and> db_active db \<noteq> Some c"

lemma kept_sealed: "kept c db db' \<Longrightarrow> sealed db c \<Longrightarrow> sealed db' c"
  by (simp add: kept_def sealed_def)

lemma kept_active:
  assumes "segs_inv L db" "db_active db = Some a" "sealed db c"
  shows "kept c db (seg_update a f s db)"
  using assms segs_invD(1,2) [OF assms(1)] by (auto simp: kept_def sealed_def map_index_simps)

lemma remove_file_get:
  "map_ok (db_files db) \<Longrightarrow> i \<noteq> c \<Longrightarrow> map_get (db_files (remove_file b i db)) c = map_get (db_files db) c"
  by (simp add: remove_file_def map_index_simps)

lemma publishActive_kept:
  assumes "segs_inv L db" "sealed db c" "i \<noteq> c" "publishActive env (new_segment i) (set_files (map_set (db_files db) i new_file) db) = (r, db')"
  shows "kept c db db'"
  using assms segs_invD(1,2) [OF assms(1)]
  by (auto simp: publishActive_def Let_def new_segment_def kept_def sealed_def remove_file_get map_index_simps
      split: if_splits prod.splits sum.splits)

lemma rotateActive_kept:
  assumes "db_inv L db m" "sealed db c" "rotateActive env db = (r, db')"
  shows "kept c db db'"
proof -
  have si: "segs_inv L db" using assms(1) by (simp add: db_inv_def)
  then obtain a f s where a: "active_seg db = Some (a, f, s)" "db_active db = Some a" by (rule segs_inv_active)
  obtain r1 f1 s1 where sy: "seg_sync (re_syncW env) (re_syncS env) f s = (r1, f1, s1)" by (metis prod_cases3)
  let ?db1 = "seg_update a f1 s1 db"
  let ?db2 = "?db1\<lparr>db_nextID := db_nextID db + 1\<rparr>"
  have k1: "kept c db ?db1" by (rule kept_active [OF si a(2) assms(2)])
  then have k2: "kept c db ?db2" by (simp add: kept_def)
  have "db_inv L ?db1 m" by (rule db_inv_sync(1) [OF assms(1) a(1) sy])
  then have "segs_inv L ?db1" by (simp add: db_inv_def)
  then have si2: "segs_inv L ?db2" by (rule segs_inv_cong) simp_all
  obtain r2 files where cr: "createSegment (re_create env) (db_files ?db2) (db_nextID db) = (r2, files)" by (metis surj_pair)
  note cc = createSegment_cases [OF cr]
  show ?thesis
  proof (cases "\<exists>u nxt. r1 = Inr u \<and> r2 = Inr nxt")
    case False
    then have "db' = ?db1 \<or> db' = ?db2"
      using assms(3) a(1) sy cr by (auto simp: rotateActive_def Let_def split: sum.splits)
    then show ?thesis using k1 k2 by auto
  next
    case True
    then obtain nxt where r: "r1 = Inr ()" "r2 = Inr nxt" by auto
    then have n: "nxt = new_segment (db_nextID db)" "map_get (db_files ?db2) (db_nextID db) = None"
      "files = map_set (db_files ?db2) (db_nextID db) new_file" using cc by auto
    have se: "sealed ?db2 c" by (rule kept_sealed [OF k2 assms(2)])
    then have "db_nextID db \<noteq> c" using n(2) by (auto simp: sealed_def)
    moreover have "publishActive env (new_segment (db_nextID db)) (set_files (map_set (db_files ?db2) (db_nextID db) new_file) ?db2) = (r, db')"
      using assms(3) a(1) sy cr r n by (simp add: rotateActive_def Let_def)
    ultimately show ?thesis using publishActive_kept [OF si2 se] kept_trans [OF k2] by blast
  qed
qed

lemma appendFlush_fileID:
  assumes "db_inv L db m" "appendFlush env p db = (Ok (i, off), db')"
  shows "db_active db = Some i"
proof -
  have "segs_inv L db" using assms(1) by (simp add: db_inv_def)
  then obtain a f s where "active_seg db = Some (a, f, s)" "db_active db = Some a" "seg_id s = a" by (rule segs_inv_active)
  then show ?thesis using assms(2) by (auto simp: appendFlush_def split: sum.splits prod.splits)
qed

lemma write_item_new:
  assumes "map_ok k" "keydir_get (write_item sid off it k) key = Some e" "ke_fileID e \<noteq> sid"
  shows "keydir_get k key = Some e"
proof -
  have "\<forall>u \<in> set us. \<forall>e. snd u = Some e \<longrightarrow> ke_fileID e = sid \<Longrightarrow> map_ok k \<Longrightarrow>
      keydir_get (foldl update_keydir k us) key = Some e \<Longrightarrow> keydir_get k key = Some e" for us
    using assms(3)
  proof (induction us arbitrary: k)
    case (Cons u us)
    have ok: "map_ok (update_keydir k u)"
      using Cons.prems(2) by (simp add: update_keydir_def keydir_simps split: option.splits)
    have "keydir_get (update_keydir k u) key = Some e"
      using Cons.IH [OF _ ok] Cons.prems by simp
    moreover have "keydir_get (update_keydir k u) key = (if key = fst u then snd u else keydir_get k key)"
      using Cons.prems(2) by (simp add: update_keydir_def keydir_simps split: option.splits)
    ultimately show ?case using Cons.prems(1) assms(3) by (auto split: if_splits)
  qed simp
  moreover have "\<forall>u \<in> set (item_entries sid off it). \<forall>e. snd u = Some e \<longrightarrow> ke_fileID e = sid"
    using item_entries_fileID by (metis prod.collapse)
  ultimately show ?thesis using assms(1,2) unfolding write_item_def by blast
qed

lemma rotate_append_kept:
  assumes "db_inv L db0 m" "sealed db0 c" "(if b then rotateActive env db0 else (Ok (), db0)) = (r1, db1)"
    and "db' = db1 \<or> (\<exists>r2 db2. appendFlush env' p db1 = (r2, db2) \<and> (db' = db2 \<or>
      (\<exists>i off it. r2 = Ok (i, off) \<and> db' = db2\<lparr>db_keydir := write_item i off it (db_keydir db2)\<rparr>)))"
  shows "kept c db0 db'"
proof -
  have k1: "kept c db0 db1" and inv1: "db_inv L db1 m"
    using assms(1-3) rotateActive_kept rotateActive_inv(1) by (auto simp: sealed_def kept_refl split: if_splits)
  have se: "sealed db1 c" by (rule kept_sealed [OF k1 assms(2)])
  have si: "segs_inv L db1" and ok: "map_ok (db_keydir db1)" using inv1 by (simp_all add: db_inv_def represents_def)
  have "kept c db1 db2" if "appendFlush env' p db1 = (r2, db2)" for r2 db2
    using appendFlush_shape [OF that] kept_active [OF si _ se] se by (auto simp: sealed_def kept_refl)
  moreover have "kept c db1 (db2\<lparr>db_keydir := write_item i off it (db_keydir db2)\<rparr>)"
    if "appendFlush env' p db1 = (Ok (i, off), db2)" "kept c db1 db2" for i off it db2
  proof -
    have "db_keydir db2 = db_keydir db1" using appendFlush_shape [OF that(1)] by auto
    moreover have "i \<noteq> c" using appendFlush_fileID [OF inv1 that(1)] se by (auto simp: sealed_def)
    ultimately show ?thesis using that(2) write_item_new [OF ok] by (auto simp: kept_def)
  qed
  ultimately show ?thesis using assms(4) k1 kept_trans by blast
qed

lemma handleOne_kept:
  assumes "db_inv L db m" "sealed db c" "valid_request req" "handleOne env req db = (r, db')"
  shows "kept c db db'"
proof (cases "db_writesDisabled db")
  case True
  then show ?thesis using assms by (auto simp: handleOne_def sealed_def kept_refl)
next
  case False
  let ?now = "nextTstamp (we_now (qe_write env)) (db_lastTstamp db)"
  let ?db0 = "db\<lparr>db_lastTstamp := ?now\<rparr>"
  have inv0: "db_inv L ?db0 m" by (rule db_inv_cong [OF assms(1)]) simp_all
  have se: "sealed ?db0 c" using assms(2) by (simp add: sealed_def)
  have rot: "kept c ?db0 d" if "(if b then rotateActive env1 ?db0 else (Ok (), ?db0)) = (r1, d)" for d b env1 r1
    by (rule rotate_append_kept [OF inv0 se that]) simp
  have app: "kept c ?db0 d" if "(if b then rotateActive env1 ?db0 else (Ok (), ?db0)) = (r1, db1)"
    "appendFlush env' p db1 = (r2, d)" for d b env1 r1 db1 env' p r2
    by (rule rotate_append_kept [OF inv0 se that(1)]) (use that(2) in blast)
  have idx: "kept c ?db0 (d\<lparr>db_keydir := write_item i off it (db_keydir d)\<rparr>)" if "(if b then rotateActive env1 ?db0 else (Ok (), ?db0)) = (r1, db1)"
    "appendFlush env' p db1 = (Ok (i, off), d)" for d b env1 r1 db1 env' p i off it
    by (rule rotate_append_kept [OF inv0 se that(1)]) (use that(2) in blast)
  have "kept c ?db0 db'" if h: "handleSingle (qe_write env) flag key v db = (r, db')" and fl: "flag = recordFlagPut \<or> flag = recordFlagTombstone" for flag key v
  proof -
    have wi: "(if flag = recordFlagTombstone then keydir_delete k key
        else keydir_put k key \<lparr>ke_fileID = i, ke_valuePos = int off + int (recordHeaderSize + length key),
          ke_valueLen = word_of_nat (length v), ke_tstamp = ?now\<rparr>) =
      write_item i off (Single \<lparr>rec_tstamp = ?now, rec_flag = flag, rec_key = key, rec_value = v\<rparr>) k" for i off k
      using fl by (auto simp: write_item_def update_keydir_def put_entry_def record_flags)
    show ?thesis
      using h unfolding handleSingle_def Let_def wi
      by (auto split: prod.splits sum.splits intro: rot app idx)
  qed
  moreover have "kept c ?db0 db'" if h: "handleBatch (qe_write env) es db = (r, db')" for es
    using h unfolding handleBatch_def Let_def batchOps_write
    by (auto split: prod.splits sum.splits intro: rot app idx)
  ultimately have "kept c ?db0 db'"
    using handleOne_cases [OF assms(3)] assms(4) False by (auto simp: handleOne_def)
  then show ?thesis by (simp add: kept_def)
qed

text \<open>A sequence of bursts, with the replies of each.\<close>

type_synonym burst = "nat option \<times> bool \<times> (request_env \<times> writeRequest) list"

fun runBursts :: "burst list \<Rightarrow> db \<Rightarrow> (engine_error + unit) list list \<times> db" where
  "runBursts [] db = ([], db)"
| "runBursts ((w, b, burst) # bs) db =
     (let (rs, db1) = processBurst w b burst db; (rss, db2) = runBursts bs db1 in (rs # rss, db2))"

definition bursts_updates :: "(engine_error + unit) list list \<Rightarrow> burst list \<Rightarrow> (bytes \<times> bytes option) list" where
  "bursts_updates rss bs = concat (map2 (\<lambda>rs q. reply_updates rs (snd (snd q))) rss bs)"

definition bursts_ok :: "burst list \<Rightarrow> bool" where
  "bursts_ok bs \<longleftrightarrow> (\<forall>q \<in> set bs. burst_ok (snd (snd q)))"

text \<open>The invariant with the sealed segments fixed.\<close>

definition frozen :: "(u32 \<Rightarrow> log_item list) \<Rightarrow> db \<Rightarrow> (u32 \<Rightarrow> log_item list) \<Rightarrow> db \<Rightarrow> bool" where
  "frozen L db L' db' \<longleftrightarrow> (\<forall>c. sealed db c \<longrightarrow> kept c db db' \<and> L' c = L c)"

lemma frozen_refl: "frozen L db L db"
  by (simp add: frozen_def sealed_def kept_refl)

lemma frozen_trans: "frozen L db L1 db1 \<Longrightarrow> frozen L1 db1 L2 db2 \<Longrightarrow> frozen L db L2 db2"
  unfolding frozen_def using kept_sealed kept_trans by metis

lemma handleOne_frozen:
  assumes "db_inv L db m" "valid_request req" "int64_range (we_now (qe_write env))" "handleOne env req db = (r, db')"
  shows "\<exists>L'. db_inv L' db' (apply_updates m (if r = Ok True then request_updates req else [])) \<and> frozen L db L' db'"
proof -
  have k: "kept c db db'" if "sealed db c" for c by (rule handleOne_kept [OF assms(1) that assms(2,4)])
  from handleOne_inv [OF assms] show ?thesis
  proof
    assume "\<exists>e. r = Err e \<and> db_inv L db' m"
    then show ?thesis using k by (auto simp: frozen_def)
  next
    assume "r = Ok True \<and> (\<exists>a. active_ok db' a \<and>
      db_inv (L(a := L a @ [request_item (request_tstamp env db) req])) db' (apply_updates m (request_updates req)))"
    then obtain a where a: "r = Ok True" "active_ok db' a"
      "db_inv (L(a := L a @ [request_item (request_tstamp env db) req])) db' (apply_updates m (request_updates req))" by blast
    have "c \<noteq> a" if "sealed db c" for c using k [OF that] a(2) by (auto simp: kept_def active_ok_def)
    then show ?thesis using a k unfolding frozen_def by (intro exI [of _ "L(a := L a @ [request_item (request_tstamp env db) req])"]) auto
  qed
qed

lemma handleAll_frozen:
  assumes "db_inv L db m" "burst_ok burst" "handleAll burst db = (rs, db')"
  shows "\<exists>L'. db_inv L' db' (apply_updates m (burst_updates rs burst)) \<and> frozen L db L' db'"
  using assms
proof (induction burst arbitrary: L db m rs)
  case Nil
  then show ?case using frozen_refl by (auto simp: burst_updates_def)
next
  case (Cons q burst)
  obtain env req where q: "q = (env, req)" by (cases q)
  obtain r db1 where one: "handleOne env req db = (r, db1)" by (metis surj_pair)
  obtain rs1 where rest: "handleAll burst db1 = (rs1, db')" "rs = r # rs1"
    using Cons.prems(3) one q by (auto split: prod.splits)
  have v: "valid_request req" "int64_range (we_now (qe_write env))" "burst_ok burst"
    using Cons.prems(2) q by (auto simp: burst_ok_Cons)
  obtain L1 where inv1: "db_inv L1 db1 (apply_updates m (if r = Ok True then request_updates req else []))" and f1: "frozen L db L1 db1"
    using handleOne_frozen [OF Cons.prems(1) v(1,2) one] by auto
  from Cons.IH [OF inv1 v(3) rest(1)] obtain L' where
    "db_inv L' db' (apply_updates (apply_updates m (if r = Ok True then request_updates req else [])) (burst_updates rs1 burst))"
    "frozen L1 db1 L' db'" by blast
  then show ?case
    using rest(2) q frozen_trans [OF f1] by (auto simp: burst_updates_def apply_updates_append [symmetric])
qed

lemma processBurst_frozen:
  assumes "db_inv L db m" "burst_ok burst" "processBurst w b burst db = (rs, db')"
  shows "\<exists>L'. db_inv L' db' (apply_updates m (reply_updates rs burst)) \<and> frozen L db L' db'"
proof -
  obtain qs db1 where all: "handleAll burst db = (qs, db1)" by (metis surj_pair)
  obtain L1 where inv1: "db_inv L1 db1 (apply_updates m (burst_updates qs burst))" and f1: "frozen L db L1 db1"
    using handleAll_frozen [OF assms(1,2) all] by blast
  note sh = processBurst_shape [OF assms all]
  have si: "segs_inv L1 db1" using inv1 by (simp add: db_inv_def)
  have "db_inv L1 db' (apply_updates m (burst_updates qs burst)) \<and> frozen L1 db1 L1 db'"
    using sh(3) inv1 db_inv_sync(1,2) [OF inv1] kept_active [OF si] frozen_refl by (auto simp: frozen_def)
  then show ?thesis using sh(2) frozen_trans [OF f1] by auto
qed

lemma runBursts_frozen:
  assumes "db_inv L db m" "bursts_ok bs" "runBursts bs db = (rss, db')"
  shows "\<exists>L'. db_inv L' db' (apply_updates m (bursts_updates rss bs)) \<and> frozen L db L' db'"
  using assms
proof (induction bs arbitrary: L db m rss)
  case Nil
  then show ?case using frozen_refl by (auto simp: bursts_updates_def)
next
  case (Cons q bs)
  obtain w b burst where q: "q = (w, b, burst)" by (cases q)
  obtain rs db1 where one: "processBurst w b burst db = (rs, db1)" by (metis surj_pair)
  obtain rss1 where rest: "runBursts bs db1 = (rss1, db')" "rss = rs # rss1"
    using Cons.prems(3) one q by (auto split: prod.splits)
  have v: "burst_ok burst" "bursts_ok bs" using Cons.prems(2) q by (auto simp: bursts_ok_def)
  obtain L1 where inv1: "db_inv L1 db1 (apply_updates m (reply_updates rs burst))" and f1: "frozen L db L1 db1"
    using processBurst_frozen [OF Cons.prems(1) v(1) one] by blast
  from Cons.IH [OF inv1 v(2) rest(1)] show ?case
    using rest(2) q frozen_trans [OF f1] by (auto simp: bursts_updates_def apply_updates_append)
qed

lemma runBursts_append: "snd (runBursts (bs @ cs) db) = snd (runBursts cs (snd (runBursts bs db)))"
  by (induction bs arbitrary: db rule: list.induct) (auto simp: case_prod_beta)

text \<open>An index entry into a sealed segment that is there after the bursts was there all along.\<close>

lemma view_of_final:
  assumes "db_inv L db m" "bursts_ok bs" "sealed db c"
    and "keydir_get (db_keydir (snd (runBursts bs db))) key = Some e" "ke_fileID e = c"
  shows "keydir_get (db_keydir (snd (runBursts (take n bs) db))) key = Some e"
proof -
  obtain rss db1 where r1: "runBursts (take n bs) db = (rss, db1)" by (metis surj_pair)
  obtain rss2 db2 where r2: "runBursts (drop n bs) db1 = (rss2, db2)" by (metis surj_pair)
  have ok: "bursts_ok (take n bs)" "bursts_ok (drop n bs)"
    using assms(2) by (auto simp: bursts_ok_def dest: in_set_takeD in_set_dropD)
  obtain L1 m1 where i1: "db_inv L1 db1 m1" "frozen L db L1 db1" using runBursts_frozen [OF assms(1) ok(1) r1] by blast
  obtain L2 where i2: "frozen L1 db1 L2 db2" using runBursts_frozen [OF i1(1) ok(2) r2] by blast
  have "sealed db1 c" using i1(2) assms(3) kept_sealed unfolding frozen_def by blast
  then have "kept c db1 db2" using i2 by (simp add: frozen_def)
  moreover have "snd (runBursts bs db) = db2" using runBursts_append [of "take n bs" "drop n bs" db] r1 r2 by simp
  ultimately show ?thesis using assms(4,5) r1 by (simp add: kept_def)
qed

section \<open>The commit\<close>

abbreviation casAll :: "keydir \<Rightarrow> rewrite list \<Rightarrow> keydir" where
  "casAll k rs \<equiv> foldl (\<lambda>k r. snd (keydir_compareAndSwap k (rw_key r) (rw_oldEntry r) (rw_newEntry r))) k rs"

lemma cas_get:
  assumes "map_ok k"
  shows "keydir_get (snd (keydir_compareAndSwap k key x y)) j = (if j = key \<and> keydir_get k key = Some x then Some y else keydir_get k j)"
  using compareAndSwap_spec [OF assms] by blast

lemma cas_represents:
  assumes "represents contents k m" "contents (ke_fileID x) = Some c" "points c x v" "contents (ke_fileID y) = Some d" "points d y v"
  shows "represents contents (snd (keydir_compareAndSwap k key x y)) m"
proof -
  have ok: "map_ok k" using assms(1) by (simp add: represents_def)
  have mk: "m key = Some v" if "keydir_get k key = Some x"
    using represents_get [OF assms(1) that] assms(2,3) points_unique by fastforce
  have "case keydir_get (snd (keydir_compareAndSwap k key x y)) j of None \<Rightarrow> m j = None
      | Some e \<Rightarrow> \<exists>c v. contents (ke_fileID e) = Some c \<and> points c e v \<and> m j = Some v" for j
    using assms(1,4,5) mk unfolding cas_get [OF ok] represents_def by (auto split: option.splits)
  then show ?thesis by (simp add: represents_def ok_compareAndSwap [OF ok])
qed

lemma cas_indexed:
  assumes "map_ok k" "indexed L k" "L (ke_fileID y) = pre @ it # post" "(key, Some y) \<in> set (item_entries (ke_fileID y) (length (log_bytes pre)) it)"
  shows "indexed L (snd (keydir_compareAndSwap k key x y))"
  unfolding indexed_def cas_get [OF assms(1)]
proof (intro allI impI)
  fix j e
  assume g: "(if j = key \<and> keydir_get k key = Some x then Some y else keydir_get k j) = Some e"
  show "\<exists>pre it post. L (ke_fileID e) = pre @ it # post \<and> (j, Some e) \<in> set (item_entries (ke_fileID e) (length (log_bytes pre)) it)"
  proof (cases "j = key \<and> keydir_get k key = Some x")
    case True
    then show ?thesis using g assms(3,4) by auto
  next
    case False
    then have "keydir_get k j = Some e" using g by (simp split: if_splits)
    then show ?thesis using assms(2) unfolding indexed_def by blast
  qed
qed

text \<open>Every rewrite moves an entry from a value to the same value: the swaps keep the store.\<close>

lemma casAll_inv:
  assumes "represents contents k m" "indexed L k" "L n = items" "contents n = Some (log_bytes items)" "\<forall>it \<in> set items. valid_item it"
    and "\<forall>r \<in> set rs. copied L n items r \<and> contents (ke_fileID (rw_oldEntry r)) = Some (log_bytes (L (ke_fileID (rw_oldEntry r))))"
  shows "represents contents (casAll k rs) m \<and> indexed L (casAll k rs)"
  using assms(1,2,6)
proof (induction rs arbitrary: k)
  case (Cons r rs)
  let ?x = "rw_oldEntry r" and ?y = "rw_newEntry r"
  obtain pre rc post where c: "items = pre @ Single rc # post"
    "(rw_key r, Some ?y) \<in> set (item_entries n (length (log_bytes pre)) (Single rc))"
    "points (log_bytes (L (ke_fileID ?x))) ?x (rec_value rc)" using Cons.prems(3) by (auto simp: copied_def)
  have n: "ke_fileID ?y = n" by (rule item_entries_fileID [OF c(2)])
  have "valid_record rc" using assms(5) c(1) by simp
  then have "points (log_bytes items) ?y (rec_value rc)"
    using entry_matches_single [of rc n "log_bytes pre" "log_bytes post"] c(1,2) by (simp add: entry_matches_def split: if_splits)
  then have "represents contents (snd (keydir_compareAndSwap k (rw_key r) ?x ?y)) m"
    using cas_represents [OF Cons.prems(1) _ c(3)] Cons.prems(3) n assms(4) by simp
  moreover have "indexed L (snd (keydir_compareAndSwap k (rw_key r) ?x ?y))"
    using cas_indexed [OF _ Cons.prems(2), of ?y pre "Single rc" post "rw_key r" ?x] Cons.prems(1) n c(1,2) assms(3)
    by (simp add: represents_def)
  ultimately show ?case using Cons.IH Cons.prems(3) by simp
qed simp

text \<open>After the swaps an entry into a retired segment is one that no rewrite mentions.\<close>

lemma casAll_entry:
  assumes "map_ok k" "keydir_get (casAll k rs) key = Some e" "\<forall>r \<in> set rs. ke_fileID (rw_newEntry r) \<noteq> ke_fileID e"
  shows "keydir_get k key = Some e \<and> \<not> (\<exists>r \<in> set rs. rw_key r = key \<and> rw_oldEntry r = e)"
  using assms
proof (induction rs arbitrary: k)
  case (Cons r rs)
  have "keydir_get (snd (keydir_compareAndSwap k (rw_key r) (rw_oldEntry r) (rw_newEntry r))) key = Some e \<and>
      \<not> (\<exists>r \<in> set rs. rw_key r = key \<and> rw_oldEntry r = e)"
    by (rule Cons.IH) (use Cons.prems ok_compareAndSwap in auto)
  then show ?case using Cons.prems(1,3) by (auto simp: cas_get split: if_splits)
qed simp

lemma foldl_map_del:
  "map_ok m \<Longrightarrow> map_ok (foldl (\<lambda>m s. map_del m (seg_id s)) m ss) \<and>
   map_get (foldl (\<lambda>m s. map_del m (seg_id s)) m ss) i = (if i \<in> seg_id ` set ss then None else map_get m i)"
  by (induction ss arbitrary: m) (auto simp: map_index_simps)

lemma retireSegment_frame:
  "map_ok (db_files db) \<Longrightarrow> map_ok (db_files (retireSegment env u db s)) \<and> db_segments (retireSegment env u db s) = db_segments db \<and>
   db_active (retireSegment env u db s) = db_active db \<and> db_keydir (retireSegment env u db s) = db_keydir db \<and>
   (i \<noteq> seg_id s \<longrightarrow> map_get (db_files (retireSegment env u db s)) i = map_get (db_files db) i)"
  by (auto simp: retireSegment_def Let_def remove_file_def map_index_simps split: option.splits)

lemma retire_frame:
  "map_ok (db_files db) \<Longrightarrow> map_ok (db_files (foldl (retireSegment env u) db ss)) \<and>
   db_segments (foldl (retireSegment env u) db ss) = db_segments db \<and>
   db_active (foldl (retireSegment env u) db ss) = db_active db \<and> db_keydir (foldl (retireSegment env u) db ss) = db_keydir db \<and>
   (i \<notin> seg_id ` set ss \<longrightarrow> map_get (db_files (foldl (retireSegment env u) db ss)) i = map_get (db_files db) i)"
proof (induction ss arbitrary: db)
  case (Cons s ss)
  then show ?case using retireSegment_frame [of db env u s] by simp
qed simp

text \<open>What a commit may rely on: the candidates are sealed and live, the merged segment is new and good, and
  every live entry of a candidate has a rewrite.\<close>

definition commit_ok :: "(u32 \<Rightarrow> log_item list) \<Rightarrow> u32 \<Rightarrow> log_item list \<Rightarrow> compactCommit \<Rightarrow> db \<Rightarrow> bool" where
  "commit_ok L n items cc db \<longleftrightarrow>
     (\<forall>c \<in> set (cc_oldSegs cc). map_get (db_segments db) (seg_id c) \<noteq> None \<and> db_active db \<noteq> Some (seg_id c)) \<and>
     map_get (db_segments db) n = None \<and>
     (\<forall>key e. keydir_get (db_keydir db) key = Some e \<longrightarrow> ke_fileID e \<in> seg_id ` set (cc_oldSegs cc) \<longrightarrow>
        (\<exists>r \<in> set (cc_rewrites cc). rw_key r = key \<and> rw_oldEntry r = e)) \<and>
     (\<forall>it \<in> set items. valid_item it \<and> item_updates it \<noteq> []) \<and>
     (\<forall>r \<in> set (cc_rewrites cc). copied L n items r \<and> ke_fileID (rw_oldEntry r) \<in> seg_id ` set (cc_oldSegs cc)) \<and>
     (case cc_newSeg cc of
        None \<Rightarrow> items = []
      | Some s \<Rightarrow> seg_id s = n \<and> \<not> seg_werr s \<and> (\<exists>f. map_get (db_files db) n = Some f \<and> seg_good items f s))"

lemma represents_cong:
  assumes "represents contents k m" "\<And>key e. keydir_get k key = Some e \<Longrightarrow> contents' (ke_fileID e) = contents (ke_fileID e)"
  shows "represents contents' k m"
proof -
  have "case keydir_get k key of None \<Rightarrow> m key = None
      | Some e \<Rightarrow> \<exists>c v. contents' (ke_fileID e) = Some c \<and> points c e v \<and> m key = Some v" for key
    using represents_None [OF assms(1), of key] represents_get [OF assms(1), of key] assms(2)
    by (cases "keydir_get k key") auto
  then show ?thesis using assms(1) by (simp add: represents_def)
qed

lemma swap_inv:
  assumes "db_inv L db m" "commit_ok L n items cc db" "C = seg_id ` set (cc_oldSegs cc)"
    and "L' = (\<lambda>i. if i \<in> C then [] else if i = n then items else L i)"
    and "segs1 = (case cc_newSeg cc of None \<Rightarrow> db_segments db | Some s \<Rightarrow> map_set (db_segments db) (seg_id s) s)"
    and "db' = db\<lparr>db_segments := foldl (\<lambda>m s. map_del m (seg_id s)) segs1 (cc_oldSegs cc), db_keydir := casAll (db_keydir db) (cc_rewrites cc)\<rparr>"
  shows "db_inv L' db' m"
proof -
  have si: "segs_inv L db" and rep: "represents (live_contents L db) (db_keydir db) m" and idx: "indexed L (db_keydir db)"
    using assms(1) by (simp_all add: db_inv_def)
  note c = assms(2) [unfolded commit_ok_def]
  let ?L1 = "L(n := items)" and ?C1 = "(live_contents L db)(n \<mapsto> log_bytes items)"
  let ?k' = "casAll (db_keydir db) (cc_rewrites cc)"
  have Ln: "L n = []" using c segs_invD(7) [OF si] by blast
  have nC: "n \<notin> C" using c assms(3) by force
  have rep1: "represents ?C1 (db_keydir db) m" by (rule represents_mono [OF rep]) (use c in \<open>auto simp: live_contents_def\<close>)
  have idx1: "indexed ?L1 (db_keydir db)" by (rule indexed_mono [OF idx]) (use Ln in auto)
  have cp: "copied ?L1 n items r \<and> ?C1 (ke_fileID (rw_oldEntry r)) = Some (log_bytes (?L1 (ke_fileID (rw_oldEntry r))))"
    if "r \<in> set (cc_rewrites cc)" for r
  proof -
    have "ke_fileID (rw_oldEntry r) \<in> C" "copied L n items r" using c that assms(3) by auto
    moreover from this have "ke_fileID (rw_oldEntry r) \<noteq> n" "map_get (db_segments db) (ke_fileID (rw_oldEntry r)) \<noteq> None"
      using nC c assms(3) by auto
    ultimately show ?thesis by (simp add: copied_def live_contents_def)
  qed
  have ca: "represents ?C1 ?k' m \<and> indexed ?L1 ?k'"
    by (rule casAll_inv [OF rep1 idx1]) (use c cp in auto)
  have new: "ke_fileID (rw_newEntry r) = n" if "r \<in> set (cc_rewrites cc)" for r
    using c that copied_fileID by blast
  have out: "ke_fileID e \<notin> C" if "keydir_get ?k' key = Some e" for key e
  proof
    assume e: "ke_fileID e \<in> C"
    then have "\<forall>r \<in> set (cc_rewrites cc). ke_fileID (rw_newEntry r) \<noteq> ke_fileID e" using new nC by auto
    moreover have "map_ok (db_keydir db)" using rep by (simp add: represents_def)
    ultimately show False using casAll_entry [OF _ that] c e assms(3) by blast
  qed
  have ok: "map_ok (db_segments db)" by (rule segs_invD(2) [OF si])
  have ok1: "map_ok segs1" using ok assms(5) by (auto simp: map_index_simps split: option.splits)
  note del = foldl_map_del [OF ok1, of "cc_oldSegs cc"]
  have g1: "map_get segs1 i = (case cc_newSeg cc of None \<Rightarrow> map_get (db_segments db) i | Some s \<Rightarrow> if i = n then Some s else map_get (db_segments db) i)" for i
    using c ok assms(5) by (auto simp: map_index_simps split: option.splits)
  have g: "map_get (db_segments db') i = (if i \<in> C then None else map_get segs1 i)" for i using del assms(3,6) by simp
  have seg: "segs_inv L' db'"
    unfolding segs_inv_def
  proof (intro conjI allI impI)
    show "map_ok (db_files db')" "map_ok (db_segments db')" using segs_invD(1) [OF si] del assms(6) by auto
    obtain a s where a: "db_active db = Some a" "map_get (db_segments db) a = Some s" "seg_bw s \<noteq> None"
      using segs_inv_active [OF si] by metis
    then have "a \<notin> C" "a \<noteq> n" using c assms(3) by auto
    then have "map_get (db_segments db') a = Some s" using g [of a] g1 [of a] a(2) by (simp split: option.splits)
    then show "\<exists>a s. db_active db' = Some a \<and> map_get (db_segments db') a = Some s \<and> seg_bw s \<noteq> None"
      using a assms(6) by auto
    show "L' i = []" if "map_get (db_segments db') i = None" for i
      using that g [of i] g1 [of i] c segs_invD(7) [OF si, of i] assms(4) Ln by (auto split: if_splits option.splits)
    show "valid_item it" "item_updates it \<noteq> []" if "it \<in> set (L' i)" for i it
      using that assms(4) c segs_invD(5,6) [OF si] by (auto split: if_splits)
    fix i s
    assume m: "map_get (db_segments db') i = Some s"
    then have i: "i \<notin> C" "map_get segs1 i = Some s" using g [of i] by (auto split: if_splits)
    show "seg_id s = i" using i g1 [of i] c segs_invD(3) [OF si] by (auto split: if_splits option.splits)
    show "\<exists>f. map_get (db_files db') i = Some f \<and> seg_good (L' i) f s"
      using i g1 [of i] c segs_invD(4) [OF si, of i s] assms(4,6) by (auto split: if_splits option.splits)
    show "db_active db' = Some i" if "seg_werr s"
      using i g1 [of i] c segs_invD(8) [OF si, of i s] assms(6) that by (auto split: if_splits option.splits)
  qed
  have live: "live_contents L' db' (ke_fileID e) = ?C1 (ke_fileID e)" if e: "keydir_get ?k' key = Some e" for key e
  proof -
    obtain pre it post where "?L1 (ke_fileID e) = pre @ it # post" using ca e unfolding indexed_def by blast
    then have "ke_fileID e = n \<Longrightarrow> items \<noteq> []" by auto
    then show ?thesis using out [OF e] g [of "ke_fileID e"] g1 [of "ke_fileID e"] c assms(4)
      by (auto simp: live_contents_def split: option.splits)
  qed
  have "represents (live_contents L' db') ?k' m" by (rule represents_cong [OF conjunct1 [OF ca] live])
  moreover have "indexed L' ?k'"
    using ca out assms(4) unfolding indexed_def by (metis (no_types, lifting) fun_upd_apply)
  ultimately show ?thesis using seg assms(6) by (simp add: db_inv_def)
qed

lemma handleCompactCommit_inv:
  assumes "db_inv L db m" "commit_ok L n items cc db" "handleCompactCommit env cc db = (r, db')"
  shows "(\<exists>e mf. r = Err e \<and> (db' = db \<or> db' = set_manifest mf db)) \<or> (r = Ok () \<and> (\<exists>L'. db_inv L' db' m))"
proof -
  let ?C = "seg_id ` set (cc_oldSegs cc)"
  let ?L = "\<lambda>i. if i \<in> ?C then [] else if i = n then items else L i"
  have si: "segs_inv L db" using assms(1) by (simp add: db_inv_def)
  obtain a where a: "db_active db = Some a" using segs_inv_active [OF si] by metis
  obtain r1 mf where wm: "writeManifest (ce_manifest env) (d_manifest (db_disk db))
      (filter (\<lambda>i. i \<notin> set (map seg_id (cc_oldSegs cc))) (map_keys (db_segments db)) @
        (case cc_newSeg cc of None \<Rightarrow> [] | Some s \<Rightarrow> [seg_id s])) a = (r1, mf)" by (metis surj_pair)
  let ?segs1 = "case cc_newSeg cc of None \<Rightarrow> db_segments db | Some s \<Rightarrow> map_set (db_segments db) (seg_id s) s"
  let ?db2 = "db\<lparr>db_segments := foldl (\<lambda>m s. map_del m (seg_id s)) ?segs1 (cc_oldSegs cc), db_keydir := casAll (db_keydir db) (cc_rewrites cc)\<rparr>"
  have inv2: "db_inv ?L ?db2 m" by (rule swap_inv [OF assms(1,2) refl refl refl refl])
  let ?db3 = "(set_manifest mf db)\<lparr>db_segments := foldl (\<lambda>m s. map_del m (seg_id s)) ?segs1 (cc_oldSegs cc),
    db_keydir := casAll (db_keydir db) (cc_rewrites cc)\<rparr>"
  have inv3: "db_inv ?L ?db3 m" by (rule db_inv_cong [OF inv2]) simp_all
  have ok: "map_ok (db_files ?db3)" using segs_invD(1) [OF si] by simp
  have ok1: "map_ok ?segs1" using segs_invD(2) [OF si] by (auto simp: map_index_simps split: option.splits)
  have fin: "db_inv ?L (foldl (retireSegment env u) ?db3 (cc_oldSegs cc)) m" for u
  proof (rule db_inv_files [OF inv3])
    show "map_get (db_files (foldl (retireSegment env u) ?db3 (cc_oldSegs cc))) i = map_get (db_files ?db3) i"
      if "map_get (db_segments ?db3) i \<noteq> None" for i
      using that foldl_map_del [OF ok1, of "cc_oldSegs cc" i] retire_frame [OF ok, of env u "cc_oldSegs cc" i]
      by (auto split: if_splits)
  qed (use retire_frame [OF ok, of env u "cc_oldSegs cc"] in blast)+
  show ?thesis
  proof (cases "(cc_newSeg cc \<noteq> None \<and> ce_dirSync env) \<or> (r1 \<noteq> Ok () \<and> r1 \<noteq> Err ErrManifestPublishedButUncertain)")
    case True
    then show ?thesis using assms(3) a wm by (auto simp: handleCompactCommit_def Let_def split: if_splits)
  next
    case False
    have "handleCompactCommit env cc db = (Ok (), foldl (retireSegment env (r1 \<noteq> Ok ())) ?db3 (cc_oldSegs cc))"
      using False a wm [simplified] by (auto simp: handleCompactCommit_def Let_def cong: option.case_cong)
    then show ?thesis using assms(3) fin by auto
  qed
qed

lemma submit_commit:
  assumes "submit se (WCompactCommit cc) db = (r, db')"
  shows "(\<exists>e. r = Err e \<and> db' = db) \<or> handleCompactCommit (qe_commit (se_req se)) cc db = (r, db')"
  using assms
  by (auto simp: submit_def processBurst_def handleOne_def reply_of_def split: if_splits prod.splits sum.splits)

section \<open>A pass\<close>

lemma cleanup_frame:
  "db_segments (cleanupNewSeg env f s db) = db_segments db" "db_active (cleanupNewSeg env f s db) = db_active db"
  "db_keydir (cleanupNewSeg env f s db) = db_keydir db" "db_opts (cleanupNewSeg env f s db) = db_opts db"
  "db_closed (cleanupNewSeg env f s db) = db_closed db"
  by (simp_all add: cleanupNewSeg_def)

lemma cleanup_inv:
  assumes "db_inv L db m" "map_get (db_segments db) (seg_id s) = None"
  shows "db_inv L (cleanupNewSeg env f s db) m"
proof -
  have ok: "map_ok (db_files db)" using assms(1) by (simp add: db_inv_def segs_inv_def)
  show ?thesis
    by (rule db_inv_files [OF assms(1)]) (use assms(2) ok in \<open>auto simp: cleanup_frame cleanupNewSeg_def remove_file_def map_index_simps\<close>)
qed

lemma handleCompactCommit_frame:
  assumes "handleCompactCommit env cc db = (r, db')"
  shows "db_opts db' = db_opts db \<and> db_closed db' = db_closed db"
proof -
  have "db_opts (foldl (retireSegment env u) d ss) = db_opts d \<and> db_closed (foldl (retireSegment env u) d ss) = db_closed d" for u d ss
    by (induction ss arbitrary: d) (auto simp: retireSegment_def Let_def remove_file_def split: option.splits)
  then show ?thesis
    using assms by (auto simp: handleCompactCommit_def Let_def split: option.splits prod.splits if_splits)
qed

lemma handleCompactCommit_retires:
  assumes "handleCompactCommit env cc db = (Ok u, db')" "map_ok (db_segments db)" "map_ok (db_files db)" "c \<in> set (cc_oldSegs cc)"
  shows "map_get (db_segments db') (seg_id c) = None"
proof -
  let ?segs1 = "case cc_newSeg cc of None \<Rightarrow> db_segments db | Some s \<Rightarrow> map_set (db_segments db) (seg_id s) s"
  have ok1: "map_ok ?segs1" using assms(2) by (auto simp: map_index_simps split: option.splits)
  obtain mf k v where "db' = foldl (retireSegment env v) ((set_manifest mf db)\<lparr>db_segments :=
      foldl (\<lambda>m s. map_del m (seg_id s)) ?segs1 (cc_oldSegs cc), db_keydir := k\<rparr>) (cc_oldSegs cc)"
    using assms(1) by (fastforce simp: handleCompactCommit_def Let_def split: option.splits prod.splits if_splits cong: option.case_cong)
  then have "db_segments db' = foldl (\<lambda>m s. map_del m (seg_id s)) ?segs1 (cc_oldSegs cc)"
    using retire_frame [of "(set_manifest mf db)\<lparr>db_segments := foldl (\<lambda>m s. map_del m (seg_id s)) ?segs1 (cc_oldSegs cc), db_keydir := k\<rparr>"
        env v "cc_oldSegs cc"] assms(3) by simp
  then show ?thesis using foldl_map_del [OF ok1, of "cc_oldSegs cc" "seg_id c"] assms(4) by simp
qed

text \<open>What a pass leaves behind, given the state \<open>db\<close> the writer has reached.\<close>

definition pass_done :: "segment list \<Rightarrow> store \<Rightarrow> db \<Rightarrow> engine_error + unit \<Rightarrow> db \<Rightarrow> bool" where
  "pass_done cs m db r db' \<longleftrightarrow> (\<exists>L. db_inv L db' m) \<and> db_opts db' = db_opts db \<and> db_closed db' = db_closed db \<and>
     (case r of
        Inl e \<Rightarrow> db_segments db' = db_segments db \<and> db_keydir db' = db_keydir db \<and> db_active db' = db_active db
      | Inr _ \<Rightarrow> \<forall>c \<in> set cs. map_get (db_segments db') (seg_id c) = None)"

lemma commit_done:
  assumes "db_inv L db m" "commit_ok L n items cc db" "submit se (WCompactCommit cc) db = (r, db')"
  shows "pass_done (cc_oldSegs cc) m db r db'"
proof -
  have ok: "map_ok (db_segments db)" "map_ok (db_files db)" using assms(1) by (simp_all add: db_inv_def segs_inv_def)
  have inv: "db_inv L (set_manifest mf db) m" for mf by (rule db_inv_cong [OF assms(1)]) simp_all
  from submit_commit [OF assms(3)] show ?thesis
  proof
    assume "\<exists>e. r = Err e \<and> db' = db"
    then show ?thesis using assms(1) by (auto simp: pass_done_def)
  next
    assume h: "handleCompactCommit (qe_commit (se_req se)) cc db = (r, db')"
    from handleCompactCommit_inv [OF assms(1,2) h] show ?thesis
    proof
      assume "\<exists>e mf. r = Err e \<and> (db' = db \<or> db' = set_manifest mf db)"
      then show ?thesis using assms(1) inv by (auto simp: pass_done_def)
    next
      assume "r = Ok () \<and> (\<exists>L'. db_inv L' db' m)"
      then show ?thesis using handleCompactCommit_frame [OF h] handleCompactCommit_retires [OF _ ok, of _ cc _ db'] h
        by (auto simp: pass_done_def)
    qed
  qed
qed

lemma pass_done_cleanup:
  assumes "pass_done cs m db (Err e) db'" "map_get (db_segments db) (seg_id s) = None"
  shows "pass_done cs m db (Err e') (cleanupNewSeg env f s db')" "pass_done cs m db (Err e') (set_hints hs (cleanupNewSeg env f s db'))"
proof -
  obtain L where "db_inv L db' m" "db_segments db' = db_segments db" using assms(1) by (auto simp: pass_done_def)
  then have "db_inv L (cleanupNewSeg env f s db') m" using cleanup_inv assms(2) by simp
  moreover from this have "db_inv L (set_hints hs (cleanupNewSeg env f s db')) m" by (rule db_inv_cong) simp_all
  ultimately show "pass_done cs m db (Err e') (cleanupNewSeg env f s db')" "pass_done cs m db (Err e') (set_hints hs (cleanupNewSeg env f s db'))"
    using assms(1) by (auto simp: pass_done_def cleanup_frame)
qed

lemma seg_sync_id: "seg_sync w b f s = (r, f', s') \<Longrightarrow> seg_id s' = seg_id s"
  by (auto simp: seg_sync_def seg_flush_def fullSync_def split: option.splits if_splits prod.splits sum.splits)

lemma merged_good:
  assumes "merge_inv L C n items st" "seg_sync w b (mg_file st) (mg_seg st) = (Ok u, f, s)"
  shows "seg_id s = n" "\<not> seg_werr s" "seg_good items f s"
proof -
  have ok: "seg_ok (mg_file st) (mg_seg st)" "seg_content (mg_file st) (mg_seg st) = log_bytes items"
    "seg_id (mg_seg st) = n" "seg_bw (mg_seg st) \<noteq> None" using assms(1) by (simp_all add: merge_inv_def)
  note s = seg_sync_Ok [OF assms(2) ok(1)]
  show "seg_id s = n" "\<not> seg_werr s" "seg_good items f s" using s ok by (auto simp: seg_good_def seg_ok_def)
qed

lemma commit_merged:
  assumes "db_inv L db m" "map_get (db_segments db) n = None" "seg_id (mg_seg st) = n"
    and "\<forall>c \<in> set cs. map_get (db_segments db) (seg_id c) \<noteq> None \<and> db_active db \<noteq> Some (seg_id c)"
    and "merge_inv L (seg_id ` set cs) n items st"
    and "\<And>key e. keydir_get (db_keydir db) key = Some e \<Longrightarrow> ke_fileID e \<in> seg_id ` set cs \<Longrightarrow> moved key e st"
    and "mg_rewrites st \<noteq> []" "compactFinish env se cs (Inr u, st) db = (r, db')"
  shows "pass_done cs m db r db'"
proof -
  obtain r2 f s where sy: "seg_sync (cp_syncW env) (cp_syncS env) (mg_file st) (mg_seg st) = (r2, f, s)" by (metis prod_cases3)
  have id: "seg_id s = n" using seg_sync_id [OF sy] assms(3) by simp
  have ok: "map_ok (db_files db)" using assms(1) by (simp add: db_inv_def segs_inv_def)
  let ?db1 = "set_files (map_set (db_files db) n f) db"
  have inv1: "db_inv L ?db1 m" by (rule db_inv_files [OF assms(1)]) (use assms(2) ok in \<open>auto simp: map_index_simps\<close>)
  have inv2: "db_inv L (set_hints hs ?db1) m" for hs by (rule db_inv_cong [OF inv1]) simp_all
  have here: "pass_done cs m db (Err e) (set_hints hs ?db1)" "pass_done cs m db (Err e) db" for e hs
    using assms(1) inv2 by (auto simp: pass_done_def)
  have n: "map_get (db_segments db) (seg_id s) = None" using assms(2) id by simp
  note cl = pass_done_cleanup [OF _ n]
  obtain r3 hs where hint: "writeHintFile (cp_hint env) (d_hints (db_disk ?db1)) n (map rewrite_hint (mg_rewrites st)) = (r3, hs)"
    by (metis surj_pair)
  let ?cc = "\<lparr>cc_newSeg = Some s, cc_rewrites = mg_rewrites st, cc_oldSegs = cs\<rparr>" and ?db2 = "set_hints hs ?db1"
  obtain r4 db4 where sub: "submit se (WCompactCommit ?cc) ?db2 = (r4, db4)" by (metis surj_pair)
  show ?thesis
  proof (cases "\<exists>x y. r2 = Inr x \<and> r3 = Inr y")
    case False
    then show ?thesis using assms(7,8) sy hint id cl(1) [OF here(1)] cl(1) [OF here(2)]
      by (auto simp: compactFinish_def Let_def split: sum.splits)
  next
    case True
    then have r: "r2 = Inr ()" "r3 = Inr ()" by auto
    note g = merged_good [OF assms(5) sy [unfolded r(1)]]
    have "commit_ok L n items ?cc ?db2"
      using assms(2,4,5,6) g ok by (auto simp: commit_ok_def moved_def merge_inv_def map_index_simps)
    then have dn: "pass_done cs m ?db2 r4 db4" using commit_done [OF inv2 _ sub] by fastforce
    then have p: "pass_done cs m db r4 db4" by (cases r4) (simp_all add: pass_done_def)
    show ?thesis
      using assms(7,8) sy hint id r sub p cl(2) [of cs m _ db4] by (cases r4) (auto simp: compactFinish_def Let_def)
  qed
qed

lemma compactFinish_done:
  assumes "db_inv L db m" "map_get (db_segments db) n = None" "seg_id (mg_seg st) = n"
    and "\<forall>c \<in> set cs. map_get (db_segments db) (seg_id c) \<noteq> None \<and> db_active db \<noteq> Some (seg_id c)"
    and "is_ok r1 \<Longrightarrow> merge_inv L (seg_id ` set cs) n items st"
    and "\<And>key e. is_ok r1 \<Longrightarrow> keydir_get (db_keydir db) key = Some e \<Longrightarrow> ke_fileID e \<in> seg_id ` set cs \<Longrightarrow> moved key e st"
    and "compactFinish env se cs (r1, st) db = (r, db')"
  shows "pass_done cs m db r db'"
proof -
  have refl: "pass_done cs m db (Err e) db" for e using assms(1) by (auto simp: pass_done_def)
  note cl = pass_done_cleanup [OF refl]
  show ?thesis
  proof (cases "is_ok r1")
    case False
    then obtain e where "r1 = Inl e" by (cases r1) simp_all
    then show ?thesis using assms(7) cl(1) assms(2,3) by (auto simp: compactFinish_def)
  next
    case True
    then obtain u where r1: "r1 = Inr u" by (auto simp: is_ok_iff)
    have mi: "merge_inv L (seg_id ` set cs) n items st" and
      mv: "\<And>key e. keydir_get (db_keydir db) key = Some e \<Longrightarrow> ke_fileID e \<in> seg_id ` set cs \<Longrightarrow> moved key e st"
      using assms(5,6) True by blast+
    show ?thesis
    proof (cases "mg_rewrites st = []")
      case empty: True
      let ?db = "cleanupNewSeg env (mg_file st) (mg_seg st) db" and ?cc = "\<lparr>cc_newSeg = None, cc_rewrites = [], cc_oldSegs = cs\<rparr>"
      have inv: "db_inv L ?db m" using cleanup_inv [OF assms(1)] assms(2,3) by simp
      have "commit_ok L n [] ?cc ?db"
        using assms(2,4) mv empty by (auto simp: commit_ok_def cleanup_frame moved_def)
      moreover have "submit se (WCompactCommit ?cc) ?db = (r, db')" using assms(7) r1 empty by (simp add: compactFinish_def)
      ultimately have "pass_done cs m ?db r db'" using commit_done [OF inv] by fastforce
      then show ?thesis by (cases r) (simp_all add: pass_done_def cleanup_frame)
    next
      case rw: False
      show ?thesis using commit_merged [OF assms(1-4) mi mv rw] assms(7) r1 by blast
    qed
  qed
qed

end
