(* ===== verification/Compaction.thy ===== *)
theory Compaction
  imports Compact_Inv
begin

text \<open>
  Compaction end to end: a pass that runs beside the writer, whatever fails in it, keeps the key-value store.
\<close>

section \<open>The start of a pass\<close>

lemma sealed_data:
  assumes "segs_inv L db" "map_get (db_segments db) i = Some c" "db_active db \<noteq> Some i"
  shows "seg_id c = i" "\<exists>f. map_get (db_files db) i = Some f \<and> take (seg_size c) (f_data f) = log_bytes (L i)"
proof -
  show "seg_id c = i" by (rule segs_invD(3) [OF assms(1,2)])
  obtain f where f: "map_get (db_files db) i = Some f" "seg_good (L i) f c" using segs_invD(4) [OF assms(1,2)] by blast
  moreover have "\<not> seg_werr c" using segs_invD(8) [OF assms(1,2)] assms(3) by blast
  ultimately have "seg_size c = length (f_data f)" "f_data f = log_bytes (L i)"
    using seg_good_whole [OF f(2)] by (auto simp: seg_ok_def split: option.splits)
  then show "\<exists>f. map_get (db_files db) i = Some f \<and> take (seg_size c) (f_data f) = log_bytes (L i)" using f(1) by auto
qed

text \<open>The candidates are the sealed segments, and the merged segment is new.\<close>

lemma compactBegin_inv:
  assumes "db_inv L db m" "compactBegin env db = (b, db0)"
  shows "db_inv L db0 m" "db_opts db0 = db_opts db" "db_closed db0 = db_closed db" "db_segments db0 = db_segments db"
    "db_active db0 = db_active db" "db_keydir db0 = db_keydir db"
    and "b = Ok (Some (cs, s)) \<Longrightarrow> c \<in> set cs \<Longrightarrow> map_get (db_segments db) (seg_id c) = Some c \<and> db_active db \<noteq> Some (seg_id c)"
    and "b = Ok (Some (cs, s)) \<Longrightarrow> s = new_segment (db_nextID db) \<and> map_get (db_files db) (db_nextID db) = None \<and>
      map_get (db_files db0) (db_nextID db) = Some new_file"
proof -
  have si: "segs_inv L db" using assms(1) by (simp add: db_inv_def)
  note ok = segs_invD(1,2) [OF si]
  obtain a where a: "db_active db = Some a" using segs_inv_active [OF si] by metis
  let ?cs = "map (\<lambda>i. the (map_get (db_segments db) i)) (sort (filter (\<lambda>i. i \<noteq> a) (map_keys (db_segments db))))"
  let ?n = "db_nextID db"
  have free: "map_get (db_segments db) ?n = None" if "map_get (db_files db) ?n = None"
    using segs_invD(4) [OF si] that by (cases "map_get (db_segments db) ?n") fastforce+
  have new: "db_inv L (set_files (map_set (db_files db) ?n new_file) (db\<lparr>db_nextID := ?n + 1\<rparr>)) m" if "map_get (db_files db) ?n = None"
    by (rule db_inv_files [OF assms(1)]) (use free [OF that] ok in \<open>auto simp: map_index_simps\<close>)
  have bump: "db_inv L (db\<lparr>db_nextID := ?n + 1\<rparr>) m" by (rule db_inv_cong [OF assms(1)]) simp_all
  have "(db0 = db \<and> (\<forall>x. b \<noteq> Ok (Some x))) \<or> (db0 = db\<lparr>db_nextID := ?n + 1\<rparr> \<and> (\<forall>x. b \<noteq> Ok (Some x))) \<or>
      (map_get (db_files db) ?n = None \<and> b = Ok (Some (?cs, new_segment ?n)) \<and>
       db0 = set_files (map_set (db_files db) ?n new_file) (db\<lparr>db_nextID := ?n + 1\<rparr>))"
    using assms(2) a by (auto simp: compactBegin_def Let_def createSegment_def split: if_splits)
  moreover have "map_get (db_segments db) (seg_id c) = Some c \<and> db_active db \<noteq> Some (seg_id c)" if cc: "c \<in> set ?cs" for c
  proof -
    obtain i d where "map_get (db_segments db) i = Some d" "i \<noteq> a" "c = the (map_get (db_segments db) i)"
      using cc by (auto simp: map_keys_iff)
    then show ?thesis using segs_invD(3) [OF si] a by auto
  qed
  ultimately show "db_inv L db0 m" "db_opts db0 = db_opts db" "db_closed db0 = db_closed db" "db_segments db0 = db_segments db"
    "db_active db0 = db_active db" "db_keydir db0 = db_keydir db"
    "b = Ok (Some (cs, s)) \<Longrightarrow> c \<in> set cs \<Longrightarrow> map_get (db_segments db) (seg_id c) = Some c \<and> db_active db \<noteq> Some (seg_id c)"
    "b = Ok (Some (cs, s)) \<Longrightarrow> s = new_segment ?n \<and> map_get (db_files db) ?n = None \<and> map_get (db_files db0) ?n = Some new_file"
    using assms(1) new bump ok by (auto simp: map_index_simps)
qed

lemma merge_start: "merge_inv L C n [] \<lparr>mg_file = new_file, mg_seg = new_segment n, mg_rewrites = []\<rparr>"
  by (simp add: merge_inv_def seg_ok_def seg_content_def new_file_def new_segment_def)

lemma runBursts_frame:
  "bursts_ok bs \<Longrightarrow> runBursts bs db = (rss, db') \<Longrightarrow> db_opts db' = db_opts db \<and> db_closed db' = db_closed db"
proof (induction bs arbitrary: db rss)
  case (Cons q bs)
  then show ?case
    by (cases q) (fastforce simp: bursts_ok_def split: prod.splits dest: processBurst_frame)
qed simp

lemma merge_inv_cong:
  assumes "merge_inv L C n items st" "\<And>i. i \<in> C \<Longrightarrow> L' i = L i"
  shows "merge_inv L' C n items st"
proof -
  have "copied L' n items r" if "copied L n items r" "ke_fileID (rw_oldEntry r) \<in> C" for r
    using that assms(2) by (simp add: copied_def)
  then show ?thesis using assms(1) by (auto simp: merge_inv_def)
qed

section \<open>The pass\<close>

text \<open>The index as the scan sees it while the writer works through \<open>bs\<close>: after \<open>sched i pos\<close> bursts.\<close>

abbreviation live_view :: "burst list \<Rightarrow> (u32 \<Rightarrow> int \<Rightarrow> nat) \<Rightarrow> db \<Rightarrow> u32 \<Rightarrow> int \<Rightarrow> keydir" where
  "live_view bs sched d i pos \<equiv> db_keydir (snd (runBursts (take (sched i pos) bs) d))"

lemma compactOnce_done:
  assumes "db_inv L db m" "bursts_ok bs" "compactBegin env db = (Ok (Some (cs, s)), db0)" "runBursts bs db0 = (rss, db1)"
    and "compactOnce env (live_view bs sched) (\<lambda>d. snd (runBursts bs d)) se db = (r, db')"
  shows "pass_done cs (apply_updates m (bursts_updates rss bs)) db1 r db'"
proof -
  note b = compactBegin_inv [OF assms(1,3)]
  let ?n = "db_nextID db" and ?C = "seg_id ` set cs" and ?view = "live_view bs sched db0"
  have s: "s = new_segment ?n" "map_get (db_files db) ?n = None" "map_get (db_files db0) ?n = Some new_file" using b(8) by blast+
  have si: "segs_inv L db" "segs_inv L db0" using assms(1) b(1) by (simp_all add: db_inv_def)
  have cand: "map_get (db_segments db0) (seg_id c) = Some c" "db_active db0 \<noteq> Some (seg_id c)" if "c \<in> set cs" for c
    using b(4,5) b(7) [OF refl that] by auto
  obtain L1 where i1: "db_inv L1 db1 (apply_updates m (bursts_updates rss bs))" "frozen L db0 L1 db1"
    using runBursts_frozen [OF b(1) assms(2,4)] by blast
  have seal: "sealed db0 (seg_id c)" if "c \<in> set cs" for c
    using sealed_data(2) [OF si(2) cand [OF that]] cand(2) [OF that] by (auto simp: sealed_def)
  obtain a sa where act: "db_active db = Some a" "map_get (db_segments db) a = Some sa" using segs_inv_active [OF si(1)] by metis
  then have "a \<noteq> ?n" using segs_invD(4) [OF si(1) act(2)] s(2) by auto
  then have sn: "sealed db0 ?n" using s(3) act b(5) by (simp add: sealed_def)
  have none: "map_get (db_segments db0) ?n = None"
    using segs_invD(4) [OF si(1)] s(2) b(4) by (cases "map_get (db_segments db) ?n") fastforce+
  have L1: "L1 i = L i" if "i \<in> ?C" for i using i1(2) seal that by (auto simp: frozen_def)
  let ?st0 = "\<lparr>mg_file = new_file, mg_seg = s, mg_rewrites = []\<rparr>"
  obtain r1 st where me: "mergeAll env ?view (db_files db0) cs ?st0 = (r1, st)" by (metis surj_pair)
  have start: "merge_inv L ?C ?n [] ?st0" using merge_start s(1) by simp
  have pre: "seg_id c \<in> ?C \<and> (\<forall>it \<in> set (L (seg_id c)). valid_item it) \<and>
      (\<exists>f. map_get (db_files db0) (seg_id c) = Some f \<and> take (seg_size c) (f_data f) = log_bytes (L (seg_id c)))" if "c \<in> set cs" for c
    using sealed_data(2) [OF si(2) cand [OF that]] segs_invD(5) [OF si(2)] that by auto
  note mg = mergeAll_step [OF start pre me, simplified]
  have "\<exists>items. is_ok r1 \<longrightarrow> merge_inv L ?C ?n items st"
    using mg(2) by (auto simp: is_ok_iff)
  then obtain items where it: "is_ok r1 \<Longrightarrow> merge_inv L ?C ?n items st" by blast
  have cov: "moved key e st" if r1: "is_ok r1" and k: "keydir_get (db_keydir db1) key = Some e" and eC: "ke_fileID e \<in> ?C" for key e
  proof -
    have u: "r1 = Inr ()" using r1 by (auto simp: is_ok_iff)
    obtain c where c: "c \<in> set cs" "ke_fileID e = seg_id c" using eC by blast
    obtain pre it post where ix: "L (seg_id c) = pre @ it # post" "(key, Some e) \<in> set (item_entries (seg_id c) (length (log_bytes pre)) it)"
      using i1(1) k L1 [OF eC] c(2) unfolding db_inv_def indexed_def by metis
    have "keydir_get (?view (seg_id c) (ke_valuePos e)) key = Some e"
      using view_of_final [OF b(1) assms(2) seal [OF c(1)]] k c(2) assms(4) by simp
    then show ?thesis using mg(3) [OF u c(1) ix] by simp
  qed
  have live: "\<forall>c \<in> set cs. map_get (db_segments db1) (seg_id c) \<noteq> None \<and> db_active db1 \<noteq> Some (seg_id c)"
    using i1(2) seal cand by (auto simp: frozen_def kept_def)
  have n1: "map_get (db_segments db1) ?n = None" using i1(2) sn none by (auto simp: frozen_def kept_def)
  have "compactFinish env se cs (r1, st) db1 = (r, db')"
    using assms(3-5) me by (simp add: compactOnce_def)
  from compactFinish_done [OF i1(1) n1 mg(1) live _ cov this] show ?thesis
    using it merge_inv_cong [of L ?C ?n items st L1] L1 by blast
qed

text \<open>
  C12. Compaction keeps the store. A pass runs while the writer works through any bursts of requests: each lookup of
  the scan sees the index at some point of that work, every step of the pass may fail, and the commit may be refused or
  published with uncertain durability. Afterwards the database represents exactly the store the
  bursts alone would have left; after a successful pass no merged segment is live any more, and a failed pass leaves the
  live segments and the index as the writer left them.
\<close>

theorem compaction_keeps_store:
  assumes "store_inv db m" "bursts_ok bs" "compactBegin env db = (b, db0)" "runBursts bs db0 = (rss, db1)"
    and "compactOnce env (live_view bs sched) (\<lambda>d. snd (runBursts bs d)) se db = (r, db')"
  shows "store_inv db' (apply_updates m (bursts_updates rss bs)) \<and>
    (\<forall>cs s. b = Ok (Some (cs, s)) \<and> is_ok r \<longrightarrow> (\<forall>c \<in> set cs. map_get (db_segments db') (seg_id c) = None)) \<and>
    (\<not> is_ok r \<longrightarrow> db_segments db' = db_segments db1 \<and> db_keydir db' = db_keydir db1)"
proof -
  obtain L where inv: "db_inv L db m" using assms(1) by (auto simp: store_inv_def)
  note bg = compactBegin_inv [OF inv assms(3)]
  note fr = runBursts_frame [OF assms(2,4)]
  obtain L1 where i1: "db_inv L1 db1 (apply_updates m (bursts_updates rss bs))" using runBursts_frozen [OF bg(1) assms(2,4)] by blast
  have "\<exists>cs. pass_done cs (apply_updates m (bursts_updates rss bs)) db1 r db' \<and> (\<forall>cs' s. b = Ok (Some (cs', s)) \<longrightarrow> cs' = cs)"
  proof (cases "\<exists>cs s. b = Ok (Some (cs, s))")
    case True
    then show ?thesis using compactOnce_done [OF inv assms(2) _ assms(4,5)] assms(3) by blast
  next
    case False
    then have "db' = db1" using assms(3-5) by (auto simp: compactOnce_def split: sum.splits option.splits)
    then have "pass_done [] (apply_updates m (bursts_updates rss bs)) db1 r db'"
      using i1 by (auto simp: pass_done_def split: sum.splits)
    then show ?thesis using False by blast
  qed
  then show ?thesis using assms(1) bg(2,3) fr by (cases r) (auto simp: pass_done_def store_inv_def)
qed

text \<open>A database with a record in one sealed segment, a second, empty one, and an empty active segment.\<close>

definition old_put :: log_record where
  "old_put = \<lparr>rec_tstamp = 1, rec_flag = recordFlagPut, rec_key = [107], rec_value = [118]\<rparr>"

definition sealed_db :: db where
  "sealed_db = (empty_db small_opts)\<lparr>db_active := Some 2, db_nextID := 3, db_lastTstamp := 1,
     db_segments := [(0, \<lparr>seg_id = 0, seg_size = length (record_bytes old_put), seg_bw = None, seg_werr = False\<rparr>),
       (1, \<lparr>seg_id = 1, seg_size = 0, seg_bw = None, seg_werr = False\<rparr>), (2, new_segment 2)],
     db_keydir := [([107], put_entry 0 (int (recordHeaderSize + 1)) [118] 1)],
     db_disk := \<lparr>d_files = [(0, \<lparr>f_data = record_bytes old_put, f_synced = length (record_bytes old_put)\<rparr>), (1, new_file), (2, new_file)],
       d_hints = [], d_manifest = Some (Some (manifest_doc [0, 1, 2] 2)), d_locked = True\<rparr>\<rparr>"

lemma sealed_db_store: "store_inv sealed_db [[107] \<mapsto> [118]]"
proof -
  let ?L = "(\<lambda>_. [])(0 := [Single old_put])" and ?e = "put_entry 0 (int (recordHeaderSize + 1)) [118] 1"
  have v: "valid_record old_put" by (simp add: old_put_def valid_record_def record_consts int64_range_def)
  have ent: "item_entries 0 0 (Single old_put) = [([107], Some ?e)]" by (simp add: old_put_def)
  have "points (record_bytes old_put) ?e [118]"
    using entry_matches_single [OF v, of 0 "[]" "[]"] ent by (simp add: entry_matches_def old_put_def)
  then have "represents (live_contents ?L sealed_db) (db_keydir sealed_db) [[107] \<mapsto> [118]]"
    by (auto simp: represents_def sealed_db_def live_contents_def keydir_get_def map_get_def map_ok_def put_entry_def split: option.splits)
  moreover have "indexed ?L (db_keydir sealed_db)"
    unfolding indexed_def
  proof (intro allI impI)
    fix key e
    assume "keydir_get (db_keydir sealed_db) key = Some e"
    then have "key = [107]" "e = ?e" by (auto simp: sealed_db_def keydir_get_def map_get_def split: if_splits)
    then show "\<exists>pre it post. ?L (ke_fileID e) = pre @ it # post \<and> (key, Some e) \<in> set (item_entries (ke_fileID e) (length (log_bytes pre)) it)"
      using ent by (intro exI [of _ "[]"] exI [of _ "Single old_put"]) (simp add: put_entry_def)
  qed
  moreover have "segs_inv ?L sealed_db"
  proof -
    let ?s0 = "\<lparr>seg_id = 0, seg_size = length (record_bytes old_put), seg_bw = None, seg_werr = False\<rparr>"
    let ?s1 = "\<lparr>seg_id = 1, seg_size = 0, seg_bw = None, seg_werr = False\<rparr>"
    let ?f0 = "\<lparr>f_data = record_bytes old_put, f_synced = length (record_bytes old_put)\<rparr>"
    have segs: "map_get (db_segments sealed_db) i = (if i = 0 then Some ?s0 else if i = 1 then Some ?s1 else if i = 2 then Some (new_segment 2) else None)" for i
      by (simp add: sealed_db_def map_get_def)
    have files: "map_get (db_files sealed_db) i = (if i = 0 then Some ?f0 else if i = 1 \<or> i = 2 then Some new_file else None)" for i
      by (simp add: sealed_db_def map_get_def)
    have ok: "map_ok (db_files sealed_db)" "map_ok (db_segments sealed_db)" and act: "db_active sealed_db = Some 2"
      by (simp_all add: sealed_db_def map_ok_def)
    have good: "seg_good [Single old_put] ?f0 ?s0" "seg_good [] new_file ?s1" "seg_good [] new_file (new_segment 2)"
      by (simp_all add: seg_good_def seg_ok_def new_file_def new_segment_def)
    show ?thesis
      unfolding segs_inv_def segs files act using ok good v by (auto simp: new_segment_def split: if_splits)
  qed
  ultimately show ?thesis
    by (auto simp: store_inv_def db_inv_def sealed_db_def empty_db_def small_opts_def defaultMaxBatchEncodedSize_def record_consts)
qed

text \<open>The key is deleted after the scan has seen it: the compacted copy does not come back.\<close>

theorem compaction_keeps_store_witness:
  "\<exists>cs s db0 rss db1 r db'. compactBegin ok_compact_env sealed_db = (Ok (Some (cs, s)), db0) \<and> length cs = 2 \<and>
     runBursts [(None, False, [(ok_request_env 5, WDelete [107])])] db0 = (rss, db1) \<and>
     compactOnce ok_compact_env (live_view [(None, False, [(ok_request_env 5, WDelete [107])])] (\<lambda>_ _. 0))
       (\<lambda>d. snd (runBursts [(None, False, [(ok_request_env 5, WDelete [107])])] d)) (ok_submit_env 6) sealed_db = (r, db') \<and>
     store_inv db' (apply_updates [[107] \<mapsto> [118]] (bursts_updates rss [(None, False, [(ok_request_env 5, WDelete [107])])]))"
proof -
  let ?bs = "[(None, False, [(ok_request_env 5, WDelete [107])])]"
  have ok: "bursts_ok ?bs"
    by (simp add: bursts_ok_def burst_ok_def ok_request_env_def ok_write_env_def int64_range_def record_consts)
  obtain cs s db0 where b: "compactBegin ok_compact_env sealed_db = (Ok (Some (cs, s)), db0)" "length cs = 2"
    by (auto simp: compactBegin_def sealed_db_def empty_db_def Let_def map_keys_def map_get_def createSegment_def ok_compact_env_def
        compactionMinCandidates_def)
  obtain rss db1 where r: "runBursts ?bs db0 = (rss, db1)" by (rule that) (rule prod.collapse [symmetric])
  obtain r db' where c: "compactOnce ok_compact_env (live_view ?bs (\<lambda>_ _. 0)) (\<lambda>d. snd (runBursts ?bs d)) (ok_submit_env 6) sealed_db = (r, db')"
    by (rule that) (rule prod.collapse [symmetric])
  have "store_inv db' (apply_updates [[107] \<mapsto> [118]] (bursts_updates rss ?bs))"
    using compaction_keeps_store [OF sealed_db_store ok b(1) r c] by (rule conjunct1)
  with b r c show ?thesis by (intro exI conjI)
qed

end
