(* ===== verification/Write_Queue.thy ===== *)
theory Write_Queue
  imports Store "HOL-Library.Multiset"
begin

text \<open>
  The request queue between callers and the writer goroutine, \<open>submit\<close>, \<open>writerLoop\<close>, \<open>drainAfterClose\<close> and the
  first phase of \<open>Close\<close> in \<open>internal/engine/engine.go\<close>, as a step relation in which callers, the
  writer and \<open>Close\<close> interleave. A caller that holds the read lock \<open>submitMu\<close> and is blocked in its send is in \<open>q_readers\<close>; the
  buffer of the channel is \<open>q_chan\<close>; \<open>db_closed\<close> stands for both the flag and the closed channel \<open>done\<close>, which are set
  together under the lock. A reply is sent on a channel with room for one, so sending it never blocks.
\<close>

section \<open>State and operations\<close>

type_synonym job = "nat \<times> request_env \<times> writeRequest"

text \<open>Where the writer goroutine is: in its \<open>select\<close>, filling a burst, draining after close, or gone.\<close>

datatype writer_phase = Selecting | Collecting job "job list" | Draining "job list" | Exited

record wq =
  q_depth :: nat
  q_db :: db
  q_readers :: "job list"
  q_closing :: bool
  q_chan :: "job list"
  q_phase :: writer_phase
  q_calls :: "nat list"
  q_replies :: "(nat \<times> (engine_error + unit)) list"
  q_log :: "(job \<times> (engine_error + unit)) list"

definition wq_init :: "db \<Rightarrow> wq" where
  "wq_init db = \<lparr>q_depth = nat (o_WriteQueueDepth (db_opts db)), q_db = db, q_readers = [], q_closing = False,
     q_chan = [], q_phase = Selecting, q_calls = [], q_replies = [], q_log = []\<rparr>"

text \<open>\<open>submit\<close> up to the send: a pending \<open>Lock\<close> keeps new readers out.\<close>

definition submitEnter :: "job \<Rightarrow> wq \<Rightarrow> wq option" where
  "submitEnter j s =
     (if q_closing s then None
      else
        let s1 = s\<lparr>q_calls := fst j # q_calls s\<rparr> in
        if db_closed (q_db s) then Some (s1\<lparr>q_replies := q_replies s @ [(fst j, Err ErrDBClosed)]\<rparr>)
        else if db_writesDisabled (q_db s) then Some (s1\<lparr>q_replies := q_replies s @ [(fst j, Err ErrWritesDisabled)]\<rparr>)
        else Some (s1\<lparr>q_readers := q_readers s @ [j]\<rparr>))"

text \<open>The send on \<open>reqCh\<close>, and the release of the read lock.\<close>

definition submitSend :: "job \<Rightarrow> wq \<Rightarrow> wq option" where
  "submitSend j s =
     (if j \<in> set (q_readers s) \<and> length (q_chan s) < q_depth s
      then Some (s\<lparr>q_readers := remove1 j (q_readers s), q_chan := q_chan s @ [j]\<rparr>) else None)"

text \<open>\<open>Close\<close> asks for the write lock, once; and has it when no reader is left.\<close>

definition closeRequest :: "wq \<Rightarrow> wq option" where
  "closeRequest s = (if q_closing s \<or> db_closed (q_db s) then None else Some (s\<lparr>q_closing := True\<rparr>))"

definition closeLocked :: "wq \<Rightarrow> wq option" where
  "closeLocked s =
     (if q_closing s \<and> q_readers s = []
      then Some (s\<lparr>q_closing := False, q_db := (q_db s)\<lparr>db_closed := True\<rparr>\<rparr>) else None)"

text \<open>The two branches of the writer's \<open>select\<close>.\<close>

definition writerReceive :: "wq \<Rightarrow> wq option" where
  "writerReceive s =
     (case (q_phase s, q_chan s) of
        (Selecting, j # js) \<Rightarrow> Some (s\<lparr>q_phase := Collecting j [], q_chan := js\<rparr>)
      | _ \<Rightarrow> None)"

definition writerDone :: "wq \<Rightarrow> wq option" where
  "writerDone s =
     (case q_phase s of
        Selecting \<Rightarrow> if db_closed (q_db s) then Some (s\<lparr>q_phase := Draining []\<rparr>) else None
      | _ \<Rightarrow> None)"

text \<open>\<open>processBurst\<close> on the requests of a burst, and the replies to their callers.\<close>

definition answer :: "nat option \<Rightarrow> bool \<Rightarrow> job list \<Rightarrow> wq \<Rightarrow> wq" where
  "answer w b burst s =
     (case processBurst w b (map snd burst) (q_db s) of
        (rs, db) \<Rightarrow> s\<lparr>q_db := db, q_replies := q_replies s @ zip (map fst burst) rs, q_log := q_log s @ zip burst rs\<rparr>)"

text \<open>The non-blocking drain: one more request while the burst has room; else the burst is served.\<close>

definition writerPull :: "wq \<Rightarrow> wq option" where
  "writerPull s =
     (case (q_phase s, q_chan s) of
        (Collecting j js, k # ks) \<Rightarrow>
          if Suc (length js) < q_depth s then Some (s\<lparr>q_phase := Collecting j (js @ [k]), q_chan := ks\<rparr>) else None
      | _ \<Rightarrow> None)"

definition writerServe :: "nat option \<Rightarrow> bool \<Rightarrow> wq \<Rightarrow> wq option" where
  "writerServe w b s =
     (case q_phase s of
        Collecting j js \<Rightarrow>
          if Suc (length js) < q_depth s \<and> q_chan s \<noteq> [] then None
          else Some ((answer w b (j # js) s)\<lparr>q_phase := Selecting\<rparr>)
      | _ \<Rightarrow> None)"

definition drainPull :: "wq \<Rightarrow> wq option" where
  "drainPull s =
     (case (q_phase s, q_chan s) of
        (Draining js, k # ks) \<Rightarrow> Some (s\<lparr>q_phase := Draining (js @ [k]), q_chan := ks\<rparr>)
      | _ \<Rightarrow> None)"

definition drainServe :: "nat option \<Rightarrow> bool \<Rightarrow> wq \<Rightarrow> wq option" where
  "drainServe w b s =
     (case (q_phase s, q_chan s) of
        (Draining js, []) \<Rightarrow> Some ((if length js > 0 then answer w b js s else s)\<lparr>q_phase := Exited\<rparr>)
      | _ \<Rightarrow> None)"

section \<open>Steps\<close>

text \<open>Steps that need no new call: they go on by themselves.\<close>

inductive internal :: "wq \<Rightarrow> wq \<Rightarrow> bool" where
  send: "submitSend j s = Some s' \<Longrightarrow> internal s s'"
| lock: "closeLocked s = Some s' \<Longrightarrow> internal s s'"
| receive: "writerReceive s = Some s' \<Longrightarrow> internal s s'"
| shutdown: "writerDone s = Some s' \<Longrightarrow> internal s s'"
| pull: "writerPull s = Some s' \<Longrightarrow> internal s s'"
| serve: "writerServe w b s = Some s' \<Longrightarrow> internal s s'"
| drain_pull: "drainPull s = Some s' \<Longrightarrow> internal s s'"
| drain_serve: "drainServe w b s = Some s' \<Longrightarrow> internal s s'"

text \<open>Calls are told apart by a number; what \<open>Put\<close>, \<open>Delete\<close> and \<open>BatchPut\<close> let through is valid.\<close>

inductive wq_step :: "wq \<Rightarrow> wq \<Rightarrow> bool" where
  enter: "submitEnter (i, env, req) s = Some s' \<Longrightarrow> i \<notin> set (q_calls s) \<Longrightarrow> valid_request req \<Longrightarrow>
    int64_range (we_now (qe_write env)) \<Longrightarrow> wq_step s s'"
| close: "closeRequest s = Some s' \<Longrightarrow> wq_step s s'"
| internal: "internal s s' \<Longrightarrow> wq_step s s'"

fun phase_jobs :: "writer_phase \<Rightarrow> job list" where
  "phase_jobs Selecting = []"
| "phase_jobs (Collecting j js) = j # js"
| "phase_jobs (Draining js) = js"
| "phase_jobs Exited = []"

definition pending :: "wq \<Rightarrow> job list" where
  "pending s = q_readers s @ q_chan s @ phase_jobs (q_phase s)"

lemmas wq_defs = submitEnter_def submitSend_def closeRequest_def closeLocked_def writerReceive_def writerDone_def
  writerPull_def writerServe_def drainPull_def drainServe_def

section \<open>The invariant\<close>

definition log_updates :: "(job \<times> (engine_error + unit)) list \<Rightarrow> (bytes \<times> bytes option) list" where
  "log_updates l = concat (map (\<lambda>(j, r). if applied r then request_updates (snd (snd j)) else []) l)"

definition job_ok :: "job \<Rightarrow> bool" where
  "job_ok j \<longleftrightarrow> valid_request (snd (snd j)) \<and> int64_range (we_now (qe_write (fst (snd j))))"

text \<open>
  Every call is in exactly one place: pending once, or answered once. After the lock is taken no reader is left; the writer leaves only
  when the queue is closed and empty. The database is the store with the served requests carried out in order.
\<close>

definition wq_inv :: "store \<Rightarrow> wq \<Rightarrow> bool" where
  "wq_inv m s \<longleftrightarrow> 0 < q_depth s \<and> distinct (q_calls s) \<and>
     mset (q_calls s) = mset (map fst (pending s)) + mset (map fst (q_replies s)) \<and>
     (\<forall>j \<in> set (pending s). job_ok j) \<and>
     (db_closed (q_db s) \<longrightarrow> q_readers s = [] \<and> \<not> q_closing s) \<and>
     (q_phase s = Exited \<longrightarrow> q_chan s = []) \<and>
     (q_phase s \<in> {Exited} \<union> range Draining \<longrightarrow> db_closed (q_db s)) \<and>
     (\<exists>L. db_inv L (q_db s) (apply_updates m (log_updates (q_log s))))"

lemma wq_invD:
  assumes "wq_inv m s"
  shows "0 < q_depth s" "distinct (q_calls s)" "mset (q_calls s) = mset (map fst (pending s)) + mset (map fst (q_replies s))"
    and "\<forall>j \<in> set (pending s). job_ok j"
    and "db_closed (q_db s) \<Longrightarrow> q_readers s = []" "q_phase s = Exited \<Longrightarrow> q_chan s = [] \<and> db_closed (q_db s)"
  using assms unfolding wq_inv_def by blast+

lemma wq_init_inv:
  assumes "db_inv L db m" "0 < o_WriteQueueDepth (db_opts db)"
  shows "wq_inv m (wq_init db)"
  using assms by (auto simp: wq_inv_def wq_init_def pending_def log_updates_def)

lemma log_updates_append: "log_updates (l @ k) = log_updates l @ log_updates k"
  by (simp add: log_updates_def)

lemma log_updates_zip: "length rs = length burst \<Longrightarrow> log_updates (zip burst rs) = reply_updates rs (map snd burst)"
  by (induction burst rs rule: list_induct2') (auto simp: log_updates_def reply_updates_def)

text \<open>Serving a burst: every request of it gets a reply, and the store follows.\<close>

lemma answer_inv:
  assumes "db_inv L (q_db s) (apply_updates m (log_updates (q_log s)))"
    and "\<forall>j \<in> set burst. job_ok j"
  shows "\<exists>L'. db_inv L' (q_db (answer w b burst s)) (apply_updates m (log_updates (q_log (answer w b burst s))))"
    "image_mset fst (mset (q_replies (answer w b burst s))) = image_mset fst (mset (q_replies s)) + image_mset fst (mset burst)"
    "db_closed (q_db (answer w b burst s)) = db_closed (q_db s)"
proof -
  obtain rs db where p: "processBurst w b (map snd burst) (q_db s) = (rs, db)" by (metis surj_pair)
  have ok: "burst_ok (map snd burst)" using assms(2) by (auto simp: burst_ok_def job_ok_def)
  note inv = processBurst_inv [OF assms(1) ok p]
  have "log_updates (q_log (answer w b burst s)) = log_updates (q_log s) @ reply_updates rs (map snd burst)"
    using inv p by (simp add: answer_def log_updates_append log_updates_zip)
  then show "\<exists>L'. db_inv L' (q_db (answer w b burst s)) (apply_updates m (log_updates (q_log (answer w b burst s))))"
    using inv p by (simp add: answer_def apply_updates_append)
  have "map fst (q_replies (answer w b burst s)) = map fst (q_replies s) @ map fst burst"
    using inv p by (simp add: answer_def)
  then show "image_mset fst (mset (q_replies (answer w b burst s))) = image_mset fst (mset (q_replies s)) + image_mset fst (mset burst)"
    by (metis mset_append mset_map)
  show "db_closed (q_db (answer w b burst s)) = db_closed (q_db s)"
    using processBurst_frame [OF ok p] p by (simp add: answer_def)
qed

lemma answer_frame [simp]:
  "q_depth (answer w b burst s) = q_depth s" "q_readers (answer w b burst s) = q_readers s"
  "q_closing (answer w b burst s) = q_closing s" "q_chan (answer w b burst s) = q_chan s"
  "q_calls (answer w b burst s) = q_calls s"
  by (simp_all add: answer_def split: prod.splits)

lemma db_inv_closed: "\<exists>L. db_inv L db m \<Longrightarrow> \<exists>L. db_inv L (db\<lparr>db_closed := True\<rparr>) m"
  using db_inv_cong [of _ db m "db\<lparr>db_closed := True\<rparr>"] by auto

lemma internal_inv:
  assumes "internal s s'" "wq_inv m s"
  shows "wq_inv m s'"
  using assms
proof (induction rule: internal.induct)
  case (send j s s')
  note 1 = send(1) and assms = send(2)
  from 1 have "j \<in> set (q_readers s)" and s': "s' = s\<lparr>q_readers := remove1 j (q_readers s), q_chan := q_chan s @ [j]\<rparr>"
    by (auto simp: submitSend_def split: if_splits)
  have "mset (map fst (q_readers s)) = add_mset (fst j) (mset (map fst (remove1 j (q_readers s))))"
    using \<open>j \<in> set (q_readers s)\<close> by (metis image_mset_add_mset mset_map mset_remove1 insert_DiffM set_mset_mset)
  moreover have "\<not> db_closed (q_db s)" using \<open>j \<in> set (q_readers s)\<close> wq_invD(5) [OF assms] by auto
  moreover have "k \<in> set (remove1 j (q_readers s)) \<Longrightarrow> k \<in> set (q_readers s)" for k using set_remove1_subset by fast
  ultimately show ?case
    using assms \<open>j \<in> set (q_readers s)\<close> unfolding s' by (auto simp: wq_inv_def pending_def)
next
  case (lock s s')
  note assms = lock(2)
  from lock(1) show ?case using assms by (auto simp: closeLocked_def wq_inv_def pending_def split: if_splits intro!: db_inv_closed)
next
  case (receive s s')
  note assms = receive(2)
  from receive(1) show ?case using assms by (auto simp: writerReceive_def wq_inv_def pending_def split: writer_phase.splits list.splits)
next
  case (shutdown s s')
  note assms = shutdown(2)
  from shutdown(1) show ?case using assms by (auto simp: writerDone_def wq_inv_def pending_def split: writer_phase.splits if_splits)
next
  case (pull s s')
  note assms = pull(2)
  from pull(1) show ?case using assms by (auto simp: writerPull_def wq_inv_def pending_def split: writer_phase.splits list.splits if_splits)
next
  case (serve w b s s')
  note assms = serve(2)
  from serve(1) obtain j js where p: "q_phase s = Collecting j js" "s' = (answer w b (j # js) s)\<lparr>q_phase := Selecting\<rparr>"
    by (auto simp: writerServe_def split: writer_phase.splits if_splits)
  have "\<forall>k \<in> set (j # js). job_ok k"
    using wq_invD(4) [OF assms] p(1) by (auto simp: pending_def)
  moreover obtain L where "db_inv L (q_db s) (apply_updates m (log_updates (q_log s)))" using assms by (auto simp: wq_inv_def)
  ultimately show ?case using answer_inv [of L s m "j # js" w b] assms p by (auto simp: wq_inv_def pending_def)
next
  case (drain_pull s s')
  note assms = drain_pull(2)
  from drain_pull(1) show ?case using assms by (auto simp: drainPull_def wq_inv_def pending_def split: writer_phase.splits list.splits)
next
  case (drain_serve w b s s')
  note assms = drain_serve(2)
  from drain_serve(1) obtain js where p: "q_phase s = Draining js" "q_chan s = []" "s' = (if js = [] then s else answer w b js s)\<lparr>q_phase := Exited\<rparr>"
    by (auto simp: drainServe_def split: writer_phase.splits list.splits)
  have "\<forall>k \<in> set (js). job_ok k"
    using wq_invD(4) [OF assms] p(1) by (auto simp: pending_def)
  moreover obtain L where "db_inv L (q_db s) (apply_updates m (log_updates (q_log s)))" using assms by (auto simp: wq_inv_def)
  ultimately show ?case using answer_inv [of L s m js w b] assms p by (auto simp: wq_inv_def pending_def)
qed

lemma wq_step_inv:
  assumes "wq_step s s'" "wq_inv m s"
  shows "wq_inv m s'"
  using assms
proof (induction rule: wq_step.induct)
  case (enter i env req s s')
  note 1 = enter(1-4) and assms = enter(5)
  then show ?case
    using assms by (auto simp: submitEnter_def Let_def wq_inv_def pending_def job_ok_def split: if_splits)
next
  case (close s s')
  note assms = close(2)
  from close(1) show ?case using assms by (auto simp: closeRequest_def wq_inv_def pending_def split: if_splits)
next
  case (internal s s')
  note assms = internal(2)
  from internal(1) show ?case using internal_inv assms by blast
qed

lemma wq_reachable_inv: "wq_step\<^sup>*\<^sup>* s s' \<Longrightarrow> wq_inv m s \<Longrightarrow> wq_inv m s'"
  by (induction rule: rtranclp_induct) (auto intro: wq_step_inv)

section \<open>Every call is answered\<close>

text \<open>What is left to do: a request moves from the lock to the channel, to a burst, to its reply; the writer moves on to its exit.\<close>

fun phase_rank :: "writer_phase \<Rightarrow> nat" where
  "phase_rank Selecting = 2"
| "phase_rank (Collecting j js) = 2"
| "phase_rank (Draining js) = 1"
| "phase_rank Exited = 0"

definition work :: "wq \<Rightarrow> nat" where
  "work s = 4 * length (q_readers s) + 3 * length (q_chan s) + 2 * length (phase_jobs (q_phase s)) + phase_rank (q_phase s) +
     (if q_closing s then 1 else 0)"

lemma internal_work: "internal s s' \<Longrightarrow> work s' < work s"
proof (induction rule: internal.induct)
  case (send j s s')
  then have j: "j \<in> set (q_readers s)" and s': "s' = s\<lparr>q_readers := remove1 j (q_readers s), q_chan := q_chan s @ [j]\<rparr>"
    by (auto simp: submitSend_def split: if_splits)
  have "length (q_readers s) = Suc (length (remove1 j (q_readers s)))"
    using j length_pos_if_in_set [OF j] by (simp add: length_remove1)
  then show ?case unfolding s' by (simp add: work_def)
next
  case (serve w b s s')
  then obtain j js where "q_phase s = Collecting j js" "s' = (answer w b (j # js) s)\<lparr>q_phase := Selecting\<rparr>"
    by (auto simp: writerServe_def split: writer_phase.splits if_splits)
  then show ?case by (simp add: work_def)
next
  case (drain_serve w b s s')
  then obtain js where "q_phase s = Draining js" "s' = (if js = [] then s else answer w b js s)\<lparr>q_phase := Exited\<rparr>"
    by (auto simp: drainServe_def split: writer_phase.splits list.splits)
  then show ?case by (simp add: work_def)
next
  case (lock s s')
  then show ?case by (auto simp: work_def closeLocked_def split: if_splits)
next
  case (receive s s')
  then show ?case by (auto simp: work_def writerReceive_def split: writer_phase.splits list.splits)
next
  case (shutdown s s')
  then show ?case by (auto simp: work_def writerDone_def split: writer_phase.splits if_splits)
next
  case (pull s s')
  then show ?case by (auto simp: work_def writerPull_def split: writer_phase.splits list.splits if_splits)
next
  case (drain_pull s s')
  then show ?case by (auto simp: work_def drainPull_def split: writer_phase.splits list.splits)
qed

definition answered :: "wq \<Rightarrow> nat \<Rightarrow> bool" where
  "answered s i \<longleftrightarrow> i \<in> fst ` set (q_replies s)"

text \<open>Nothing is ever stuck: while a call is pending some step is possible.\<close>

lemma internal_progress:
  assumes "wq_inv m s" "i \<in> set (q_calls s)" "\<not> answered s i"
  shows "\<exists>s'. internal s s'"
proof -
  have "set (q_calls s) = fst ` set (pending s) \<union> fst ` set (q_replies s)"
    using arg_cong [OF wq_invD(3) [OF assms(1)], of set_mset] by simp
  then have "i \<in> fst ` set (pending s)" using assms(2,3) by (auto simp: answered_def)
  then have p: "q_readers s \<noteq> [] \<or> q_chan s \<noteq> [] \<or> phase_jobs (q_phase s) \<noteq> []" by (auto simp: pending_def)
  show ?thesis
  proof (cases "q_phase s")
    case Selecting
    show ?thesis
    proof (cases "q_chan s")
      case Nil
      then obtain j where "j \<in> set (q_readers s)" using p Selecting by (cases "q_readers s") auto
      then have "submitSend j s = Some (s\<lparr>q_readers := remove1 j (q_readers s), q_chan := q_chan s @ [j]\<rparr>)"
        using Nil wq_invD(1) [OF assms(1)] by (simp add: submitSend_def)
      then show ?thesis by (blast intro: internal.send)
    next
      case (Cons j js)
      then show ?thesis using Selecting internal.receive [of s] by (auto simp: writerReceive_def)
    qed
  next
    case (Collecting j js)
    then show ?thesis
    proof (cases "Suc (length js) < q_depth s \<and> q_chan s \<noteq> []")
      case True
      then show ?thesis using Collecting internal.pull [of s] by (cases "q_chan s") (auto simp: writerPull_def)
    next
      case False
      then have "writerServe None False s = Some ((answer None False (j # js) s)\<lparr>q_phase := Selecting\<rparr>)"
        using Collecting by (simp add: writerServe_def)
      then show ?thesis by (blast intro: internal.serve)
    qed
  next
    case (Draining js)
    then show ?thesis using internal.drain_pull [of s] internal.drain_serve [of None False s]
      by (cases "q_chan s") (auto simp: drainPull_def drainServe_def)
  next
    case Exited
    then show ?thesis using wq_invD(5,6) [OF assms(1)] p by auto
  qed
qed

lemma internal_calls: "internal s s' \<Longrightarrow> q_calls s' = q_calls s"
  by (induction rule: internal.induct) (auto simp: wq_defs split: writer_phase.splits list.splits if_splits)

interpretation ws: winding internal "wq_inv m" work "\<lambda>s. \<forall>i \<in> set (q_calls s). answered s i" for m
  by unfold_locales (use internal_inv internal_work internal_progress in blast)+

lemma internal_answers:
  assumes "wq_inv m s"
  shows "\<exists>s'. internal\<^sup>*\<^sup>* s s' \<and> (\<forall>i \<in> set (q_calls s). answered s' i)"
proof -
  obtain s' where s': "internal\<^sup>*\<^sup>* s s'" "\<forall>i \<in> set (q_calls s'). answered s' i" using ws.reaches_goal [OF assms] by blast
  have "q_calls s' = q_calls s" using s'(1) by (induction rule: rtranclp_induct) (auto dest: internal_calls)
  then show ?thesis using s' by auto
qed

text \<open>
  C13. Every call of \<open>submit\<close> is answered, exactly once. Callers, the writer and \<open>Close\<close> interleave in any way from the start. In every state they can
  reach no call has two replies; without any further call the goroutines cannot run for ever; and wherever they have got to, they can always go on until every
  call so far has its reply. So no request is stranded in the queue, not even by \<open>Close\<close>, and once the writer has
  exited every call has been answered.
\<close>

theorem submit_answered_exactly_once:
  assumes "db_inv L db m" "0 < o_WriteQueueDepth (db_opts db)" "wq_step\<^sup>*\<^sup>* (wq_init db) s"
  shows "distinct (map fst (q_replies s)) \<and> fst ` set (q_replies s) \<subseteq> set (q_calls s) \<and>
    (q_phase s = Exited \<longrightarrow> (\<forall>i \<in> set (q_calls s). answered s i)) \<and>
    (\<nexists>f. f 0 = s \<and> (\<forall>n. internal (f n) (f (Suc n)))) \<and>
    (\<forall>s1. internal\<^sup>*\<^sup>* s s1 \<longrightarrow> (\<exists>s2. internal\<^sup>*\<^sup>* s1 s2 \<and> (\<forall>i \<in> set (q_calls s). answered s2 i)))"
proof (intro conjI allI impI)
  have inv: "wq_inv m s" using wq_reachable_inv [OF assms(3) wq_init_inv [OF assms(1,2)]] .
  note ms = wq_invD(3) [OF inv]
  have "distinct (map fst (pending s) @ map fst (q_replies s))"
    using wq_invD(2) [OF inv] ms by (metis mset_append mset_eq_imp_distinct_iff)
  then show "distinct (map fst (q_replies s))" by simp
  have calls: "set (q_calls s) = fst ` set (pending s) \<union> fst ` set (q_replies s)"
    using arg_cong [OF ms, of set_mset] by simp
  then show "fst ` set (q_replies s) \<subseteq> set (q_calls s)" by blast
  show "\<forall>i \<in> set (q_calls s). answered s i" if "q_phase s = Exited"
    using calls that wq_invD(5,6) [OF inv] by (auto simp: answered_def pending_def)
  show "\<nexists>f. f 0 = s \<and> (\<forall>n. internal (f n) (f (Suc n)))" by (rule ws.no_infinite_run [OF inv])
  fix s1
  assume s1: "internal\<^sup>*\<^sup>* s s1"
  have "wq_inv m s1 \<and> q_calls s1 = q_calls s"
    using s1 inv by (induction rule: rtranclp_induct) (auto dest: internal_inv internal_calls)
  then show "\<exists>s2. internal\<^sup>*\<^sup>* s1 s2 \<and> (\<forall>i \<in> set (q_calls s). answered s2 i)" using internal_answers [of m s1] by auto
qed

text \<open>A put enters the queue of a fresh database, and then \<open>Close\<close> asks for the lock.\<close>

theorem submit_answered_exactly_once_witness:
  "\<exists>s. wq_step\<^sup>*\<^sup>* (wq_init (empty_db small_opts)) s \<and> q_calls s = [7] \<and> q_closing s \<and> \<not> answered s 7 \<and>
     (\<exists>s2. internal\<^sup>*\<^sup>* s s2 \<and> answered s2 7)"
proof -
  let ?j = "(7, ok_request_env 5, WPut [1] [2])" and ?s0 = "wq_init (empty_db small_opts)"
  let ?s1 = "?s0\<lparr>q_calls := [7], q_readers := [?j]\<rparr>"
  have "wq_step ?s0 ?s1"
    by (rule wq_step.enter [of 7 "ok_request_env 5" "WPut [1] [2]"])
      (simp_all add: submitEnter_def wq_init_def empty_db_def record_consts ok_request_env_def int64_range_def)
  moreover have "wq_step ?s1 (?s1\<lparr>q_closing := True\<rparr>)"
    by (rule wq_step.close) (simp add: closeRequest_def wq_init_def empty_db_def)
  ultimately have r: "wq_step\<^sup>*\<^sup>* ?s0 (?s1\<lparr>q_closing := True\<rparr>)" by (rule converse_rtranclp_into_rtranclp [OF _ r_into_rtranclp])
  have "0 < o_WriteQueueDepth (db_opts (empty_db small_opts))" by (simp add: empty_db_def small_opts_def)
  note a = conjunct2 [OF conjunct2 [OF conjunct2 [OF conjunct2 [OF submit_answered_exactly_once [OF empty_db_inv this r]]]]]
  have "\<exists>s2. internal\<^sup>*\<^sup>* (?s1\<lparr>q_closing := True\<rparr>) s2 \<and> answered s2 7"
    using a [rule_format, OF rtranclp.rtrancl_refl] by simp
  with r show ?thesis by (intro exI [of _ "?s1\<lparr>q_closing := True\<rparr>"]) (simp add: answered_def wq_init_def)
qed

text \<open>
  C14. The queue preserves order and the store. However calls, bursts and \<open>Close\<close> interleave, the database represents the initial store with the
  requests that were carried out (those answered with success or with an fsync failure after their append) applied one after the other in the order in which they
  were served.
\<close>

theorem queue_refines_store:
  assumes "db_inv L db m" "0 < o_WriteQueueDepth (db_opts db)" "wq_step\<^sup>*\<^sup>* (wq_init db) s"
  shows "\<exists>L'. db_inv L' (q_db s) (apply_updates m (log_updates (q_log s)))"
  using wq_reachable_inv [OF assms(3) wq_init_inv [OF assms(1,2)]] by (simp add: wq_inv_def)

lemma internal_steps: "internal\<^sup>*\<^sup>* s s' \<Longrightarrow> wq_step\<^sup>*\<^sup>* s s'"
  by (induction rule: rtranclp_induct) (auto intro: rtranclp.rtrancl_into_rtrancl wq_step.internal)

theorem queue_refines_store_witness:
  "\<exists>s. wq_step\<^sup>*\<^sup>* (wq_init (empty_db small_opts)) s \<and> answered s 7 \<and>
     (\<exists>L'. db_inv L' (q_db s) (apply_updates Map.empty (log_updates (q_log s))))"
proof -
  let ?j = "(7, ok_request_env 5, WPut [1] [2])" and ?s0 = "wq_init (empty_db small_opts)"
  let ?s1 = "?s0\<lparr>q_calls := [7], q_readers := [?j]\<rparr>"
  have step: "wq_step ?s0 ?s1"
    by (rule wq_step.enter [of 7 "ok_request_env 5" "WPut [1] [2]"])
      (simp_all add: submitEnter_def wq_init_def empty_db_def record_consts ok_request_env_def int64_range_def)
  have d: "0 < o_WriteQueueDepth (db_opts (empty_db small_opts))" by (simp add: empty_db_def small_opts_def)
  have "wq_inv Map.empty ?s1" by (rule wq_step_inv [OF step wq_init_inv [OF empty_db_inv d]])
  from internal_answers [OF this] obtain s where s: "internal\<^sup>*\<^sup>* ?s1 s" "answered s 7" by auto
  have "wq_step\<^sup>*\<^sup>* ?s0 s" by (rule converse_rtranclp_into_rtranclp [OF step internal_steps [OF s(1)]])
  with queue_refines_store [OF empty_db_inv d this] s(2) show ?thesis by blast
qed

end
