(* ===== verification/Wire.thy ===== *)
theory Wire
  imports Go_Map
begin

text \<open>
  The wire protocol's shell, \<open>internal/wire/wire.go\<close> and \<open>frame.go\<close>: limits, opcodes and
  statuses, the two error classes, and the length-prefixed frame. A connection is modelled
  by the bytes it still has to deliver; \<open>io.ReadFull\<close> at its end gives \<open>io.EOF\<close> or
  \<open>io.ErrUnexpectedEOF\<close>. The contract of a message body is the locale \<open>body_codec\<close>; every
  body of the protocol interprets it (theories \<open>Wire_Request\<close> and \<open>Wire_Response\<close>).
\<close>

section \<open>Limits and tags\<close>

definition MaxFramePayload :: nat where "MaxFramePayload = 32 * 1024 * 1024"
definition MaxKeyLen :: nat where "MaxKeyLen = 64 * 1024"
definition MaxValLen :: nat where "MaxValLen = 16 * 1024 * 1024"
definition MaxBatchEntries :: nat where "MaxBatchEntries = 65536"
definition MaxErrMsgLen :: nat where "MaxErrMsgLen = 1024"
definition minBatchEntryBytes :: nat where "minBatchEntryBytes = 10"
definition minRangePairBytes :: nat where "minRangePairBytes = 9"
definition RangeEndSentinel :: u32 where "RangeEndSentinel = 0xFFFFFFFF"

lemmas wire_limits = MaxFramePayload_def MaxKeyLen_def MaxValLen_def MaxBatchEntries_def MaxErrMsgLen_def
  minBatchEntryBytes_def minRangePairBytes_def

type_synonym Op = byte
type_synonym Status = byte

definition OpPut :: Op where "OpPut = 1"
definition OpGet :: Op where "OpGet = 2"
definition OpDelete :: Op where "OpDelete = 3"
definition OpBatch :: Op where "OpBatch = 4"
definition OpReadKeyRange :: Op where "OpReadKeyRange = 5"
definition OpPing :: Op where "OpPing = 6"
definition OpStats :: Op where "OpStats = 7"

lemmas wire_ops = OpPut_def OpGet_def OpDelete_def OpBatch_def OpReadKeyRange_def OpPing_def OpStats_def

definition op_String :: "Op \<Rightarrow> string" where
  "op_String op =
     (if op = OpPut then ''PUT'' else if op = OpGet then ''GET'' else if op = OpDelete then ''DELETE''
      else if op = OpBatch then ''BATCH'' else if op = OpReadKeyRange then ''READKEYRANGE''
      else if op = OpPing then ''PING'' else if op = OpStats then ''STATS'' else ''UNKNOWN'')"

definition StatusOK :: Status where "StatusOK = 0"
definition StatusNotFound :: Status where "StatusNotFound = 1"
definition StatusBadRequest :: Status where "StatusBadRequest = 2"
definition StatusInternal :: Status where "StatusInternal = 3"
definition StatusClosed :: Status where "StatusClosed = 4"
definition StatusOverload :: Status where "StatusOverload = 5"

lemmas wire_statuses = StatusOK_def StatusNotFound_def StatusBadRequest_def StatusInternal_def StatusClosed_def
  StatusOverload_def

definition status_String :: "Status \<Rightarrow> string" where
  "status_String s =
     (if s = StatusOK then ''OK'' else if s = StatusNotFound then ''NOT_FOUND''
      else if s = StatusBadRequest then ''BAD_REQUEST'' else if s = StatusInternal then ''INTERNAL''
      else if s = StatusClosed then ''CLOSED'' else if s = StatusOverload then ''OVERLOAD'' else ''UNKNOWN'')"

definition BatchOpPut :: byte where "BatchOpPut = 0"
definition BatchOpDelete :: byte where "BatchOpDelete = 1"

section \<open>Errors\<close>

text \<open>
  Why a message is refused: the \<open>Reason\<close> texts of \<open>FrameError\<close> and \<open>ProtocolError\<close>, one
  constructor per message. \<open>AtEntry i r\<close> is the reason for entry or pair \<open>i\<close>.
\<close>

datatype frame_reason = PayloadLenZero | PayloadTooLarge nat | BodyTooLarge nat | ErrorWithStatusOK

datatype protocol_reason =
    TruncatedHeader nat
  | EmptyKey
  | KeyLenExceedsMax nat
  | BodyLengthMismatch nat nat
  | TruncatedBeforeLen
  | ValLenExceedsMax nat
  | CountZero
  | CountExceedsMax nat
  | CountImpliesMoreBytes nat
  | TruncatedValue
  | DeleteWithValue nat
  | UnknownEntryOp byte
  | TrailingAfter nat nat
  | StartAfterEnd
  | ExpectedEmptyBody nat
  | UnknownOpcode byte
  | EncodedBodyTooLarge nat
  | CountCollidesWithSentinel
  | MsgLenExceedsMax nat
  | AtEntry nat protocol_reason

text \<open>\<open>WireIO\<close> is any other error of the connection, such as an expired deadline.\<close>

datatype wire_error =
    WireEOF
  | WireUnexpectedEOF
  | WireIO
  | FrameError frame_reason
  | ProtocolError protocol_reason

section \<open>Frames\<close>

text \<open>\<open>io.ReadFull\<close> of \<open>n > 0\<close> bytes.\<close>

definition wireReadFull :: "nat \<Rightarrow> bytes \<Rightarrow> wire_error + bytes \<times> bytes" where
  "wireReadFull n src =
     (if n = 0 then Ok ([], src)
      else if src = [] then Err WireEOF
      else if length src < n then Err WireUnexpectedEOF
      else Ok (take n src, drop n src))"

definition ReadFrame :: "bytes \<Rightarrow> wire_error + byte \<times> bytes \<times> bytes" where
  "ReadFrame r =
     (case wireReadFull 4 r of
        Inl e \<Rightarrow> Err e
      | Inr (hdr, r1) \<Rightarrow>
          let payloadLen = BE_Uint32 hdr in
          if payloadLen < 1 then Err (FrameError PayloadLenZero)
          else if unat payloadLen > MaxFramePayload then Err (FrameError (PayloadTooLarge (unat payloadLen)))
          else (case wireReadFull (unat payloadLen) r1 of
                  Inl e \<Rightarrow> Err (if e = WireEOF then WireUnexpectedEOF else e)
                | Inr (buf, r2) \<Rightarrow> Ok (buf ! 0, drop 1 buf, r2)))"

definition EncodeFrame :: "byte \<Rightarrow> bytes \<Rightarrow> wire_error + bytes" where
  "EncodeFrame tag body =
     (if length body + 1 > MaxFramePayload then Err (FrameError (BodyTooLarge (length body)))
      else Ok (BE_PutUint32 (word_of_nat (length body + 1)) @ [tag] @ body))"

text \<open>
  \<open>WriteFrame\<close>: the bytes that reach the connection, and the error. The first write is the
  header, the second the body; \<open>flt k\<close> says how many bytes write \<open>k\<close> delivers before it
  fails, \<open>None\<close> that it succeeds.
\<close>

definition conn_write :: "nat option \<Rightarrow> bytes \<Rightarrow> (wire_error + unit) \<times> bytes" where
  "conn_write fault bs = (case fault of None \<Rightarrow> (Ok (), bs) | Some n \<Rightarrow> (Err WireIO, take n bs))"

definition WriteFrame :: "(nat \<Rightarrow> nat option) \<Rightarrow> byte \<Rightarrow> bytes \<Rightarrow> (wire_error + unit) \<times> bytes" where
  "WriteFrame flt tag body =
     (if length body + 1 > MaxFramePayload then (Err (FrameError (BodyTooLarge (length body))), [])
      else
        let hdr = BE_PutUint32 (word_of_nat (length body + 1)) @ [tag] in
        (case conn_write (flt 0) hdr of
           (Inl e, out) \<Rightarrow> (Err e, out)
         | (Inr _, out) \<Rightarrow>
             if length body > 0
             then (case conn_write (flt 1) body of
                     (Inl e, out') \<Rightarrow> (Err e, out @ out') | (Inr _, out') \<Rightarrow> (Ok (), out @ out'))
             else (Ok (), out)))"

section \<open>Laws of frames\<close>

lemma EncodeFrame_Ok_iff:
  "EncodeFrame tag body = Ok f \<longleftrightarrow>
     length body < MaxFramePayload \<and> f = BE_PutUint32 (word_of_nat (length body + 1)) @ [tag] @ body"
  by (auto simp: EncodeFrame_def)

lemma EncodeFrame_length: "EncodeFrame tag body = Ok f \<Longrightarrow> length f = 5 + length body"
  by (simp add: EncodeFrame_Ok_iff)

lemma unat_payload: "n < MaxFramePayload \<Longrightarrow> unat (word_of_nat (n + 1) :: u32) = n + 1"
  by (rule unat_word_of_nat_u32) (simp add: wire_limits)

text \<open>A frame is read back exactly, whatever follows it on the connection.\<close>

lemma ReadFrame_EncodeFrame:
  assumes "EncodeFrame tag body = Ok f"
  shows "ReadFrame (f @ rest) = Ok (tag, body, rest)"
proof -
  have n: "length body < MaxFramePayload" and f: "f = BE_PutUint32 (word_of_nat (length body + 1)) @ [tag] @ body"
    using assms by (simp_all add: EncodeFrame_Ok_iff)
  let ?n = "word_of_nat (length body + 1) :: u32"
  have u: "unat ?n = length body + 1" by (rule unat_payload [OF n])
  have "wireReadFull 4 (f @ rest) = Ok (BE_PutUint32 ?n, tag # body @ rest)"
    by (simp add: wireReadFull_def f be32.take_put be32.drop_put)
  moreover have "wireReadFull (unat ?n) (tag # body @ rest) = Ok (tag # body, rest)"
    unfolding u by (simp add: wireReadFull_def)
  moreover have "\<not> ?n < 1" using u by (simp only: word_less_nat_alt unsigned_1)
  ultimately show ?thesis
    using n u by (simp only: ReadFrame_def sum.case prod.case Let_def codec_inverses) simp
qed

text \<open>What is read is the encoding of a frame: nothing else is accepted.\<close>

lemma ReadFrame_Ok:
  assumes "ReadFrame r = Ok (tag, body, rest)"
  shows "\<exists>f. EncodeFrame tag body = Ok f \<and> r = f @ rest"
proof -
  from assms have l4: "4 \<le> length r"
    by (auto simp: ReadFrame_def wireReadFull_def split: if_splits)
  let ?p = "BE_Uint32 (take 4 r)"
  from assms l4 have p: "unat ?p \<ge> 1" "unat ?p \<le> MaxFramePayload" "unat ?p \<le> length (drop 4 r)"
    and eq: "tag = take (unat ?p) (drop 4 r) ! 0" "body = drop 1 (take (unat ?p) (drop 4 r))" "rest = drop (unat ?p) (drop 4 r)"
    by (auto simp: ReadFrame_def wireReadFull_def Let_def word_less_nat_alt split: if_splits)
  have buf: "take (unat ?p) (drop 4 r) = tag # body"
    unfolding eq using p(1,3) by (cases "take (unat ?p) (drop 4 r)") auto
  then have len: "length body + 1 = unat ?p" using p(3) by (metis Suc_eq_plus1 length_Cons length_take min.absorb2)
  have "r = take 4 r @ (tag # body) @ rest" using buf eq(3) by (metis append_take_drop_id)
  moreover have "take 4 r = BE_PutUint32 (word_of_nat (length body + 1))"
    unfolding len using be32.put_get [of "take 4 r"] l4 by simp
  moreover have "length body < MaxFramePayload" using len p(2) by simp
  ultimately show ?thesis by (metis EncodeFrame_Ok_iff append_Cons append_Nil append_assoc)
qed

lemma ReadFrame_shrinks: "ReadFrame r = Ok (tag, body, rest) \<Longrightarrow> length rest + 5 \<le> length r"
  using ReadFrame_Ok [of r tag body rest] by (auto dest: EncodeFrame_length)

text \<open>A write that succeeds has written the frame; one that fails a proper part of it.\<close>

lemma WriteFrame_Ok: "WriteFrame flt tag body = (Ok u, out) \<Longrightarrow> EncodeFrame tag body = Ok out"
  by (auto simp: WriteFrame_def EncodeFrame_def conn_write_def Let_def split: if_splits option.splits)

lemma WriteFrame_total:
  "length body < MaxFramePayload \<Longrightarrow> WriteFrame (\<lambda>_. None) tag body =
     (Ok (), BE_PutUint32 (word_of_nat (length body + 1)) @ [tag] @ body)"
  by (auto simp: WriteFrame_def conn_write_def Let_def)

section \<open>Message bodies\<close>

text \<open>
  The contract of a message body: what the encoder produces the decoder reads back, and the
  decoder accepts nothing but encodings. From these two laws: the codec is injective both
  ways, and a framed message survives the connection.
\<close>

locale body_codec =
  fixes enc :: "'a \<Rightarrow> wire_error + bytes" and dec :: "bytes \<Rightarrow> wire_error + 'a" and norm :: "'a \<Rightarrow> bool"
  assumes dec_enc: "enc x = Ok b \<Longrightarrow> norm x \<Longrightarrow> dec b = Ok x"
    and enc_dec: "dec b = Ok x \<Longrightarrow> length b < MaxFramePayload \<Longrightarrow> enc x = Ok b \<and> norm x"
begin

lemma enc_inject: "enc x = Ok b \<Longrightarrow> enc y = Ok b \<Longrightarrow> norm x \<Longrightarrow> norm y \<Longrightarrow> x = y"
  using dec_enc by (metis sum.inject(2))

lemma dec_inject:
  "dec b = Ok x \<Longrightarrow> dec c = Ok x \<Longrightarrow> length b < MaxFramePayload \<Longrightarrow> length c < MaxFramePayload \<Longrightarrow> b = c"
  using enc_dec by (metis sum.inject(2))

lemma framed:
  assumes "enc x = Ok b" "norm x" "EncodeFrame tag b = Ok f"
  shows "\<exists>c. ReadFrame (f @ rest) = Ok (tag, c, rest) \<and> dec c = Ok x"
  using ReadFrame_EncodeFrame [OF assms(3)] dec_enc [OF assms(1,2)] by blast

lemma framed_canonical:
  assumes "ReadFrame r = Ok (tag, b, rest)" "dec b = Ok x"
  shows "enc x = Ok b \<and> norm x \<and> (\<exists>f. EncodeFrame tag b = Ok f \<and> r = f @ rest)"
  using ReadFrame_Ok [OF assms(1)] enc_dec [OF assms(2)] by (auto simp: EncodeFrame_Ok_iff)

end

section \<open>Length-prefixed fields\<close>

text \<open>A key and a value, each behind its length: shared by batch entries and range pairs.\<close>

definition kv_bytes :: "bytes \<Rightarrow> bytes \<Rightarrow> bytes" where
  "kv_bytes k v = BE_PutUint32 (word_of_nat (length k)) @ k @ BE_PutUint32 (word_of_nat (length v)) @ v"

lemma length_kv_bytes [simp]: "length (kv_bytes k v) = 8 + length k + length v"
  by (simp add: kv_bytes_def)

lemma slice_self [simp]: "slice a a xs = []"
  by (simp add: slice_def)

lemma u32_field: "4 \<le> length bs \<Longrightarrow> BE_PutUint32 (BE_Uint32 (slice 0 4 bs)) = take 4 bs"
  by (subst be32.put_get) (simp_all add: slice_def)

text \<open>Reading the two fields off a buffer, and what the buffer must then be.\<close>

lemma kv_read:
  assumes "length k < 2 ^ 32" "length v < 2 ^ 32" "bs = kv_bytes k v @ post"
  shows "unat (BE_Uint32 (slice 0 4 bs)) = length k" "slice 4 (4 + length k) bs = k"
    "unat (BE_Uint32 (slice (4 + length k) (4 + length k + 4) bs)) = length v"
    "slice (4 + length k + 4) (4 + length k + 4 + length v) bs = v"
proof -
  let ?kl = "BE_PutUint32 (word_of_nat (length k))" and ?vl = "BE_PutUint32 (word_of_nat (length v))"
  show "unat (BE_Uint32 (slice 0 4 bs)) = length k"
    using assms by (simp add: kv_bytes_def be32.get_first unat_word_of_nat_u32)
  show "slice 4 (4 + length k) bs = k" unfolding assms(3) kv_bytes_def append_assoc by (rule slice_mid) simp_all
  have "slice (4 + length k) (4 + length k + 4) bs = ?vl"
    unfolding assms(3) kv_bytes_def append_assoc using slice_mid [of "?kl @ k" "4 + length k" ?vl _ "v @ post"] by simp
  then show "unat (BE_Uint32 (slice (4 + length k) (4 + length k + 4) bs)) = length v"
    using assms(2) by (simp add: unat_word_of_nat_u32)
  show "slice (4 + length k + 4) (4 + length k + 4 + length v) bs = v"
    unfolding assms(3) kv_bytes_def append_assoc
    using slice_mid [of "?kl @ k @ ?vl" "4 + length k + 4" v _ post] by simp
qed

lemma kv_at:
  assumes "klen = unat (BE_Uint32 (slice off (off + 4) bs))" "off + 4 + klen + 4 \<le> length bs"
    and "vlen = unat (BE_Uint32 (slice (off + 4 + klen) (off + 4 + klen + 4) bs))" "off + 4 + klen + 4 + vlen \<le> length bs"
  shows "slice off (off + 4 + klen + 4 + vlen) bs =
    kv_bytes (slice (off + 4) (off + 4 + klen) bs) (slice (off + 4 + klen + 4) (off + 4 + klen + 4 + vlen) bs)"
proof -
  let ?k = "slice (off + 4) (off + 4 + klen) bs" and ?v = "slice (off + 4 + klen + 4) (off + 4 + klen + 4 + vlen) bs"
  have lk: "length ?k = klen" "length ?v = vlen" using assms(2,4) by simp_all
  have "word_of_nat (length ?k) = BE_Uint32 (slice off (off + 4) bs)"
    "word_of_nat (length ?v) = BE_Uint32 (slice (off + 4 + klen) (off + 4 + klen + 4) bs)"
    using lk assms(1,3) by simp_all
  then have "BE_PutUint32 (word_of_nat (length ?k)) = slice off (off + 4) bs"
    "BE_PutUint32 (word_of_nat (length ?v)) = slice (off + 4 + klen) (off + 4 + klen + 4) bs"
    using assms(2) by (simp_all add: be32.put_get)
  then show ?thesis unfolding kv_bytes_def by (simp add: slice_join)
qed

text \<open>Reading the fields in the middle of a buffer.\<close>

lemma kv_read_at:
  assumes "length k < 2 ^ 32" "length v < 2 ^ 32" "bs = pre @ kv_bytes k v @ post" "off = length pre"
  shows "unat (BE_Uint32 (slice off (off + 4) bs)) = length k" "slice (off + 4) (off + 4 + length k) bs = k"
    "unat (BE_Uint32 (slice (off + 4 + length k) (off + 4 + length k + 4) bs)) = length v"
    "slice (off + 4 + length k + 4) (off + 4 + length k + 4 + length v) bs = v"
proof -
  have "slice (off + a) (off + c) bs = slice a c (kv_bytes k v @ post)" for a c
    unfolding slice_drop [symmetric] by (simp add: assms(3,4))
  from this [of 0 4] this [of 4 "4 + length k"] this [of "4 + length k" "4 + length k + 4"]
    this [of "4 + length k + 4" "4 + length k + 4 + length v"]
  show "unat (BE_Uint32 (slice off (off + 4) bs)) = length k" "slice (off + 4) (off + 4 + length k) bs = k"
    "unat (BE_Uint32 (slice (off + 4 + length k) (off + 4 + length k + 4) bs)) = length v"
    "slice (off + 4 + length k + 4) (off + 4 + length k + 4 + length v) bs = v"
    using kv_read [OF assms(1,2), of _ post] by (simp_all add: add.assoc)
qed

section \<open>Counted items\<close>

text \<open>
  The contract of the counted loops (batch entries, range pairs): one turn reads exactly one
  item, and accepts nothing but items. What the whole loop reads, and that it fails only
  with a \<open>ProtocolError\<close>, follows once for both.
\<close>

locale item_loop =
  fixes item :: "nat \<Rightarrow> bytes \<Rightarrow> nat \<Rightarrow> wire_error + 'a \<times> nat"
    and loop :: "nat \<Rightarrow> nat \<Rightarrow> bytes \<Rightarrow> nat \<Rightarrow> wire_error + 'a list \<times> nat"
    and enc :: "'a \<Rightarrow> bytes" and ok :: "'a \<Rightarrow> bool"
  assumes loop_0: "loop 0 i r off = Ok ([], off)"
    and loop_Suc: "loop (Suc n) i r off =
      (case item i r off of
         Inl e \<Rightarrow> Err e
       | Inr (x, off') \<Rightarrow>
           (case loop n (Suc i) r off' of Inl e \<Rightarrow> Err e | Inr (xs, off'') \<Rightarrow> Ok (x # xs, off'')))"
    and item_enc: "ok x \<Longrightarrow> item i (pre @ enc x @ post) (length pre) = Ok (x, length pre + length (enc x))"
    and enc_item: "item i r off = Ok (x, off') \<Longrightarrow> ok x \<and> off \<le> off' \<and> off' \<le> length r \<and> slice off off' r = enc x"
    and item_protocol: "item i r off = Err e \<Longrightarrow> \<exists>x. e = ProtocolError x"
begin

lemma loop_enc:
  "list_all ok xs \<Longrightarrow>
   loop (length xs) i (pre @ concat (map enc xs) @ post) (length pre) = Ok (xs, length pre + length (concat (map enc xs)))"
proof (induction xs arbitrary: i pre)
  case (Cons x xs)
  have "item i (pre @ enc x @ (concat (map enc xs) @ post)) (length pre) = Ok (x, length (pre @ enc x))"
    using item_enc [of x i pre] Cons.prems by simp
  moreover have "loop (length xs) (Suc i) ((pre @ enc x) @ concat (map enc xs) @ post) (length (pre @ enc x)) =
      Ok (xs, length (pre @ enc x) + length (concat (map enc xs)))"
    by (rule Cons.IH) (use Cons.prems in simp)
  ultimately show ?case by (simp add: loop_Suc)
qed (simp add: loop_0)

lemma loop_whole: "list_all ok xs \<Longrightarrow> loop (length xs) i (concat (map enc xs)) 0 = Ok (xs, length (concat (map enc xs)))"
  using loop_enc [of xs i "[]" "[]"] by simp

lemma loop_Ok:
  "loop n i r off = Ok (xs, off') \<Longrightarrow> off \<le> length r \<Longrightarrow>
   length xs = n \<and> list_all ok xs \<and> off \<le> off' \<and> off' \<le> length r \<and> slice off off' r = concat (map enc xs)"
proof (induction n arbitrary: i off xs)
  case (Suc n)
  obtain x off1 xs1 where d: "item i r off = Ok (x, off1)" "loop n (Suc i) r off1 = Ok (xs1, off')" "xs = x # xs1"
    using Suc.prems(1) by (auto simp: loop_Suc split: sum.splits prod.splits)
  have e: "ok x" "off \<le> off1" "off1 \<le> length r" "slice off off1 r = enc x" using enc_item [OF d(1)] by auto
  from Suc.IH [OF d(2) e(3)] e d(3) slice_join [of off off1 off' r] show ?case by auto
qed (simp add: loop_0)

lemma loop_protocol: "loop n i r off = Err e \<Longrightarrow> \<exists>x. e = ProtocolError x"
proof (induction n arbitrary: i off)
  case (Suc n)
  then show ?case using item_protocol by (fastforce simp: loop_Suc split: sum.splits prod.splits)
qed (simp add: loop_0)

end

text \<open>Results whose failure is a \<open>ProtocolError\<close>: the connection stays usable.\<close>

definition protocol_only :: "wire_error + 'a \<Rightarrow> bool" where
  "protocol_only r \<longleftrightarrow> (\<forall>e. r = Err e \<longrightarrow> (\<exists>x. e = ProtocolError x))"

lemma protocol_only_simps [simp]:
  "protocol_only (Err e) \<longleftrightarrow> (\<exists>x. e = ProtocolError x)" "protocol_only (Ok y)"
  "protocol_only (map_sum id f r) \<longleftrightarrow> protocol_only r"
  by (cases r; auto simp: protocol_only_def)+

end
