(* ===== verification/Wire_Request.thy ===== *)
theory Wire_Request
  imports Wire
begin

text \<open>
  Requests on the wire, \<open>internal/wire/request.go\<close>: the decoders of the server, the encoders
  of the client, and that they are inverse to each other. A slice that may be \<open>nil\<close> (the
  bounds of a range) is an \<open>option\<close>; a buffer filled front to back is the concatenation of
  what is written.
\<close>

section \<open>Requests\<close>

record wire_entry =
  wb_Delete :: bool
  wb_Key :: bytes
  wb_Value :: bytes

datatype request =
    PutRequest bytes bytes
  | GetRequest bytes
  | DeleteRequest bytes
  | BatchRequest "wire_entry list"
  | ReadKeyRangeRequest "bytes option" "bytes option"
  | PingRequest
  | StatsRequest

fun request_Op :: "request \<Rightarrow> Op" where
  "request_Op (PutRequest k v) = OpPut"
| "request_Op (GetRequest k) = OpGet"
| "request_Op (DeleteRequest k) = OpDelete"
| "request_Op (BatchRequest es) = OpBatch"
| "request_Op (ReadKeyRangeRequest s e) = OpReadKeyRange"
| "request_Op PingRequest = OpPing"
| "request_Op StatsRequest = OpStats"

section \<open>Decoding\<close>

definition decodeKeyOnly :: "bytes \<Rightarrow> wire_error + bytes" where
  "decodeKeyOnly body =
     (if length body < 4 then Err (ProtocolError (TruncatedHeader (length body)))
      else
        let klen = unat (BE_Uint32 (slice 0 4 body)) in
        if klen < 1 then Err (ProtocolError EmptyKey)
        else if klen > MaxKeyLen then Err (ProtocolError (KeyLenExceedsMax klen))
        else if length body \<noteq> 4 + klen then Err (ProtocolError (BodyLengthMismatch (length body) (4 + klen)))
        else Ok (drop 4 body))"

definition decodePut :: "bytes \<Rightarrow> wire_error + bytes \<times> bytes" where
  "decodePut body =
     (if length body < 4 then Err (ProtocolError (TruncatedHeader (length body)))
      else
        let klen = unat (BE_Uint32 (slice 0 4 body)) in
        if klen < 1 then Err (ProtocolError EmptyKey)
        else if klen > MaxKeyLen then Err (ProtocolError (KeyLenExceedsMax klen))
        else if length body < 4 + klen + 4 then Err (ProtocolError TruncatedBeforeLen)
        else
          let valLenOff = 4 + klen;
              vlen = unat (BE_Uint32 (slice valLenOff (valLenOff + 4) body)) in
          if vlen > MaxValLen then Err (ProtocolError (ValLenExceedsMax vlen))
          else if length body \<noteq> 4 + klen + 4 + vlen
            then Err (ProtocolError (BodyLengthMismatch (length body) (4 + klen + 4 + vlen)))
          else Ok (slice 4 (4 + klen) body, slice (valLenOff + 4) (valLenOff + 4 + vlen) body))"

text \<open>One turn of the entry loop of \<open>decodeBatch\<close>: the entry at \<open>off\<close> and the offset after it.\<close>

definition decodeEntry :: "nat \<Rightarrow> bytes \<Rightarrow> nat \<Rightarrow> wire_error + wire_entry \<times> nat" where
  "decodeEntry i remaining off =
     (if off + 1 + 4 > length remaining then Err (ProtocolError (AtEntry i (TruncatedHeader off)))
      else
        let op = remaining ! off;
            off1 = off + 1;
            klen = unat (BE_Uint32 (slice off1 (off1 + 4) remaining));
            off2 = off1 + 4 in
        if klen < 1 then Err (ProtocolError (AtEntry i EmptyKey))
        else if klen > MaxKeyLen then Err (ProtocolError (AtEntry i (KeyLenExceedsMax klen)))
        else if off2 + klen + 4 > length remaining then Err (ProtocolError (AtEntry i TruncatedBeforeLen))
        else
          let key = slice off2 (off2 + klen) remaining;
              off3 = off2 + klen;
              vlen = unat (BE_Uint32 (slice off3 (off3 + 4) remaining));
              off4 = off3 + 4 in
          if vlen > MaxValLen then Err (ProtocolError (AtEntry i (ValLenExceedsMax vlen)))
          else if off4 + vlen > length remaining then Err (ProtocolError (AtEntry i TruncatedValue))
          else if op = BatchOpPut
            then Ok (\<lparr>wb_Delete = False, wb_Key = key, wb_Value = slice off4 (off4 + vlen) remaining\<rparr>, off4 + vlen)
          else if op = BatchOpDelete
            then (if vlen \<noteq> 0 then Err (ProtocolError (AtEntry i (DeleteWithValue vlen)))
                  else Ok (\<lparr>wb_Delete = True, wb_Key = key, wb_Value = []\<rparr>, off4 + vlen))
          else Err (ProtocolError (AtEntry i (UnknownEntryOp op))))"

text \<open>The loop itself: \<open>n\<close> entries are left, the next one is number \<open>i\<close>.\<close>

fun decodeEntries :: "nat \<Rightarrow> nat \<Rightarrow> bytes \<Rightarrow> nat \<Rightarrow> wire_error + wire_entry list \<times> nat" where
  "decodeEntries 0 i remaining off = Ok ([], off)"
| "decodeEntries (Suc n) i remaining off =
     (case decodeEntry i remaining off of
        Inl e \<Rightarrow> Err e
      | Inr (x, off') \<Rightarrow>
          (case decodeEntries n (Suc i) remaining off' of Inl e \<Rightarrow> Err e | Inr (xs, off'') \<Rightarrow> Ok (x # xs, off'')))"

definition decodeBatch :: "bytes \<Rightarrow> wire_error + wire_entry list" where
  "decodeBatch body =
     (if length body < 4 then Err (ProtocolError (TruncatedHeader (length body)))
      else
        let count = unat (BE_Uint32 (slice 0 4 body)) in
        if count = 0 then Err (ProtocolError CountZero)
        else if count > MaxBatchEntries then Err (ProtocolError (CountExceedsMax count))
        else
          let remaining = drop 4 body in
          if count * minBatchEntryBytes > length remaining then Err (ProtocolError (CountImpliesMoreBytes count))
          else (case decodeEntries count 0 remaining 0 of
                  Inl e \<Rightarrow> Err e
                | Inr (entries, off) \<Rightarrow>
                    if off \<noteq> length remaining then Err (ProtocolError (TrailingAfter (length remaining - off) count))
                    else Ok entries))"

definition nil_if_empty :: "bytes \<Rightarrow> bytes option" where
  "nil_if_empty bs = (if length bs > 0 then Some bs else None)"

definition decodeReadKeyRange :: "bytes \<Rightarrow> wire_error + bytes option \<times> bytes option" where
  "decodeReadKeyRange body =
     (if length body < 4 then Err (ProtocolError (TruncatedHeader (length body)))
      else
        let slen = unat (BE_Uint32 (slice 0 4 body)) in
        if slen > MaxKeyLen then Err (ProtocolError (KeyLenExceedsMax slen))
        else if length body < 4 + slen + 4 then Err (ProtocolError TruncatedBeforeLen)
        else
          let endLenOff = 4 + slen;
              elen = unat (BE_Uint32 (slice endLenOff (endLenOff + 4) body)) in
          if elen > MaxKeyLen then Err (ProtocolError (KeyLenExceedsMax elen))
          else if length body \<noteq> 4 + slen + 4 + elen
            then Err (ProtocolError (BodyLengthMismatch (length body) (4 + slen + 4 + elen)))
          else
            let start = nil_if_empty (slice 4 (4 + slen) body);
                stop = nil_if_empty (slice (endLenOff + 4) (endLenOff + 4 + elen) body) in
            if (case (start, stop) of (Some a, Some b) \<Rightarrow> bytesCompare a b > 0 | _ \<Rightarrow> False)
            then Err (ProtocolError StartAfterEnd) else Ok (start, stop))"

definition DecodeRequest :: "Op \<Rightarrow> bytes \<Rightarrow> wire_error + request" where
  "DecodeRequest op body =
     (if op = OpPut then map_sum id (\<lambda>(k, v). PutRequest k v) (decodePut body)
      else if op = OpGet then map_sum id GetRequest (decodeKeyOnly body)
      else if op = OpDelete then map_sum id DeleteRequest (decodeKeyOnly body)
      else if op = OpBatch then map_sum id BatchRequest (decodeBatch body)
      else if op = OpReadKeyRange then map_sum id (\<lambda>(s, e). ReadKeyRangeRequest s e) (decodeReadKeyRange body)
      else if op = OpPing
        then (if length body \<noteq> 0 then Err (ProtocolError (ExpectedEmptyBody (length body))) else Ok PingRequest)
      else if op = OpStats
        then (if length body \<noteq> 0 then Err (ProtocolError (ExpectedEmptyBody (length body))) else Ok StatsRequest)
      else Err (ProtocolError (UnknownOpcode op)))"

text \<open>\<open>ReadRequest\<close>: the request or the error, and what is left on the connection.\<close>

definition ReadRequest :: "bytes \<Rightarrow> (wire_error + request) \<times> bytes" where
  "ReadRequest r =
     (case ReadFrame r of
        Inl e \<Rightarrow> (Err e, [])
      | Inr (tag, body, rest) \<Rightarrow> (DecodeRequest tag body, rest))"

section \<open>Encoding\<close>

definition checkKey :: "bytes \<Rightarrow> wire_error + unit" where
  "checkKey key =
     (if length key = 0 then Err (ProtocolError EmptyKey)
      else if length key > MaxKeyLen then Err (ProtocolError (KeyLenExceedsMax (length key)))
      else Ok ())"

definition encodeKeyOnly :: "bytes \<Rightarrow> wire_error + bytes" where
  "encodeKeyOnly key =
     (case checkKey key of Inl e \<Rightarrow> Err e | Inr _ \<Rightarrow> Ok (BE_PutUint32 (word_of_nat (length key)) @ key))"

definition encodePut :: "bytes \<times> bytes \<Rightarrow> wire_error + bytes" where
  "encodePut kv =
     (case kv of (key, value) \<Rightarrow>
       (case checkKey key of
          Inl e \<Rightarrow> Err e
        | Inr _ \<Rightarrow>
            if length value > MaxValLen then Err (ProtocolError (ValLenExceedsMax (length value)))
            else Ok (kv_bytes key value)))"

text \<open>The validation loop of \<open>encodeBatch\<close>: the running size, kept below the frame cap.\<close>

fun encodeBatchSize :: "nat \<Rightarrow> nat \<Rightarrow> wire_entry list \<Rightarrow> wire_error + nat" where
  "encodeBatchSize i sz [] = Ok sz"
| "encodeBatchSize i sz (e # es) =
     (case checkKey (wb_Key e) of
        Inl (ProtocolError r) \<Rightarrow> Err (ProtocolError (AtEntry i r))
      | Inl x \<Rightarrow> Err x
      | Inr _ \<Rightarrow>
          if wb_Delete e \<and> length (wb_Value e) \<noteq> 0 then Err (ProtocolError (AtEntry i (DeleteWithValue (length (wb_Value e)))))
          else if \<not> wb_Delete e \<and> length (wb_Value e) > MaxValLen
            then Err (ProtocolError (AtEntry i (ValLenExceedsMax (length (wb_Value e)))))
          else
            let entrySize = 1 + 4 + length (wb_Key e) + 4 + length (wb_Value e) in
            if sz + entrySize > MaxFramePayload - 1 then Err (ProtocolError (EncodedBodyTooLarge (sz + entrySize)))
            else encodeBatchSize (Suc i) (sz + entrySize) es)"

definition wire_entry_bytes :: "wire_entry \<Rightarrow> bytes" where
  "wire_entry_bytes e = (if wb_Delete e then BatchOpDelete else BatchOpPut) # kv_bytes (wb_Key e) (wb_Value e)"

definition encodeBatch :: "wire_entry list \<Rightarrow> wire_error + bytes" where
  "encodeBatch entries =
     (if length entries = 0 then Err (ProtocolError CountZero)
      else if length entries > MaxBatchEntries then Err (ProtocolError (CountExceedsMax (length entries)))
      else (case encodeBatchSize 0 4 entries of
              Inl e \<Rightarrow> Err e
            | Inr _ \<Rightarrow> Ok (BE_PutUint32 (word_of_nat (length entries)) @ concat (map wire_entry_bytes entries))))"

definition slice_of :: "bytes option \<Rightarrow> bytes" where
  "slice_of b = (case b of None \<Rightarrow> [] | Some bs \<Rightarrow> bs)"

definition encodeReadKeyRange :: "bytes option \<times> bytes option \<Rightarrow> wire_error + bytes" where
  "encodeReadKeyRange r =
     (case r of (start, stop) \<Rightarrow>
       if length (slice_of start) > MaxKeyLen then Err (ProtocolError (KeyLenExceedsMax (length (slice_of start))))
       else if length (slice_of stop) > MaxKeyLen then Err (ProtocolError (KeyLenExceedsMax (length (slice_of stop))))
       else if length (slice_of start) > 0 \<and> length (slice_of stop) > 0 \<and> bytesCompare (slice_of start) (slice_of stop) > 0
         then Err (ProtocolError StartAfterEnd)
       else Ok (kv_bytes (slice_of start) (slice_of stop)))"

fun encodeRequestBody :: "request \<Rightarrow> wire_error + bytes" where
  "encodeRequestBody (PutRequest k v) = encodePut (k, v)"
| "encodeRequestBody (GetRequest k) = encodeKeyOnly k"
| "encodeRequestBody (DeleteRequest k) = encodeKeyOnly k"
| "encodeRequestBody (BatchRequest es) = encodeBatch es"
| "encodeRequestBody (ReadKeyRangeRequest s e) = encodeReadKeyRange (s, e)"
| "encodeRequestBody PingRequest = Ok []"
| "encodeRequestBody StatsRequest = Ok []"

definition EncodeRequest :: "request \<Rightarrow> wire_error + bytes" where
  "EncodeRequest req =
     (case encodeRequestBody req of Inl e \<Rightarrow> Err e | Inr body \<Rightarrow> EncodeFrame (request_Op req) body)"

section \<open>Bodies are codecs\<close>

lemma checkKey_Ok_iff: "checkKey key = Ok u \<longleftrightarrow> 0 < length key \<and> length key \<le> MaxKeyLen"
  by (auto simp: checkKey_def)

lemma wire_len_u32: "n \<le> MaxKeyLen \<Longrightarrow> n < 2 ^ 32" "n \<le> MaxValLen \<Longrightarrow> n < 2 ^ 32" "n \<le> MaxBatchEntries \<Longrightarrow> n < 2 ^ 32"
  by (simp_all add: wire_limits)

lemma encodeKeyOnly_Ok_iff:
  "encodeKeyOnly key = Ok b \<longleftrightarrow> 0 < length key \<and> length key \<le> MaxKeyLen \<and> b = BE_PutUint32 (word_of_nat (length key)) @ key"
  by (auto simp: encodeKeyOnly_def checkKey_def split: sum.splits)

interpretation key_only: body_codec encodeKeyOnly decodeKeyOnly "\<lambda>_. True"
proof unfold_locales
  fix key b
  assume "encodeKeyOnly key = Ok b"
  then have k: "0 < length key" "length key \<le> MaxKeyLen" and b: "b = BE_PutUint32 (word_of_nat (length key)) @ key"
    by (simp_all add: encodeKeyOnly_Ok_iff)
  have "unat (BE_Uint32 (slice 0 4 b)) = length key"
    using wire_len_u32(1) [OF k(2)] by (simp add: b be32.get_first unat_word_of_nat_u32)
  then show "decodeKeyOnly b = Ok key" using k by (simp add: decodeKeyOnly_def Let_def b be32.drop_put)
next
  fix b key
  assume d: "decodeKeyOnly b = Ok key"
  let ?n = "unat (BE_Uint32 (slice 0 4 b))"
  have n: "4 \<le> length b" "0 < ?n" "?n \<le> MaxKeyLen" "length b = 4 + ?n" "key = drop 4 b"
    using d by (auto simp: decodeKeyOnly_def Let_def split: if_splits)
  then have "length key = ?n" by simp
  then have "word_of_nat (length key) = BE_Uint32 (slice 0 4 b)" by simp
  then have "BE_PutUint32 (word_of_nat (length key)) = take 4 b" using u32_field [OF n(1)] by simp
  then show "encodeKeyOnly key = Ok b \<and> True" using n \<open>length key = ?n\<close> by (simp add: encodeKeyOnly_Ok_iff)
qed

text \<open>The part \<open>decodePut\<close> and \<open>decodeReadKeyRange\<close> share: a body that is exactly one pair of fields.\<close>

lemma kv_whole:
  assumes "klen = unat (BE_Uint32 (slice 0 4 body))" "4 + klen + 4 \<le> length body"
    and "vlen = unat (BE_Uint32 (slice (4 + klen) (4 + klen + 4) body))" "length body = 4 + klen + 4 + vlen"
  shows "body = kv_bytes (slice 4 (4 + klen) body) (slice (4 + klen + 4) (4 + klen + 4 + vlen) body)"
proof -
  have "slice 0 (4 + klen + 4 + vlen) body = body" using assms(4) by (simp add: slice_full)
  with kv_at [of klen 0 body vlen] show ?thesis using assms by simp
qed

lemma encodePut_Ok_iff:
  "encodePut (k, v) = Ok b \<longleftrightarrow> 0 < length k \<and> length k \<le> MaxKeyLen \<and> length v \<le> MaxValLen \<and> b = kv_bytes k v"
  by (auto simp: encodePut_def checkKey_def split: sum.splits)

interpretation put: body_codec encodePut decodePut "\<lambda>_. True"
proof unfold_locales
  fix kv b
  assume "encodePut kv = Ok b"
  then obtain k v where kv: "kv = (k, v)" "0 < length k" "length k \<le> MaxKeyLen" "length v \<le> MaxValLen" "b = kv_bytes k v"
    by (cases kv) (auto simp: encodePut_Ok_iff)
  note r = kv_read [OF wire_len_u32(1) [OF kv(3)] wire_len_u32(2) [OF kv(4)], of b "[]"]
  show "decodePut b = Ok kv"
    using kv r by (simp add: decodePut_def Let_def)
next
  fix b kv
  assume d: "decodePut b = Ok kv"
  let ?k = "unat (BE_Uint32 (slice 0 4 b))"
  let ?v = "unat (BE_Uint32 (slice (4 + ?k) (4 + ?k + 4) b))"
  have n: "0 < ?k" "?k \<le> MaxKeyLen" "4 + ?k + 4 \<le> length b" "?v \<le> MaxValLen" "length b = 4 + ?k + 4 + ?v"
    and kv: "kv = (slice 4 (4 + ?k) b, slice (4 + ?k + 4) (4 + ?k + 4 + ?v) b)"
    using d by (auto simp: decodePut_def Let_def split: if_splits)
  show "encodePut kv = Ok b \<and> True"
    unfolding kv encodePut_Ok_iff using n kv_whole [OF refl n(3) refl n(5)] by simp
qed

section \<open>Batches\<close>

definition wire_entry_ok :: "wire_entry \<Rightarrow> bool" where
  "wire_entry_ok e \<longleftrightarrow> 0 < length (wb_Key e) \<and> length (wb_Key e) \<le> MaxKeyLen \<and> length (wb_Value e) \<le> MaxValLen \<and>
     (wb_Delete e \<longrightarrow> wb_Value e = [])"

lemma length_wire_entry_bytes [simp]: "length (wire_entry_bytes e) = 9 + length (wb_Key e) + length (wb_Value e)"
  by (simp add: wire_entry_bytes_def)

lemma decodeEntry_bytes:
  assumes "wire_entry_ok e"
  shows "decodeEntry i (pre @ wire_entry_bytes e @ post) (length pre) = Ok (e, length pre + length (wire_entry_bytes e))"
proof -
  let ?op = "if wb_Delete e then BatchOpDelete else BatchOpPut" and ?k = "wb_Key e" and ?v = "wb_Value e"
  let ?r = "pre @ wire_entry_bytes e @ post"
  have e: "0 < length ?k" "length ?k \<le> MaxKeyLen" "length ?v \<le> MaxValLen" "wb_Delete e \<Longrightarrow> ?v = []"
    using assms by (simp_all add: wire_entry_ok_def)
  have "?r = (pre @ [?op]) @ kv_bytes ?k ?v @ post" "length pre + 1 = length (pre @ [?op])" by (simp_all add: wire_entry_bytes_def)
  note f = kv_read_at [OF wire_len_u32(1) [OF e(2)] wire_len_u32(2) [OF e(3)] this]
  have op: "?r ! length pre = ?op" by (simp add: wire_entry_bytes_def)
  have "length ?r = length pre + 9 + length ?k + length ?v + length post" by simp
  then show ?thesis
    using e op f unfolding decodeEntry_def Let_def
    by (cases "wb_Delete e") (simp_all add: BatchOpPut_def BatchOpDelete_def)
qed

lemma decodeEntry_Ok:
  assumes "decodeEntry i r off = Ok (e, off')"
  shows "wire_entry_ok e" "off' \<le> length r" "off \<le> off'" "slice off off' r = wire_entry_bytes e"
proof -
  define op where "op = r ! off"
  define k where "k = unat (BE_Uint32 (slice (off + 1) (off + 1 + 4) r))"
  define v where "v = unat (BE_Uint32 (slice (off + 1 + 4 + k) (off + 1 + 4 + k + 4) r))"
  have d: "off + 1 + 4 + k + 4 \<le> length r" "off + 1 + 4 + k + 4 + v \<le> length r" "0 < k" "k \<le> MaxKeyLen" "v \<le> MaxValLen"
    and o: "off' = off + 1 + 4 + k + 4 + v"
    and e: "op = (if wb_Delete e then BatchOpDelete else BatchOpPut)" "wb_Delete e \<longrightarrow> v = 0"
      "wb_Key e = slice (off + 1 + 4) (off + 1 + 4 + k) r" "wb_Value e = slice (off + 1 + 4 + k + 4) (off + 1 + 4 + k + 4 + v) r"
    using assms unfolding decodeEntry_def Let_def op_def [symmetric] k_def [symmetric] v_def [symmetric]
    by (auto split: if_splits)
  have "slice (off + 1) off' r = kv_bytes (wb_Key e) (wb_Value e)"
    unfolding o e(3,4) by (rule kv_at [OF k_def d(1) v_def d(2)])
  moreover have "slice off off' r = op # slice (off + 1) off' r"
    using slice_join [of off "Suc off" off' r] slice_single [of off r] d(2) o op_def by simp
  ultimately show "slice off off' r = wire_entry_bytes e" using e(1) by (simp add: wire_entry_bytes_def)
  have "length (wb_Key e) = k" "length (wb_Value e) = v" using d(1,2) e(3,4) by simp_all
  then show "wire_entry_ok e" using d(3-5) e(2) by (auto simp: wire_entry_ok_def)
  show "off' \<le> length r" "off \<le> off'" using d(2) o by simp_all
qed

interpretation entries: item_loop decodeEntry decodeEntries wire_entry_bytes wire_entry_ok
proof unfold_locales
  show "\<exists>x. e = ProtocolError x" if "decodeEntry i r off = Err e" for i r off e
    using that by (auto simp: decodeEntry_def Let_def split: if_splits)
qed (use decodeEntry_Ok in \<open>simp_all add: decodeEntry_bytes\<close>)

lemma encodeBatchSize_Ok_iff:
  "encodeBatchSize i sz es = Ok n \<longleftrightarrow> list_all wire_entry_ok es \<and> n = sz + length (concat (map wire_entry_bytes es)) \<and>
     (es = [] \<or> n < MaxFramePayload)"
proof (induction es arbitrary: i sz)
  case (Cons e es)
  have k: "(case checkKey k of Inl (ProtocolError r) \<Rightarrow> Err (ProtocolError (AtEntry i r)) | Inl x \<Rightarrow> Err x | Inr u \<Rightarrow> X) = Ok n \<longleftrightarrow>
      0 < length k \<and> length k \<le> MaxKeyLen \<and> X = Ok n" for k X
    by (auto simp: checkKey_def)
  have cap: "x > MaxFramePayload - 1 \<longleftrightarrow> \<not> x < MaxFramePayload" for x by (auto simp: MaxFramePayload_def)
  let ?n = "1 + 4 + length (wb_Key e) + 4 + length (wb_Value e)"
  have "encodeBatchSize i sz (e # es) = Ok n \<longleftrightarrow>
      wire_entry_ok e \<and> sz + ?n < MaxFramePayload \<and> encodeBatchSize (Suc i) (sz + ?n) es = Ok n"
    unfolding encodeBatchSize.simps k Let_def cap wire_entry_ok_def by auto
  then show ?case unfolding Cons.IH by auto
qed auto

lemma encodeBatch_Ok_iff:
  "encodeBatch es = Ok b \<longleftrightarrow> es \<noteq> [] \<and> length es \<le> MaxBatchEntries \<and> list_all wire_entry_ok es \<and>
     length b < MaxFramePayload \<and> b = BE_PutUint32 (word_of_nat (length es)) @ concat (map wire_entry_bytes es)"
proof -
  have c: "(case encodeBatchSize 0 4 es of Inl e \<Rightarrow> Err e | Inr n \<Rightarrow> Ok X) = Ok b \<longleftrightarrow> (\<exists>n. encodeBatchSize 0 4 es = Ok n) \<and> X = b" for X
    by (auto split: sum.splits)
  let ?b = "BE_PutUint32 (word_of_nat (length es)) @ concat (map wire_entry_bytes es)"
  have "(\<exists>n. encodeBatchSize 0 4 es = Ok n) \<longleftrightarrow> list_all wire_entry_ok es \<and> (es = [] \<or> length ?b < MaxFramePayload)"
    by (simp add: encodeBatchSize_Ok_iff)
  then show ?thesis by (cases "es = []") (auto simp: encodeBatch_def c simp del: length_append)
qed

lemma entries_min_size: "list_all wire_entry_ok es \<Longrightarrow> length es * minBatchEntryBytes \<le> length (concat (map wire_entry_bytes es))"
proof (induction es)
  case (Cons e es)
  have "0 < length (wb_Key e)" using Cons.prems by (simp add: wire_entry_ok_def)
  then show ?case using Cons by (simp add: minBatchEntryBytes_def del: length_greater_0_conv)
qed simp

interpretation batch: body_codec encodeBatch decodeBatch "\<lambda>_. True"
proof unfold_locales
  fix es b
  assume "encodeBatch es = Ok b"
  then have e: "es \<noteq> []" "length es \<le> MaxBatchEntries" "list_all wire_entry_ok es"
    and b: "b = BE_PutUint32 (word_of_nat (length es)) @ concat (map wire_entry_bytes es)"
    by (simp_all add: encodeBatch_Ok_iff)
  have c: "unat (BE_Uint32 (slice 0 4 b)) = length es"
    using wire_len_u32(3) [OF e(2)] by (simp add: b be32.get_first unat_word_of_nat_u32)
  have d: "drop 4 b = concat (map wire_entry_bytes es)" "4 \<le> length b" by (simp_all add: b be32.drop_put)
  show "decodeBatch b = Ok es"
    using entries.loop_whole [OF e(3), of 0] e d entries_min_size [OF e(3)] unfolding decodeBatch_def Let_def c d(1) by simp
next
  fix b es
  assume d: "decodeBatch b = Ok es" and len: "length b < MaxFramePayload"
  let ?n = "unat (BE_Uint32 (slice 0 4 b))"
  have n: "4 \<le> length b" "0 < ?n" "?n \<le> MaxBatchEntries" and l: "decodeEntries ?n 0 (drop 4 b) 0 = Ok (es, length (drop 4 b))"
    using d by (auto simp: decodeBatch_def Let_def split: if_splits sum.splits prod.splits)
  have e: "length es = ?n" "list_all wire_entry_ok es" "drop 4 b = concat (map wire_entry_bytes es)"
    using entries.loop_Ok [OF l] by (simp_all add: slice_def)
  have "word_of_nat (length es) = BE_Uint32 (slice 0 4 b)" using e(1) by simp
  then have "BE_PutUint32 (word_of_nat (length es)) = take 4 b" using u32_field [OF n(1)] by simp
  then have "b = BE_PutUint32 (word_of_nat (length es)) @ concat (map wire_entry_bytes es)" using e(3) by (metis append_take_drop_id)
  then show "encodeBatch es = Ok b \<and> True" using e n len by (auto simp: encodeBatch_Ok_iff)
qed

section \<open>Ranges\<close>

text \<open>A bound that is empty but not \<open>nil\<close> is read back as \<open>nil\<close>: both mean an open end.\<close>

definition range_norm :: "bytes option \<times> bytes option \<Rightarrow> bool" where
  "range_norm r \<longleftrightarrow> fst r \<noteq> Some [] \<and> snd r \<noteq> Some []"

lemma nil_if_empty_slice_of: "x \<noteq> Some [] \<Longrightarrow> nil_if_empty (slice_of x) = x"
  by (cases x) (auto simp: nil_if_empty_def slice_of_def)

lemma slice_of_nil_if_empty [simp]: "slice_of (nil_if_empty bs) = bs" "nil_if_empty bs \<noteq> Some []"
  by (auto simp: nil_if_empty_def slice_of_def)

lemma start_after_end:
  "(case (nil_if_empty s, nil_if_empty e) of (Some a, Some b) \<Rightarrow> bytesCompare a b > 0 | _ \<Rightarrow> False) \<longleftrightarrow>
     s \<noteq> [] \<and> e \<noteq> [] \<and> bytesCompare s e > 0"
  by (simp add: nil_if_empty_def)

lemma encodeReadKeyRange_Ok_iff:
  "encodeReadKeyRange (s, e) = Ok b \<longleftrightarrow> length (slice_of s) \<le> MaxKeyLen \<and> length (slice_of e) \<le> MaxKeyLen \<and>
     \<not> (slice_of s \<noteq> [] \<and> slice_of e \<noteq> [] \<and> bytesCompare (slice_of s) (slice_of e) > 0) \<and> b = kv_bytes (slice_of s) (slice_of e)"
  by (auto simp: encodeReadKeyRange_def)

interpretation range: body_codec encodeReadKeyRange decodeReadKeyRange range_norm
proof unfold_locales
  fix r b
  assume "encodeReadKeyRange r = Ok b" and nrm: "range_norm r"
  then obtain s e where r: "r = (s, e)" "length (slice_of s) \<le> MaxKeyLen" "length (slice_of e) \<le> MaxKeyLen"
    "\<not> (slice_of s \<noteq> [] \<and> slice_of e \<noteq> [] \<and> bytesCompare (slice_of s) (slice_of e) > 0)" "b = kv_bytes (slice_of s) (slice_of e)"
    by (cases r) (auto simp: encodeReadKeyRange_Ok_iff)
  note f = kv_read [OF wire_len_u32(1) [OF r(2)] wire_len_u32(1) [OF r(3)], of b "[]"]
  have nn: "s \<noteq> Some []" "e \<noteq> Some []" using nrm r(1) by (simp_all add: range_norm_def)
  show "decodeReadKeyRange b = Ok r"
    using r f nil_if_empty_slice_of [OF nn(1)] nil_if_empty_slice_of [OF nn(2)]
    unfolding decodeReadKeyRange_def Let_def start_after_end by simp
next
  fix b r
  assume d: "decodeReadKeyRange b = Ok r"
  let ?k = "unat (BE_Uint32 (slice 0 4 b))"
  let ?v = "unat (BE_Uint32 (slice (4 + ?k) (4 + ?k + 4) b))"
  let ?s = "slice 4 (4 + ?k) b" and ?e = "slice (4 + ?k + 4) (4 + ?k + 4 + ?v) b"
  have n: "?k \<le> MaxKeyLen" "4 + ?k + 4 \<le> length b" "?v \<le> MaxKeyLen" "length b = 4 + ?k + 4 + ?v"
    and r: "r = (nil_if_empty ?s, nil_if_empty ?e)"
    and c: "\<not> (?s \<noteq> [] \<and> ?e \<noteq> [] \<and> bytesCompare ?s ?e > 0)"
    using d unfolding decodeReadKeyRange_def Let_def start_after_end by (simp_all split: if_splits)
  then show "encodeReadKeyRange r = Ok b \<and> range_norm r"
    unfolding r encodeReadKeyRange_Ok_iff range_norm_def using n kv_whole [OF refl n(2) refl n(4)] by simp
qed

section \<open>Requests on the connection\<close>

definition request_norm :: "request \<Rightarrow> bool" where
  "request_norm req \<longleftrightarrow> (\<forall>s e. req = ReadKeyRangeRequest s e \<longrightarrow> range_norm (s, e))"

lemma map_sum_Ok_iff: "map_sum id f x = Ok y \<longleftrightarrow> (\<exists>z. x = Ok z \<and> y = f z)"
  by (cases x) auto

lemma DecodeRequest_encode:
  assumes "encodeRequestBody req = Ok body" "request_norm req"
  shows "DecodeRequest (request_Op req) body = Ok req"
  using assms
  by (cases req) (simp_all add: DecodeRequest_def wire_ops put.dec_enc key_only.dec_enc batch.dec_enc range.dec_enc request_norm_def)

lemma encode_DecodeRequest:
  assumes "DecodeRequest op body = Ok req" "length body < MaxFramePayload"
  shows "encodeRequestBody req = Ok body \<and> request_Op req = op \<and> request_norm req"
  using assms put.enc_dec [OF _ assms(2)] key_only.enc_dec [OF _ assms(2)] batch.enc_dec [OF _ assms(2)] range.enc_dec [OF _ assms(2)]
  unfolding DecodeRequest_def request_norm_def
  by (auto simp: map_sum_Ok_iff split: if_splits)

text \<open>Every decoding failure is a \<open>ProtocolError\<close>.\<close>

lemma DecodeRequest_protocol: "protocol_only (DecodeRequest op body)"
proof -
  have "protocol_only (decodeBatch body)"
    using entries.loop_protocol [of "unat (BE_Uint32 (slice 0 4 body))" 0 "drop 4 body" 0]
    by (auto simp: decodeBatch_def Let_def split: sum.split)
  moreover have "protocol_only (decodePut body)" "protocol_only (decodeKeyOnly body)" "protocol_only (decodeReadKeyRange body)"
    by (simp_all add: decodePut_def decodeKeyOnly_def decodeReadKeyRange_def Let_def)
  ultimately show ?thesis by (simp add: DecodeRequest_def)
qed

lemma request_roundtrip_fwd:
  assumes "request_norm req" "EncodeRequest req = Ok f"
  shows "ReadRequest (f @ rest) = (Ok req, rest)"
proof -
  obtain body where b: "encodeRequestBody req = Ok body" "EncodeFrame (request_Op req) body = Ok f"
    using assms(2) by (auto simp: EncodeRequest_def split: sum.splits)
  then show ?thesis
    using ReadFrame_EncodeFrame [OF b(2)] DecodeRequest_encode [OF b(1) assms(1)] by (simp add: ReadRequest_def)
qed

text \<open>
  C24. The request codec is a bijection between well-formed requests and the byte strings the
  server accepts: a request the client encodes is read back as itself with the connection
  positioned after it, whatever follows; and every request the server reads was the
  encoding of exactly that request. (An empty, non-\<open>nil\<close> range bound is sent as \<open>nil\<close>.)
\<close>

theorem request_roundtrip:
  "request_norm req \<and> EncodeRequest req = Ok f \<longleftrightarrow>
   (\<forall>rest. ReadRequest (f @ rest) = (Ok req, rest))"
proof
  assume "request_norm req \<and> EncodeRequest req = Ok f"
  then show "\<forall>rest. ReadRequest (f @ rest) = (Ok req, rest)" using request_roundtrip_fwd by blast
next
  assume "\<forall>rest. ReadRequest (f @ rest) = (Ok req, rest)"
  then have "ReadRequest f = (Ok req, [])" by (metis append_Nil2)
  then obtain op body where r: "ReadFrame f = Ok (op, body, [])" "DecodeRequest op body = Ok req"
    by (auto simp: ReadRequest_def split: sum.splits prod.splits)
  then obtain g where "EncodeFrame op body = Ok g" "f = g @ []" using ReadFrame_Ok by blast
  with encode_DecodeRequest [OF r(2)] show "request_norm req \<and> EncodeRequest req = Ok f"
    by (auto simp: EncodeRequest_def EncodeFrame_Ok_iff)
qed

text \<open>
  C25. One bad request does not desynchronise the stream: whatever opcode and body a frame
  carries, the server consumes exactly that frame, and if it refuses it the error is a
  \<open>ProtocolError\<close>, which is answered in band; the next request is read from its first byte.
\<close>

theorem bad_request_keeps_framing:
  assumes "EncodeFrame op body = Ok f"
  shows "snd (ReadRequest (f @ rest)) = rest \<and>
    (\<exists>req. fst (ReadRequest (f @ rest)) = Ok req \<and> request_Op req = op \<or>
           (\<exists>r. fst (ReadRequest (f @ rest)) = Err (ProtocolError r)))"
proof -
  have r: "ReadRequest (f @ rest) = (DecodeRequest op body, rest)"
    using ReadFrame_EncodeFrame [OF assms] by (simp add: ReadRequest_def)
  have "length body < MaxFramePayload" using assms by (simp add: EncodeFrame_Ok_iff)
  then show ?thesis
    using r DecodeRequest_protocol [of op body] encode_DecodeRequest [of op body]
    by (cases "DecodeRequest op body") auto
qed

theorem bad_request_keeps_framing_witness:
  "snd (ReadRequest ((BE_PutUint32 6 @ [9] @ [1, 2, 3, 4, 5]) @ [7])) = [7]"
proof -
  have "EncodeFrame 9 [1, 2, 3, 4, 5] = Ok (BE_PutUint32 6 @ [9] @ [1, 2, 3, 4, 5])"
    by (simp add: EncodeFrame_def MaxFramePayload_def)
  from bad_request_keeps_framing [OF this, of "[7]"] show ?thesis by blast
qed

text \<open>
  C26. What a decoded request may hold, before the engine is called: keys are not empty and at
  most 64 KiB, values at most 16 MiB, a batch has between 1 and 65536 entries, each at least
  ten bytes of the body, deletes carry no value, and range bounds are in order. The slice
  allocated for a batch is therefore never longer than a tenth of the body received.
\<close>

fun request_within :: "nat \<Rightarrow> request \<Rightarrow> bool" where
  "request_within n (PutRequest k v) \<longleftrightarrow> 0 < length k \<and> length k \<le> MaxKeyLen \<and> length v \<le> MaxValLen \<and> length k + length v + 8 = n"
| "request_within n (GetRequest k) \<longleftrightarrow> 0 < length k \<and> length k \<le> MaxKeyLen"
| "request_within n (DeleteRequest k) \<longleftrightarrow> 0 < length k \<and> length k \<le> MaxKeyLen"
| "request_within n (BatchRequest es) \<longleftrightarrow> 0 < length es \<and> length es \<le> MaxBatchEntries \<and> length es * 10 \<le> n - 4 \<and>
     list_all wire_entry_ok es"
| "request_within n (ReadKeyRangeRequest s e) \<longleftrightarrow> (\<forall>a. s = Some a \<longrightarrow> 0 < length a \<and> length a \<le> MaxKeyLen) \<and>
     (\<forall>b. e = Some b \<longrightarrow> 0 < length b \<and> length b \<le> MaxKeyLen) \<and> (\<forall>a b. s = Some a \<longrightarrow> e = Some b \<longrightarrow> a \<le> b)"
| "request_within n PingRequest \<longleftrightarrow> n = 0"
| "request_within n StatsRequest \<longleftrightarrow> n = 0"

theorem DecodeRequest_bounds:
  assumes "DecodeRequest op body = Ok req" "length body < MaxFramePayload"
  shows "request_within (length body) req"
proof -
  note e = encode_DecodeRequest [OF assms]
  show ?thesis
  proof (cases req)
    case (BatchRequest es)
    then show ?thesis using e entries_min_size [of es] by (auto simp: encodeBatch_Ok_iff minBatchEntryBytes_def)
  next
    case (ReadKeyRangeRequest s t)
    then show ?thesis
      using e by (auto simp: encodeReadKeyRange_Ok_iff slice_of_def request_norm_def range_norm_def bytesCompare_greater not_less)
  qed (use e in \<open>auto simp: encodePut_Ok_iff encodeKeyOnly_Ok_iff\<close>)
qed

theorem DecodeRequest_bounds_witness:
  "request_within 10 (PutRequest [1] [2])"
proof -
  have "encodeRequestBody (PutRequest [1] [2]) = Ok (kv_bytes [1] [2])"
    by (simp add: encodePut_Ok_iff wire_limits)
  then have d: "DecodeRequest (request_Op (PutRequest [1] [2])) (kv_bytes [1] [2]) = Ok (PutRequest [1] [2])"
    by (rule DecodeRequest_encode) (simp add: request_norm_def)
  from DecodeRequest_bounds [OF d] show ?thesis by (simp add: wire_limits)
qed

end
