(* ===== verification/Wire_Response.thy ===== *)
theory Wire_Response
  imports Wire
begin

text \<open>
  Responses on the wire, \<open>internal/wire/response.go\<close>: the error envelope, the bodies of GET
  and STATS, and the pages of a range stream with the reader that consumes them. Go strings
  are byte strings, so a message is \<open>bytes\<close>.
\<close>

section \<open>Error envelopes\<close>

definition EncodeError :: "bytes \<Rightarrow> bytes" where
  "EncodeError msg =
     (let msg = (if length msg > MaxErrMsgLen then take MaxErrMsgLen msg else msg) in
      BE_PutUint16 (word_of_nat (length msg)) @ msg)"

definition DecodeError :: "bytes \<Rightarrow> wire_error + bytes" where
  "DecodeError body =
     (if length body < 2 then Err (ProtocolError (TruncatedHeader (length body)))
      else
        let mlen = unat (BE_Uint16 (slice 0 2 body)) in
        if mlen > MaxErrMsgLen then Err (ProtocolError (MsgLenExceedsMax mlen))
        else if length body \<noteq> 2 + mlen then Err (ProtocolError (BodyLengthMismatch (length body) (2 + mlen)))
        else Ok (drop 2 body))"

definition WriteError :: "(nat \<Rightarrow> nat option) \<Rightarrow> Status \<Rightarrow> bytes \<Rightarrow> (wire_error + unit) \<times> bytes" where
  "WriteError flt status msg =
     (if status = StatusOK then (Err (FrameError ErrorWithStatusOK), [])
      else WriteFrame flt status (EncodeError msg))"

section \<open>Unary bodies\<close>

definition EncodeGetOK :: "bytes \<Rightarrow> wire_error + bytes" where
  "EncodeGetOK val =
     (if length val > MaxValLen then Err (ProtocolError (ValLenExceedsMax (length val)))
      else Ok (BE_PutUint32 (word_of_nat (length val)) @ val))"

definition DecodeGetOK :: "bytes \<Rightarrow> wire_error + bytes" where
  "DecodeGetOK body =
     (if length body < 4 then Err (ProtocolError (TruncatedHeader (length body)))
      else
        let vlen = unat (BE_Uint32 (slice 0 4 body)) in
        if vlen > MaxValLen then Err (ProtocolError (ValLenExceedsMax vlen))
        else if length body \<noteq> 4 + vlen then Err (ProtocolError (BodyLengthMismatch (length body) (4 + vlen)))
        else Ok (drop 4 body))"

definition EncodeStatsOK :: "u64 \<Rightarrow> u64 \<Rightarrow> bytes" where
  "EncodeStatsOK keyCount bytesOnDisk = BE_PutUint64 keyCount @ BE_PutUint64 bytesOnDisk"

definition DecodeStatsOK :: "bytes \<Rightarrow> wire_error + u64 \<times> u64" where
  "DecodeStatsOK body =
     (if length body \<noteq> 16 then Err (ProtocolError (BodyLengthMismatch (length body) 16))
      else Ok (BE_Uint64 (slice 0 8 body), BE_Uint64 (slice 8 16 body)))"

section \<open>Range pages\<close>

record KV =
  kv_Key :: bytes
  kv_Value :: bytes

text \<open>The validation loop of \<open>EncodeRangePage\<close> and the bytes of one pair.\<close>

fun rangePageSize :: "nat \<Rightarrow> nat \<Rightarrow> KV list \<Rightarrow> wire_error + nat" where
  "rangePageSize i sz [] = Ok sz"
| "rangePageSize i sz (p # ps) =
     (if length (kv_Key p) = 0 then Err (ProtocolError (AtEntry i EmptyKey))
      else if length (kv_Key p) > MaxKeyLen then Err (ProtocolError (AtEntry i (KeyLenExceedsMax (length (kv_Key p)))))
      else if length (kv_Value p) > MaxValLen then Err (ProtocolError (AtEntry i (ValLenExceedsMax (length (kv_Value p)))))
      else rangePageSize (Suc i) (sz + (4 + length (kv_Key p) + 4 + length (kv_Value p))) ps)"

definition pair_bytes :: "KV \<Rightarrow> bytes" where
  "pair_bytes p = kv_bytes (kv_Key p) (kv_Value p)"

definition EncodeRangePage :: "KV list \<Rightarrow> wire_error + bytes" where
  "EncodeRangePage pairs =
     (if length pairs \<ge> unat RangeEndSentinel then Err (ProtocolError CountCollidesWithSentinel)
      else (case rangePageSize 0 4 pairs of
              Inl e \<Rightarrow> Err e
            | Inr sz \<Rightarrow>
                if sz + 1 > MaxFramePayload then Err (ProtocolError (EncodedBodyTooLarge sz))
                else Ok (BE_PutUint32 (word_of_nat (length pairs)) @ concat (map pair_bytes pairs))))"

definition EncodeRangeEnd :: bytes where
  "EncodeRangeEnd = BE_PutUint32 RangeEndSentinel"

definition decodePair :: "nat \<Rightarrow> bytes \<Rightarrow> nat \<Rightarrow> wire_error + KV \<times> nat" where
  "decodePair i remaining off =
     (if off + 4 > length remaining then Err (ProtocolError (AtEntry i (TruncatedHeader off)))
      else
        let klen = unat (BE_Uint32 (slice off (off + 4) remaining));
            off1 = off + 4 in
        if klen < 1 then Err (ProtocolError (AtEntry i EmptyKey))
        else if klen > MaxKeyLen then Err (ProtocolError (AtEntry i (KeyLenExceedsMax klen)))
        else if off1 + klen + 4 > length remaining then Err (ProtocolError (AtEntry i TruncatedBeforeLen))
        else
          let key = slice off1 (off1 + klen) remaining;
              off2 = off1 + klen;
              vlen = unat (BE_Uint32 (slice off2 (off2 + 4) remaining));
              off3 = off2 + 4 in
          if vlen > MaxValLen then Err (ProtocolError (AtEntry i (ValLenExceedsMax vlen)))
          else if off3 + vlen > length remaining then Err (ProtocolError (AtEntry i TruncatedValue))
          else Ok (\<lparr>kv_Key = key, kv_Value = slice off3 (off3 + vlen) remaining\<rparr>, off3 + vlen))"

fun decodePairs :: "nat \<Rightarrow> nat \<Rightarrow> bytes \<Rightarrow> nat \<Rightarrow> wire_error + KV list \<times> nat" where
  "decodePairs 0 i remaining off = Ok ([], off)"
| "decodePairs (Suc n) i remaining off =
     (case decodePair i remaining off of
        Inl e \<Rightarrow> Err e
      | Inr (x, off') \<Rightarrow>
          (case decodePairs n (Suc i) remaining off' of Inl e \<Rightarrow> Err e | Inr (xs, off'') \<Rightarrow> Ok (x # xs, off'')))"

text \<open>\<open>DecodeRangeFrame\<close>: \<open>None\<close> is the end of the stream, \<open>Some pairs\<close> a page.\<close>

definition DecodeRangeFrame :: "bytes \<Rightarrow> wire_error + KV list option" where
  "DecodeRangeFrame body =
     (if length body < 4 then Err (ProtocolError (TruncatedHeader (length body)))
      else
        let count = BE_Uint32 (slice 0 4 body) in
        if count = RangeEndSentinel
        then (if length body \<noteq> 4 then Err (ProtocolError (BodyLengthMismatch (length body) 4)) else Ok None)
        else
          let remaining = drop 4 body in
          if unat count * minRangePairBytes > length remaining then Err (ProtocolError (CountImpliesMoreBytes (unat count)))
          else (case decodePairs (unat count) 0 remaining 0 of
                  Inl e \<Rightarrow> Err e
                | Inr (pairs, off) \<Rightarrow>
                    if off \<noteq> length remaining
                    then Err (ProtocolError (TrailingAfter (length remaining - off) (unat count)))
                    else Ok (Some pairs)))"

text \<open>
  \<open>ReadRangeStream\<close> on a connection that ends: how the stream ended, the callback's state, and
  the rest of the connection. \<open>pageFn\<close> is a closure, so its state is threaded through. The loop
  has no bound of its own; theory \<open>Range_Stream\<close> has it on connections that deliver for ever.
\<close>

datatype stream_error = StreamWire wire_error | RemoteError Status bytes | ErrStreamStopped

function ReadRangeStream ::
  "(KV list \<Rightarrow> 's \<Rightarrow> bool \<times> 's) \<Rightarrow> bytes \<Rightarrow> 's \<Rightarrow> (stream_error + unit) \<times> 's \<times> bytes" where
  "ReadRangeStream pageFn r s =
     (case ReadFrame r of
        Inl e \<Rightarrow> (Err (StreamWire e), s, [])
      | Inr (tag, body, rest) \<Rightarrow>
          if tag \<noteq> StatusOK
          then (case DecodeError body of
                  Inl e \<Rightarrow> (Err (StreamWire e), s, rest)
                | Inr msg \<Rightarrow> (Err (RemoteError tag msg), s, rest))
          else (case DecodeRangeFrame body of
                  Inl e \<Rightarrow> (Err (StreamWire e), s, rest)
                | Inr None \<Rightarrow> (Ok (), s, rest)
                | Inr (Some pairs) \<Rightarrow>
                    (case pageFn pairs s of
                       (go, s') \<Rightarrow> if go then ReadRangeStream pageFn rest s' else (Err ErrStreamStopped, s', rest))))"
  by pat_completeness auto
termination
  by (relation "measure (\<lambda>(f, r, s). length r)") (auto dest: ReadFrame_shrinks)

declare ReadRangeStream.simps [simp del]

section \<open>Unary bodies are codecs\<close>

lemma u16_field: "2 \<le> length bs \<Longrightarrow> BE_PutUint16 (BE_Uint16 (slice 0 2 bs)) = take 2 bs"
  by (subst be16.put_get) (simp_all add: slice_def)

lemma EncodeError_short: "length msg \<le> MaxErrMsgLen \<Longrightarrow> EncodeError msg = BE_PutUint16 (word_of_nat (length msg)) @ msg"
  by (simp add: EncodeError_def Let_def)

lemma EncodeError_long: "EncodeError msg = EncodeError (take MaxErrMsgLen msg)"
  by (simp add: EncodeError_def Let_def)

lemma length_EncodeError: "length (EncodeError msg) = 2 + min MaxErrMsgLen (length msg)"
  by (simp add: EncodeError_def Let_def min_def)

lemma EncodeError_fits: "length (EncodeError msg) < MaxFramePayload"
  by (simp add: length_EncodeError wire_limits)

interpretation error: body_codec "\<lambda>msg. Ok (EncodeError msg)" DecodeError "\<lambda>msg. length msg \<le> MaxErrMsgLen"
proof unfold_locales
  fix msg b
  assume "Ok (EncodeError msg) = (Ok b :: wire_error + bytes)" and m: "length msg \<le> MaxErrMsgLen"
  then have b: "b = BE_PutUint16 (word_of_nat (length msg)) @ msg" by (simp add: EncodeError_short)
  have "length msg < 2 ^ 16" using m by (simp add: wire_limits)
  then have "unat (BE_Uint16 (slice 0 2 b)) = length msg" by (simp add: b be16.get_first unat_word_of_nat_u16)
  then show "DecodeError b = Ok msg" using m by (simp add: DecodeError_def Let_def b be16.drop_put)
next
  fix b msg
  assume d: "DecodeError b = Ok msg"
  let ?n = "unat (BE_Uint16 (slice 0 2 b))"
  have n: "2 \<le> length b" "?n \<le> MaxErrMsgLen" "length b = 2 + ?n" "msg = drop 2 b"
    using d by (auto simp: DecodeError_def Let_def split: if_splits)
  then have l: "length msg = ?n" by simp
  then have "word_of_nat (length msg) = BE_Uint16 (slice 0 2 b)" by simp
  then have "BE_PutUint16 (word_of_nat (length msg)) = take 2 b" using u16_field [OF n(1)] by simp
  then show "Ok (EncodeError msg) = Ok b \<and> length msg \<le> MaxErrMsgLen" using n l by (simp add: EncodeError_short)
qed

interpretation get_ok: body_codec EncodeGetOK DecodeGetOK "\<lambda>_. True"
proof unfold_locales
  fix val b
  assume "EncodeGetOK val = Ok b"
  then have v: "length val \<le> MaxValLen" and b: "b = BE_PutUint32 (word_of_nat (length val)) @ val"
    by (auto simp: EncodeGetOK_def split: if_splits)
  have "length val < 2 ^ 32" using v by (simp add: wire_limits)
  then have "unat (BE_Uint32 (slice 0 4 b)) = length val" by (simp add: b be32.get_first unat_word_of_nat_u32)
  then show "DecodeGetOK b = Ok val" using v by (simp add: DecodeGetOK_def Let_def b be32.drop_put)
next
  fix b val
  assume d: "DecodeGetOK b = Ok val"
  let ?n = "unat (BE_Uint32 (slice 0 4 b))"
  have n: "4 \<le> length b" "?n \<le> MaxValLen" "length b = 4 + ?n" "val = drop 4 b"
    using d by (auto simp: DecodeGetOK_def Let_def split: if_splits)
  then have l: "length val = ?n" by simp
  then have "word_of_nat (length val) = BE_Uint32 (slice 0 4 b)" by simp
  then have "BE_PutUint32 (word_of_nat (length val)) = take 4 b" using u32_field [OF n(1)] by simp
  then show "EncodeGetOK val = Ok b \<and> True" using n l by (simp add: EncodeGetOK_def)
qed

interpretation stats_ok: body_codec "\<lambda>(k, n). Ok (EncodeStatsOK k n)" DecodeStatsOK "\<lambda>_. True"
proof unfold_locales
  fix x :: "u64 \<times> u64" and b
  assume "(case x of (k, n) \<Rightarrow> Ok (EncodeStatsOK k n)) = (Ok b :: wire_error + bytes)"
  then show "DecodeStatsOK b = Ok x"
    by (cases x) (auto simp: EncodeStatsOK_def DecodeStatsOK_def be64.get_first slice_append2 slice_full)
next
  fix b x
  assume "DecodeStatsOK b = Ok x"
  then have l: "length b = 16" and x: "x = (BE_Uint64 (slice 0 8 b), BE_Uint64 (slice 8 16 b))"
    by (auto simp: DecodeStatsOK_def split: if_splits)
  have "BE_PutUint64 (BE_Uint64 (slice 0 8 b)) @ BE_PutUint64 (BE_Uint64 (slice 8 16 b)) = slice 0 16 b"
    using l by (simp add: be64.put_get slice_join)
  then show "(case x of (k, n) \<Rightarrow> Ok (EncodeStatsOK k n)) = Ok b \<and> True"
    using l by (simp add: x EncodeStatsOK_def slice_full)
qed

section \<open>Pages\<close>

definition pair_ok :: "KV \<Rightarrow> bool" where
  "pair_ok p \<longleftrightarrow> 0 < length (kv_Key p) \<and> length (kv_Key p) \<le> MaxKeyLen \<and> length (kv_Value p) \<le> MaxValLen"

lemma length_pair_bytes [simp]: "length (pair_bytes p) = 8 + length (kv_Key p) + length (kv_Value p)"
  by (simp add: pair_bytes_def)

lemma decodePair_bytes:
  assumes "pair_ok p"
  shows "decodePair i (pre @ pair_bytes p @ post) (length pre) = Ok (p, length pre + length (pair_bytes p))"
proof -
  let ?k = "kv_Key p" and ?v = "kv_Value p" and ?r = "pre @ pair_bytes p @ post"
  have e: "0 < length ?k" "length ?k \<le> MaxKeyLen" "length ?v \<le> MaxValLen" using assms by (simp_all add: pair_ok_def)
  have u: "length ?k < 2 ^ 32" "length ?v < 2 ^ 32" using e by (simp_all add: wire_limits)
  note f = kv_read_at [OF u, of ?r pre post, OF _ refl]
  have "length ?r = length pre + 8 + length ?k + length ?v + length post" by simp
  then show ?thesis using e f unfolding decodePair_def Let_def by (simp add: pair_bytes_def)
qed

lemma decodePair_Ok:
  assumes "decodePair i r off = Ok (p, off')"
  shows "pair_ok p \<and> off \<le> off' \<and> off' \<le> length r \<and> slice off off' r = pair_bytes p"
proof -
  define k where "k = unat (BE_Uint32 (slice off (off + 4) r))"
  define v where "v = unat (BE_Uint32 (slice (off + 4 + k) (off + 4 + k + 4) r))"
  have d: "off + 4 + k + 4 \<le> length r" "off + 4 + k + 4 + v \<le> length r" "0 < k" "k \<le> MaxKeyLen" "v \<le> MaxValLen"
    and o: "off' = off + 4 + k + 4 + v"
    and e: "kv_Key p = slice (off + 4) (off + 4 + k) r" "kv_Value p = slice (off + 4 + k + 4) (off + 4 + k + 4 + v) r"
    using assms unfolding decodePair_def Let_def k_def [symmetric] v_def [symmetric] by (auto split: if_splits)
  have "slice off off' r = pair_bytes p" unfolding o pair_bytes_def e by (rule kv_at [OF k_def d(1) v_def d(2)])
  moreover have "length (kv_Key p) = k" "length (kv_Value p) = v" using d(1,2) e by simp_all
  ultimately show ?thesis using d o by (simp add: pair_ok_def del: length_greater_0_conv)
qed

interpretation pairs: item_loop decodePair decodePairs pair_bytes pair_ok
proof unfold_locales
  show "\<exists>x. e = ProtocolError x" if "decodePair i r off = Err e" for i r off e
    using that by (auto simp: decodePair_def Let_def split: if_splits)
qed (use decodePair_Ok in \<open>simp_all add: decodePair_bytes\<close>)

lemma rangePageSize_Ok_iff:
  "rangePageSize i sz ps = Ok n \<longleftrightarrow> list_all pair_ok ps \<and> n = sz + length (concat (map pair_bytes ps))"
proof (induction ps arbitrary: i sz)
  case (Cons p ps)
  have "rangePageSize i sz (p # ps) = Ok n \<longleftrightarrow>
      pair_ok p \<and> rangePageSize (Suc i) (sz + (4 + length (kv_Key p) + 4 + length (kv_Value p))) ps = Ok n"
    unfolding rangePageSize.simps pair_ok_def by auto
  then show ?case unfolding Cons.IH by auto
qed auto

lemma pairs_min_size: "list_all pair_ok ps \<Longrightarrow> length ps * minRangePairBytes \<le> length (concat (map pair_bytes ps))"
proof (induction ps)
  case (Cons p ps)
  have "0 < length (kv_Key p)" using Cons.prems by (simp add: pair_ok_def)
  then show ?case using Cons by (simp add: minRangePairBytes_def del: length_greater_0_conv)
qed simp

lemma sentinel: "unat RangeEndSentinel = 2 ^ 32 - 1"
  by (simp add: RangeEndSentinel_def)

lemma EncodeRangePage_Ok_iff:
  "EncodeRangePage ps = Ok b \<longleftrightarrow> list_all pair_ok ps \<and> length b < MaxFramePayload \<and>
     b = BE_PutUint32 (word_of_nat (length ps)) @ concat (map pair_bytes ps)"
proof -
  let ?n = "4 + length (concat (map pair_bytes ps))"
  have c: "(case rangePageSize 0 4 ps of Inl e \<Rightarrow> Err e | Inr sz \<Rightarrow> if sz + 1 > MaxFramePayload
        then Err (ProtocolError (EncodedBodyTooLarge sz)) else Ok X) = Ok b \<longleftrightarrow>
      list_all pair_ok ps \<and> ?n < MaxFramePayload \<and> X = b" for X
  proof (cases "rangePageSize 0 4 ps")
    case (Inl e)
    then have "\<not> list_all pair_ok ps" using rangePageSize_Ok_iff [of 0 4 ps ?n] by simp
    then show ?thesis using Inl by simp
  next
    case (Inr sz)
    then have "list_all pair_ok ps" "sz = ?n" using rangePageSize_Ok_iff [of 0 4 ps sz] by simp_all
    then show ?thesis using Inr by auto
  qed
  have small: "\<not> length ps \<ge> unat RangeEndSentinel" if "list_all pair_ok ps" "?n < MaxFramePayload"
    using that(2) pairs_min_size [OF that(1)] by (simp add: sentinel wire_limits)
  let ?b = "BE_PutUint32 (word_of_nat (length ps)) @ concat (map pair_bytes ps)"
  have "EncodeRangePage ps = Ok b \<longleftrightarrow> list_all pair_ok ps \<and> ?n < MaxFramePayload \<and> ?b = b"
  proof (cases "length ps \<ge> unat RangeEndSentinel")
    case True
    then have "EncodeRangePage ps \<noteq> Ok b" by (simp add: EncodeRangePage_def)
    with small True show ?thesis by blast
  next
    case False
    then show ?thesis unfolding EncodeRangePage_def c [symmetric] by simp
  qed
  also have "?n = length ?b" by simp
  finally show ?thesis by metis
qed

text \<open>A page and the end marker are read back as themselves; a page never looks like the end.\<close>

lemma DecodeRangeFrame_page:
  assumes "EncodeRangePage ps = Ok b"
  shows "DecodeRangeFrame b = Ok (Some ps)"
proof -
  have e: "list_all pair_ok ps" "length b < MaxFramePayload" and b: "b = BE_PutUint32 (word_of_nat (length ps)) @ concat (map pair_bytes ps)"
    using assms unfolding EncodeRangePage_Ok_iff by blast+
  have l: "length ps < 2 ^ 32 - 1"
    using e(2) pairs_min_size [OF e(1)] by (simp add: b wire_limits)
  then have c: "BE_Uint32 (slice 0 4 b) = word_of_nat (length ps)" "unat (word_of_nat (length ps) :: u32) = length ps"
    by (simp_all add: b be32.get_first unat_word_of_nat_u32)
  have ns: "(word_of_nat (length ps) :: u32) \<noteq> RangeEndSentinel" using c(2) l sentinel by auto
  have d: "drop 4 b = concat (map pair_bytes ps)" "\<not> length b < 4" by (simp_all add: b be32.drop_put)
  show ?thesis
    using pairs.loop_whole [OF e(1), of 0] pairs_min_size [OF e(1)] ns
    unfolding DecodeRangeFrame_def Let_def c d(1) using d(2) by simp
qed

lemma DecodeRangeFrame_end: "DecodeRangeFrame EncodeRangeEnd = Ok None"
  by (simp add: DecodeRangeFrame_def EncodeRangeEnd_def Let_def slice_full)

lemma DecodeRangeFrame_Ok:
  assumes "DecodeRangeFrame b = Ok x" "length b < MaxFramePayload"
  shows "case x of None \<Rightarrow> b = EncodeRangeEnd | Some ps \<Rightarrow> EncodeRangePage ps = Ok b"
proof -
  have l4: "4 \<le> length b" using assms(1) by (auto simp: DecodeRangeFrame_def split: if_splits)
  let ?c = "BE_Uint32 (slice 0 4 b)"
  have hd: "BE_PutUint32 ?c = take 4 b" by (rule u32_field [OF l4])
  show ?thesis
  proof (cases x)
    case None
    then have "?c = RangeEndSentinel" "length b = 4"
      using assms(1) by (auto simp: DecodeRangeFrame_def Let_def split: if_splits sum.splits prod.splits)
    then show ?thesis using hd None by (simp add: EncodeRangeEnd_def)
  next
    case (Some ps)
    then have "decodePairs (unat ?c) 0 (drop 4 b) 0 = Ok (ps, length (drop 4 b))"
      using assms(1) by (auto simp: DecodeRangeFrame_def Let_def split: if_splits sum.splits prod.splits)
    from pairs.loop_Ok [OF this] have p: "length ps = unat ?c" "list_all pair_ok ps" "drop 4 b = concat (map pair_bytes ps)"
      by (simp_all add: slice_def)
    have "word_of_nat (length ps) = ?c" using p(1) by simp
    then have "b = BE_PutUint32 (word_of_nat (length ps)) @ concat (map pair_bytes ps)"
      using hd p(3) by (metis append_take_drop_id)
    then show ?thesis using Some p(2) assms(2) by (simp add: EncodeRangePage_Ok_iff)
  qed
qed

interpretation range_frame: body_codec "\<lambda>x. case x of None \<Rightarrow> Ok EncodeRangeEnd | Some ps \<Rightarrow> EncodeRangePage ps"
  DecodeRangeFrame "\<lambda>_. True"
proof unfold_locales
  show "DecodeRangeFrame b = Ok x" if "(case x of None \<Rightarrow> Ok EncodeRangeEnd | Some ps \<Rightarrow> EncodeRangePage ps) = Ok b" for x b
    using that DecodeRangeFrame_page DecodeRangeFrame_end by (auto split: option.splits)
  show "(case x of None \<Rightarrow> Ok EncodeRangeEnd | Some ps \<Rightarrow> EncodeRangePage ps) = Ok b \<and> True"
    if "DecodeRangeFrame b = Ok x" "length b < MaxFramePayload" for b x
    using DecodeRangeFrame_Ok [OF that] by (auto split: option.splits)
qed

section \<open>Streams\<close>

lemma stream_page:
  assumes "EncodeRangePage ps = Ok b" "EncodeFrame StatusOK b = Ok f"
  shows "ReadRangeStream fn (f @ rest) s =
    (case fn ps s of (go, s') \<Rightarrow> if go then ReadRangeStream fn rest s' else (Err ErrStreamStopped, s', rest))"
  by (subst ReadRangeStream.simps)
    (simp add: ReadFrame_EncodeFrame [OF assms(2)] DecodeRangeFrame_page [OF assms(1)])

lemma stream_end:
  assumes "EncodeFrame StatusOK EncodeRangeEnd = Ok f"
  shows "ReadRangeStream fn (f @ rest) s = (Ok (), s, rest)"
  by (subst ReadRangeStream.simps) (simp add: ReadFrame_EncodeFrame [OF assms] DecodeRangeFrame_end)

lemma stream_error:
  assumes "EncodeFrame st (EncodeError msg) = Ok f" "st \<noteq> StatusOK"
  shows "ReadRangeStream fn (f @ rest) s = (Err (RemoteError st (take MaxErrMsgLen msg)), s, rest)"
proof -
  have "DecodeError (EncodeError msg) = Ok (take MaxErrMsgLen msg)"
    by (subst EncodeError_long) (rule error.dec_enc [OF refl], simp)
  then show ?thesis
    using assms(2) by (subst ReadRangeStream.simps) (simp add: ReadFrame_EncodeFrame [OF assms(1)])
qed

text \<open>The frames of a list of pages, and a callback that collects the pairs.\<close>

definition page_frames :: "KV list list \<Rightarrow> bytes \<Rightarrow> bool" where
  "page_frames pages out \<longleftrightarrow>
     (\<exists>fs. list_all2 (\<lambda>ps f. \<exists>b. EncodeRangePage ps = Ok b \<and> EncodeFrame StatusOK b = Ok f) pages fs \<and> out = concat fs)"

abbreviation collect :: "KV list \<Rightarrow> KV list \<Rightarrow> bool \<times> KV list" where
  "collect ps acc \<equiv> (True, acc @ ps)"

lemma page_frames_Nil [simp]: "page_frames [] out \<longleftrightarrow> out = []"
  by (auto simp: page_frames_def)

lemma page_frames_snoc:
  assumes "page_frames pages out" "EncodeRangePage ps = Ok b" "EncodeFrame StatusOK b = Ok f"
  shows "page_frames (pages @ [ps]) (out @ f)"
proof -
  obtain fs where "list_all2 (\<lambda>ps f. \<exists>b. EncodeRangePage ps = Ok b \<and> EncodeFrame StatusOK b = Ok f) pages fs" "out = concat fs"
    using assms(1) by (auto simp: page_frames_def)
  with assms(2,3) show ?thesis
    unfolding page_frames_def by (intro exI [of _ "fs @ [f]"]) (simp add: list_all2_appendI)
qed

lemma stream_pages:
  assumes "page_frames pages out" "\<And>ps a. P a \<Longrightarrow> fn ps a = (True, h ps a) \<and> P (h ps a)" "P acc"
  shows "ReadRangeStream fn (out @ rest) acc = ReadRangeStream fn rest (fold h pages acc) \<and> P (fold h pages acc)"
proof -
  obtain fs where "list_all2 (\<lambda>ps f. \<exists>b. EncodeRangePage ps = Ok b \<and> EncodeFrame StatusOK b = Ok f) pages fs" "out = concat fs"
    using assms(1) by (auto simp: page_frames_def)
  then show ?thesis using assms(3)
  proof (induction pages arbitrary: fs out acc)
    case (Cons ps pages)
    then obtain b f fs' where f: "fs = f # fs'" "EncodeRangePage ps = Ok b" "EncodeFrame StatusOK b = Ok f"
      "list_all2 (\<lambda>ps f. \<exists>b. EncodeRangePage ps = Ok b \<and> EncodeFrame StatusOK b = Ok f) pages fs'"
      by (auto simp: list_all2_Cons1)
    note h = assms(2) [OF Cons.prems(3), of ps]
    from Cons.IH [OF f(4) refl] h show ?case
      using Cons.prems(2) f(1) stream_page [OF f(2,3), of fn "concat fs' @ rest" acc] by simp
  qed simp
qed

end
