(* ===== verification/Server.thy ===== *)
theory Server
  imports Store Wire_Request Wire_Response
begin

text \<open>
  The TCP front end, \<open>internal/server/server.go\<close>: request dispatch, error classification, the
  streaming range response and the connection loop. A connection is its unread input and
  what has been written so far; the \<open>n\<close>-th frame written fails as \<open>c_fault c n\<close> says.
  Texts the code takes from \<open>Error()\<close> are the parameter \<open>texts\<close>. The accept loop and shutdown,
  where several connections interleave, are in theory \<open>Server_Lifecycle\<close>.
\<close>

section \<open>State\<close>

record server_options =
  so_Addr :: string
  so_ReadDeadline :: int
  so_WriteDeadline :: int
  so_MaxConcurrentRangeStreams :: int
  so_MaxRangeResponseBytes :: int

definition second :: int where "second = 1000000000"
definition defaultReadDeadline :: int where "defaultReadDeadline = 30 * second"
definition defaultWriteDeadline :: int where "defaultWriteDeadline = 30 * second"
definition defaultMaxConcurrentRangeStreams :: int where "defaultMaxConcurrentRangeStreams = 4"
definition defaultMaxRangeResponseBytes :: int where "defaultMaxRangeResponseBytes = 64 * 1024 * 1024"
definition rangePageFlushBytes :: nat where "rangePageFlushBytes = 256 * 1024"

record server =
  sv_opts :: server_options
  sv_db :: db
  sv_rangeSem :: nat

definition New :: "db \<Rightarrow> server_options \<Rightarrow> server" where
  "New db opts =
     (let o1 = (if so_ReadDeadline opts \<le> 0 then opts\<lparr>so_ReadDeadline := defaultReadDeadline\<rparr> else opts);
          o2 = (if so_WriteDeadline o1 \<le> 0 then o1\<lparr>so_WriteDeadline := defaultWriteDeadline\<rparr> else o1);
          o3 = (if so_MaxConcurrentRangeStreams o2 \<le> 0
                then o2\<lparr>so_MaxConcurrentRangeStreams := defaultMaxConcurrentRangeStreams\<rparr> else o2);
          o4 = (if so_MaxRangeResponseBytes o3 \<le> 0
                then o3\<lparr>so_MaxRangeResponseBytes := defaultMaxRangeResponseBytes\<rparr> else o3) in
      \<lparr>sv_opts = o4, sv_db = db, sv_rangeSem = 0\<rparr>)"

record frame_fault =
  ff_deadline :: bool
  ff_write :: "nat \<Rightarrow> nat option"

record conn =
  c_out :: bytes
  c_writes :: nat
  c_fault :: "nat \<Rightarrow> frame_fault"

text \<open>The texts of errors: \<open>err.Error()\<close> of the engine and the codec, \<open>pe.Reason\<close>.\<close>

record texts =
  tx_engine :: "engine_error \<Rightarrow> bytes"
  tx_wire :: "wire_error \<Rightarrow> bytes"
  tx_protocol :: "protocol_reason \<Rightarrow> bytes"

definition ascii :: "string \<Rightarrow> bytes" where
  "ascii s = map of_char s"

section \<open>Writing\<close>

definition conn_frame :: "(wire_error + unit) \<times> bytes \<Rightarrow> conn \<Rightarrow> (wire_error + unit) \<times> conn" where
  "conn_frame w c = (case w of (r, out) \<Rightarrow> (r, c\<lparr>c_out := c_out c @ out, c_writes := Suc (c_writes c)\<rparr>))"

definition writeFrame :: "byte \<Rightarrow> bytes \<Rightarrow> conn \<Rightarrow> (wire_error + unit) \<times> conn" where
  "writeFrame tag body c =
     (if ff_deadline (c_fault c (c_writes c)) then (Err WireIO, c)
      else conn_frame (WriteFrame (ff_write (c_fault c (c_writes c))) tag body) c)"

definition writeError :: "Status \<Rightarrow> bytes \<Rightarrow> conn \<Rightarrow> (wire_error + unit) \<times> conn" where
  "writeError status msg c =
     (if ff_deadline (c_fault c (c_writes c)) then (Err WireIO, c)
      else conn_frame (WriteError (ff_write (c_fault c (c_writes c))) status msg) c)"

text \<open>\<open>errors.Is\<close> on the engine's errors: a batch error wraps the error of its entry.\<close>

fun errors_Is :: "engine_error \<Rightarrow> engine_error \<Rightarrow> bool" where
  "errors_Is (ErrInvalidBatchEntry i e) target \<longleftrightarrow>
     (\<exists>j f. target = ErrInvalidBatchEntry j f) \<or> errors_Is e target"
| "errors_Is e target \<longleftrightarrow> e = target"

definition classifyEngineErr :: "texts \<Rightarrow> engine_error \<Rightarrow> Status \<times> bytes" where
  "classifyEngineErr tx err =
     (if errors_Is err ErrKeyNotFound then (StatusNotFound, [])
      else if errors_Is err ErrDBClosed then (StatusClosed, tx_engine tx err)
      else if errors_Is err ErrWritesDisabled then (StatusClosed, tx_engine tx err)
      else if errors_Is err ErrEmptyKey \<or> errors_Is err ErrKeyTooLarge \<or> errors_Is err ErrValueTooLarge \<or>
              errors_Is err ErrBatchTooLarge \<or> errors_Is err (ErrInvalidBatchEntry 0 ErrEmptyKey)
        then (StatusBadRequest, tx_engine tx err)
      else (StatusInternal, tx_engine tx err))"

definition writeEngineErr :: "texts \<Rightarrow> engine_error \<Rightarrow> conn \<Rightarrow> (Status \<times> (wire_error + unit)) \<times> conn" where
  "writeEngineErr tx err c =
     (case classifyEngineErr tx err of (status, msg) \<Rightarrow>
       (case writeError status msg c of (r, c') \<Rightarrow> ((status, r), c')))"

section \<open>Range streams\<close>

text \<open>The variables \<open>handleRange\<close> shares with its closures.\<close>

record range_state =
  rs_page :: "KV list"
  rs_pageBytes :: nat
  rs_streamedBytes :: int
  rs_writeErr :: "wire_error option"
  rs_overloaded :: bool
  rs_conn :: conn

definition flush :: "range_state \<Rightarrow> bool \<times> range_state" where
  "flush s =
     (if rs_page s = [] then (True, s)
      else (case EncodeRangePage (rs_page s) of
              Inl e \<Rightarrow> (False, s\<lparr>rs_writeErr := Some e\<rparr>)
            | Inr body \<Rightarrow>
                (case writeFrame StatusOK body (rs_conn s) of
                   (Inl e, c) \<Rightarrow> (False, s\<lparr>rs_writeErr := Some e, rs_conn := c\<rparr>)
                 | (Inr _, c) \<Rightarrow>
                     (True, s\<lparr>rs_streamedBytes := rs_streamedBytes s + int (length body), rs_page := [],
                              rs_pageBytes := 0, rs_conn := c\<rparr>))))"

definition rangeCallback :: "int \<Rightarrow> bytes \<Rightarrow> bytes \<Rightarrow> range_state \<Rightarrow> bool \<times> range_state" where
  "rangeCallback cap k v s =
     (let entryBytes = 4 + length k + 4 + length v;
          projected = rs_streamedBytes s + int (rs_pageBytes s) + 4 + int entryBytes in
      if projected > cap then (False, s\<lparr>rs_overloaded := True\<rparr>)
      else
        let s1 = s\<lparr>rs_page := rs_page s @ [\<lparr>kv_Key = k, kv_Value = v\<rparr>], rs_pageBytes := rs_pageBytes s + entryBytes\<rparr> in
        if rs_pageBytes s1 \<ge> rangePageFlushBytes then flush s1 else (True, s1))"

text \<open>What follows the scan: the order of the error handling matters.\<close>

definition finishRange ::
  "texts \<Rightarrow> engine_error + unit \<Rightarrow> range_state \<Rightarrow> (Status \<times> (wire_error + unit)) \<times> conn" where
  "finishRange tx scanErr s =
     (case rs_writeErr s of
        Some e \<Rightarrow> ((StatusInternal, Err e), rs_conn s)
      | None \<Rightarrow>
          (case scanErr of
             Inl e \<Rightarrow>
               if \<not> rs_overloaded s then writeEngineErr tx e (rs_conn s)
               else (case flush s of (ok, s1) \<Rightarrow>
                 if \<not> ok then ((StatusInternal, Err (the (rs_writeErr s1))), rs_conn s1)
                 else (case writeError StatusOverload (ascii ''range response exceeds byte cap'') (rs_conn s1) of
                         (r, c) \<Rightarrow> ((StatusOverload, r), c)))
           | Inr _ \<Rightarrow>
               (case flush s of (ok, s1) \<Rightarrow>
                 if \<not> ok then ((StatusInternal, Err (the (rs_writeErr s1))), rs_conn s1)
                 else if rs_overloaded s
                 then (case writeError StatusOverload (ascii ''range response exceeds byte cap'') (rs_conn s1) of
                         (r, c) \<Rightarrow> ((StatusOverload, r), c))
                 else (case writeFrame StatusOK EncodeRangeEnd (rs_conn s1) of (r, c) \<Rightarrow> ((StatusOK, r), c)))))"

definition handleRange ::
  "texts \<Rightarrow> (u32 \<Rightarrow> int \<Rightarrow> bool) \<Rightarrow> bytes option \<Rightarrow> bytes option \<Rightarrow> server \<Rightarrow> conn \<Rightarrow>
   (Status \<times> (wire_error + unit)) \<times> server \<times> conn" where
  "handleRange tx rf start stop sv c =
     (if int (sv_rangeSem sv) < so_MaxConcurrentRangeStreams (sv_opts sv) then
        let sv1 = sv\<lparr>sv_rangeSem := Suc (sv_rangeSem sv)\<rparr>;
            s0 = \<lparr>rs_page = [], rs_pageBytes = 0, rs_streamedBytes = 0, rs_writeErr = None, rs_overloaded = False, rs_conn = c\<rparr>;
            (scanErr, s) = ReadKeyRange rf start stop (Some (rangeCallback (so_MaxRangeResponseBytes (sv_opts sv)))) (sv_db sv) s0;
            (res, c') = finishRange tx scanErr s in
        (res, sv1\<lparr>sv_rangeSem := sv_rangeSem sv1 - 1\<rparr>, c')
      else
        (case writeError StatusOverload (ascii ''concurrent range stream limit reached'') c of
           (r, c') \<Rightarrow> ((StatusOverload, r), sv, c')))"

section \<open>Dispatch\<close>

record dispatch_env =
  de_submit :: submit_env
  de_read :: "u32 \<Rightarrow> int \<Rightarrow> bool"

definition engine_entry :: "wire_entry \<Rightarrow> batch_entry" where
  "engine_entry e = \<lparr>be_key = wb_Key e, be_value = wb_Value e, be_delete = wb_Delete e\<rparr>"

definition reply :: "texts \<Rightarrow> engine_error + bytes \<Rightarrow> server \<Rightarrow> conn \<Rightarrow> (Status \<times> (wire_error + unit)) \<times> server \<times> conn" where
  "reply tx r sv c =
     (case r of
        Inl e \<Rightarrow> (case writeEngineErr tx e c of (x, c') \<Rightarrow> (x, sv, c'))
      | Inr body \<Rightarrow> (case writeFrame StatusOK body c of (w, c') \<Rightarrow> ((StatusOK, w), sv, c')))"

fun dispatchOnce ::
  "texts \<Rightarrow> dispatch_env \<Rightarrow> request \<Rightarrow> server \<Rightarrow> conn \<Rightarrow> (Status \<times> (wire_error + unit)) \<times> server \<times> conn" where
  "dispatchOnce tx env (PutRequest k v) sv c =
     (case Put (de_submit env) k v (sv_db sv) of
        (r, db) \<Rightarrow> reply tx (map_sum id (\<lambda>_. []) r) (sv\<lparr>sv_db := db\<rparr>) c)"
| "dispatchOnce tx env (GetRequest k) sv c =
     (case Get (de_read env) k (sv_db sv) of
        Inl e \<Rightarrow>
          if errors_Is e ErrKeyNotFound
          then (case writeError StatusNotFound [] c of (w, c') \<Rightarrow> ((StatusNotFound, w), sv, c'))
          else (case writeEngineErr tx e c of (x, c') \<Rightarrow> (x, sv, c'))
      | Inr val \<Rightarrow>
          (case EncodeGetOK val of
             Inl e \<Rightarrow> (case writeError StatusInternal (tx_wire tx e) c of (w, c') \<Rightarrow> ((StatusInternal, w), sv, c'))
           | Inr body \<Rightarrow> (case writeFrame StatusOK body c of (w, c') \<Rightarrow> ((StatusOK, w), sv, c'))))"
| "dispatchOnce tx env (DeleteRequest k) sv c =
     (case Delete (de_submit env) k (sv_db sv) of
        (r, db) \<Rightarrow> reply tx (map_sum id (\<lambda>_. []) r) (sv\<lparr>sv_db := db\<rparr>) c)"
| "dispatchOnce tx env (BatchRequest es) sv c =
     (case BatchPut (de_submit env) (map engine_entry es) (sv_db sv) of
        (r, db) \<Rightarrow> reply tx (map_sum id (\<lambda>_. []) r) (sv\<lparr>sv_db := db\<rparr>) c)"
| "dispatchOnce tx env PingRequest sv c = reply tx (Ok []) sv c"
| "dispatchOnce tx env StatsRequest sv c =
     (let st = Stats (sv_db sv) in reply tx (Ok (EncodeStatsOK (st_KeyCount st) (st_BytesOnDisk st))) sv c)"
| "dispatchOnce tx env (ReadKeyRangeRequest start stop) sv c = handleRange tx (de_read env) start stop sv c"

definition dispatch :: "texts \<Rightarrow> dispatch_env \<Rightarrow> request \<Rightarrow> server \<Rightarrow> conn \<Rightarrow> (wire_error + unit) \<times> server \<times> conn" where
  "dispatch tx env req sv c = (case dispatchOnce tx env req sv c of ((status, err), sv', c') \<Rightarrow> (err, sv', c'))"

text \<open>What \<open>dispatch\<close> logs of a request: operation, key length, value length, entries.\<close>

fun reqMeta :: "request \<Rightarrow> string \<times> nat \<times> nat \<times> nat" where
  "reqMeta (PutRequest k v) = (''put'', length k, length v, 0)"
| "reqMeta (GetRequest k) = (''get'', length k, 0, 0)"
| "reqMeta (DeleteRequest k) = (''delete'', length k, 0, 0)"
| "reqMeta (BatchRequest es) = (''batch'', 0, 0, length es)"
| "reqMeta PingRequest = (''ping'', 0, 0, 0)"
| "reqMeta StatsRequest = (''stats'', 0, 0, 0)"
| "reqMeta (ReadKeyRangeRequest s e) = (''range'', length (slice_of s) + length (slice_of e), 0, 0)"

section \<open>The connection loop\<close>

text \<open>What turn \<open>i\<close> of the loop meets: the drain flag, a failed deadline or read, the engine's environment.\<close>

record turn_env =
  te_draining :: bool
  te_readFails :: bool
  te_dispatch :: dispatch_env

lemma ReadRequest_shrinks:
  "(Ok req, rest) = ReadRequest input \<Longrightarrow> length rest < length input"
  "(Err (ProtocolError x), rest) = ReadRequest input \<Longrightarrow> length rest < length input"
proof -
  have "length rest < length input" if "ReadRequest input = (r, rest)" "ReadFrame input = Ok (tag, body, rest)" for r tag body
    using ReadFrame_shrinks [OF that(2)] by simp
  moreover have "ReadFrame input \<noteq> Err (ProtocolError x)"
    by (auto simp: ReadFrame_def wireReadFull_def Let_def split: sum.splits prod.splits if_splits)
  ultimately show "(Ok req, rest) = ReadRequest input \<Longrightarrow> length rest < length input"
    "(Err (ProtocolError x), rest) = ReadRequest input \<Longrightarrow> length rest < length input"
    by (auto simp: ReadRequest_def split: sum.splits prod.splits)
qed

function handleConn :: "texts \<Rightarrow> (nat \<Rightarrow> turn_env) \<Rightarrow> nat \<Rightarrow> bytes \<Rightarrow> server \<Rightarrow> conn \<Rightarrow> server \<times> conn" where
  "handleConn tx env i input sv c =
     (if te_draining (env i) then (sv, snd (writeError StatusClosed (ascii ''server shutting down'') c))
      else if te_readFails (env i) then (sv, c)
      else (case ReadRequest input of
        (Inr req, rest) \<Rightarrow>
          (case dispatch tx (te_dispatch (env i)) req sv c of
             (Inl _, sv', c') \<Rightarrow> (sv', c')
           | (Inr _, sv', c') \<Rightarrow> handleConn tx env (Suc i) rest sv' c')
      | (Inl (ProtocolError reason), rest) \<Rightarrow>
          (case conn_frame (WriteError (ff_write (c_fault c (c_writes c))) StatusBadRequest (tx_protocol tx reason)) c of
             (Inl _, c') \<Rightarrow> (sv, c')
           | (Inr _, c') \<Rightarrow> handleConn tx env (Suc i) rest sv c')
      | (Inl _, rest) \<Rightarrow> (sv, c)))"
  by pat_completeness auto
termination
  by (relation "measure (\<lambda>(tx, env, i, input, sv, c). length input)") (auto dest: ReadRequest_shrinks)

declare handleConn.simps [simp del]

section \<open>What the connection carries\<close>

lemma conn_frame_simps [simp]:
  "fst (conn_frame w c) = fst w" "c_out (snd (conn_frame w c)) = c_out c @ snd w" "c_fault (snd (conn_frame w c)) = c_fault c"
  by (simp_all add: conn_frame_def split: prod.split)

lemma writeFrame_Ok:
  assumes "writeFrame tag body c = (Ok u, c')"
  shows "\<exists>f. EncodeFrame tag body = Ok f \<and> c_out c' = c_out c @ f" "c_fault c' = c_fault c"
  using assms WriteFrame_Ok
  by (fastforce simp: writeFrame_def conn_frame_def split: if_splits prod.splits)+

lemma writeFrame_Err:
  assumes "writeFrame tag body c = (Err e, c')" "length body < MaxFramePayload"
  shows "e = WireIO"
  using assms
  by (auto simp: writeFrame_def conn_frame_def WriteFrame_def conn_write_def Let_def split: if_splits prod.splits option.splits)

text \<open>A connection on which nothing fails.\<close>

definition clean :: "conn \<Rightarrow> bool" where
  "clean c \<longleftrightarrow> c_fault c = (\<lambda>_. \<lparr>ff_deadline = False, ff_write = \<lambda>_. None\<rparr>)"

lemma writeFrame_clean:
  assumes "clean c" "length body < MaxFramePayload"
  shows "\<exists>f c'. writeFrame tag body c = (Ok (), c') \<and> EncodeFrame tag body = Ok f \<and> c_out c' = c_out c @ f \<and> clean c'"
  using assms WriteFrame_total [OF assms(2), of tag]
  by (auto simp: writeFrame_def clean_def conn_frame_def EncodeFrame_Ok_iff)

lemma writeError_clean:
  assumes "clean c" "st \<noteq> StatusOK"
  shows "\<exists>f c'. writeError st msg c = (Ok (), c') \<and> EncodeFrame st (EncodeError msg) = Ok f \<and> c_out c' = c_out c @ f \<and> clean c'"
  using assms WriteFrame_total [OF EncodeError_fits, of st msg] EncodeError_fits [of msg]
  by (auto simp: writeError_def WriteError_def clean_def conn_frame_def EncodeFrame_Ok_iff)

section \<open>The range response\<close>

abbreviation to_kv :: "bytes \<times> bytes \<Rightarrow> KV" where
  "to_kv kv \<equiv> \<lparr>kv_Key = fst kv, kv_Value = snd kv\<rparr>"

definition pairs_size :: "KV list \<Rightarrow> nat" where
  "pairs_size ps = length (concat (map pair_bytes ps))"

definition stream_size :: "KV list list \<Rightarrow> nat" where
  "stream_size pages = sum_list (map (\<lambda>ps. 4 + pairs_size ps) pages)"

lemma pairs_size_simps [simp]:
  "pairs_size [] = 0" "pairs_size (ps @ qs) = pairs_size ps + pairs_size qs"
  "pairs_size (p # ps) = 8 + length (kv_Key p) + length (kv_Value p) + pairs_size ps"
  by (simp_all add: pairs_size_def)

lemma stream_size_simps [simp]: "stream_size [] = 0" "stream_size (pages @ [ps]) = stream_size pages + (4 + pairs_size ps)"
  by (simp_all add: stream_size_def)

text \<open>
  While no write has failed: the pages written so far and the page being filled are exactly
  the pairs \<open>kvs\<close> accepted so far, and with the next page header they fit under the cap.
\<close>

definition range_inv :: "int \<Rightarrow> nat \<Rightarrow> bytes \<Rightarrow> KV list \<Rightarrow> range_state \<Rightarrow> bool" where
  "range_inv cap fill pre kvs s \<longleftrightarrow> rs_writeErr s = None \<and>
     (\<exists>pages out. c_out (rs_conn s) = pre @ out \<and> page_frames pages out \<and> [] \<notin> set pages \<and> concat pages @ rs_page s = kvs \<and>
        rs_streamedBytes s = int (stream_size pages) \<and>
        int (stream_size pages) + (if rs_page s = [] then 0 else 4 + int (pairs_size (rs_page s))) \<le> max 0 cap) \<and>
     list_all pair_ok (rs_page s) \<and> rs_pageBytes s = pairs_size (rs_page s) \<and> rs_pageBytes s < fill"

definition pageLimit :: nat where "pageLimit = rangePageFlushBytes + (8 + MaxKeyLen + MaxValLen)"

lemma EncodeRangePage_fits:
  assumes "list_all pair_ok ps" "pairs_size ps < pageLimit"
  shows "\<exists>b. EncodeRangePage ps = Ok b \<and> length b = 4 + pairs_size ps \<and> length b < MaxFramePayload"
  using assms by (simp add: EncodeRangePage_Ok_iff pairs_size_def pageLimit_def rangePageFlushBytes_def wire_limits)

lemma flush_inv:
  assumes "range_inv cap pageLimit pre kvs s" "flush s = (ok, s')"
  shows "if ok then range_inv cap rangePageFlushBytes pre kvs s' \<and> rs_page s' = [] else rs_writeErr s' = Some WireIO"
    "c_fault (rs_conn s') = c_fault (rs_conn s) \<or> \<not> ok" "rs_overloaded s' = rs_overloaded s" "clean (rs_conn s) \<Longrightarrow> ok"
proof -
  obtain pages out where p: "c_out (rs_conn s) = pre @ out" "page_frames pages out" "concat pages @ rs_page s = kvs"
    "rs_streamedBytes s = int (stream_size pages)"
    "int (stream_size pages) + (if rs_page s = [] then 0 else 4 + int (pairs_size (rs_page s))) \<le> max 0 cap" "[] \<notin> set pages"
    using assms(1) unfolding range_inv_def by blast
  have q: "rs_writeErr s = None" "list_all pair_ok (rs_page s)" "rs_pageBytes s = pairs_size (rs_page s)" "pairs_size (rs_page s) < pageLimit"
    using assms(1) by (auto simp: range_inv_def)
  obtain b where b: "EncodeRangePage (rs_page s) = Ok b" "length b = 4 + pairs_size (rs_page s)" "length b < MaxFramePayload"
    using EncodeRangePage_fits [OF q(2,4)] by blast
  have "(if ok then range_inv cap rangePageFlushBytes pre kvs s' \<and> rs_page s' = [] else rs_writeErr s' = Some WireIO) \<and>
    (c_fault (rs_conn s') = c_fault (rs_conn s) \<or> \<not> ok) \<and> rs_overloaded s' = rs_overloaded s \<and> (clean (rs_conn s) \<longrightarrow> ok)"
  proof (cases "rs_page s = []")
    case True
    then show ?thesis using assms(2) p q by (auto simp: flush_def range_inv_def rangePageFlushBytes_def)
  next
    case False
    obtain r c where w: "writeFrame StatusOK b (rs_conn s) = (r, c)" by (metis surj_pair)
    show ?thesis
    proof (cases r)
      case (Inl e)
      have "\<not> clean (rs_conn s)" using writeFrame_clean [OF _ b(3), of "rs_conn s" StatusOK] w Inl by auto
      then show ?thesis using Inl assms(2) w b False writeFrame_Err [of StatusOK b "rs_conn s" e c] by (auto simp: flush_def)
    next
      case (Inr u)
      then obtain f where f: "EncodeFrame StatusOK b = Ok f" "c_out c = c_out (rs_conn s) @ f" "c_fault c = c_fault (rs_conn s)"
        using writeFrame_Ok [of StatusOK b "rs_conn s" u c] w by auto
      have s': "ok" "s' = s\<lparr>rs_streamedBytes := rs_streamedBytes s + int (length b), rs_page := [], rs_pageBytes := 0, rs_conn := c\<rparr>"
        using assms(2) w Inr b(1) False by (auto simp: flush_def)
      have "page_frames (pages @ [rs_page s]) (out @ f)" by (rule page_frames_snoc [OF p(2) b(1) f(1)])
      then have "range_inv cap rangePageFlushBytes pre kvs s'"
        unfolding range_inv_def s'(2) using p f(2) q(1) b(2) False
        by (auto simp: rangePageFlushBytes_def intro!: exI [of _ "pages @ [rs_page s]"] exI [of _ "out @ f"])
      then show ?thesis using s' f(3) by simp
    qed
  qed
  then show "if ok then range_inv cap rangePageFlushBytes pre kvs s' \<and> rs_page s' = [] else rs_writeErr s' = Some WireIO"
    "c_fault (rs_conn s') = c_fault (rs_conn s) \<or> \<not> ok" "rs_overloaded s' = rs_overloaded s" "clean (rs_conn s) \<Longrightarrow> ok" by auto
qed

lemma flush_streamed:
  assumes "range_inv cap pageLimit pre kvs s" "flush s = (True, s')"
  shows "rs_streamedBytes s + int (rs_pageBytes s) \<le> rs_streamedBytes s'"
proof -
  have q: "list_all pair_ok (rs_page s)" "rs_pageBytes s = pairs_size (rs_page s)" "pairs_size (rs_page s) < pageLimit"
    using assms(1) by (auto simp: range_inv_def)
  obtain b where "EncodeRangePage (rs_page s) = Ok b" "length b = 4 + pairs_size (rs_page s)"
    using EncodeRangePage_fits [OF q(1,3)] by blast
  then show ?thesis using assms(2) q(2) by (auto simp: flush_def split: if_splits sum.splits prod.splits)
qed

lemma page_frames_length: "page_frames pages out \<Longrightarrow> length out = stream_size pages + 5 * length pages"
proof -
  have "list_all2 (\<lambda>ps f. \<exists>b. EncodeRangePage ps = Ok b \<and> EncodeFrame StatusOK b = Ok f) pages fs \<Longrightarrow>
      length (concat fs) = stream_size pages + 5 * length pages" for fs
    by (induction pages fs rule: list_all2_induct)
      (auto simp: EncodeRangePage_Ok_iff EncodeFrame_length stream_size_def pairs_size_def)
  then show "page_frames pages out \<Longrightarrow> length out = stream_size pages + 5 * length pages" by (auto simp: page_frames_def)
qed

text \<open>The pair does not fit: with it, and the header of its page, the response would exceed the cap.\<close>

definition exceeds :: "int \<Rightarrow> bytes \<times> bytes \<Rightarrow> int \<Rightarrow> bool" where
  "exceeds cap kv n \<longleftrightarrow> cap < n + 4 + int (8 + length (fst kv) + length (snd kv))"

lemma exceeds_mono: "exceeds cap kv n \<Longrightarrow> n \<le> n' \<Longrightarrow> exceeds cap kv n'"
  by (simp add: exceeds_def)

lemma range_inv_mono: "range_inv cap n pre kvs s \<Longrightarrow> n \<le> n' \<Longrightarrow> range_inv cap n' pre kvs s"
  by (auto simp: range_inv_def)

lemma range_inv_overloaded [simp]: "range_inv cap n pre kvs (s\<lparr>rs_overloaded := b\<rparr>) = range_inv cap n pre kvs s"
  by (simp add: range_inv_def)

lemma rangeCallback_inv:
  assumes "range_inv cap rangePageFlushBytes pre kvs s" "pair_ok (to_kv (k, v))" "\<not> rs_overloaded s" "rangeCallback cap k v s = (go, s')"
  shows "(go \<and> range_inv cap rangePageFlushBytes pre (kvs @ [to_kv (k, v)]) s' \<and> \<not> rs_overloaded s' \<and> c_fault (rs_conn s') = c_fault (rs_conn s)) \<or>
    (\<not> go \<and> rs_overloaded s' \<and> range_inv cap rangePageFlushBytes pre kvs s' \<and> rs_conn s' = rs_conn s \<and>
      exceeds cap (k, v) (rs_streamedBytes s' + int (rs_pageBytes s'))) \<or>
    (\<not> go \<and> rs_writeErr s' = Some WireIO \<and> \<not> clean (rs_conn s))"
proof -
  let ?n = "4 + length k + 4 + length v"
  let ?s1 = "s\<lparr>rs_page := rs_page s @ [to_kv (k, v)], rs_pageBytes := rs_pageBytes s + ?n\<rparr>"
  show ?thesis
  proof (cases "rs_streamedBytes s + int (rs_pageBytes s) + 4 + int ?n > cap")
    case True
    then have "go = False" "s' = s\<lparr>rs_overloaded := True\<rparr>" using assms(4) by (auto simp: rangeCallback_def Let_def)
    then show ?thesis using assms(1) True by (simp add: exceeds_def)
  next
    case False
    have e: "0 < length k" "length k \<le> MaxKeyLen" "length v \<le> MaxValLen" using assms(2) by (simp_all add: pair_ok_def)
    have inv1: "range_inv cap pageLimit pre (kvs @ [to_kv (k, v)]) ?s1"
      using assms(1,2) False e unfolding range_inv_def
      by (fastforce simp: pageLimit_def pair_ok_def)
    show ?thesis
    proof (cases "rs_pageBytes ?s1 \<ge> rangePageFlushBytes")
      case True
      then have "flush ?s1 = (go, s')" using assms(4) False by (simp add: rangeCallback_def Let_def)
      from flush_inv [OF inv1 this] show ?thesis using assms(3) by (cases go) auto
    next
      case small: False
      then have "go" "s' = ?s1" using assms(4) False by (auto simp: rangeCallback_def Let_def)
      then show ?thesis using inv1 small assms(3) by (auto simp: range_inv_def)
    qed
  qed
qed

lemma callbacks_range:
  assumes "range_inv cap rangePageFlushBytes pre kvs s" "list_all (\<lambda>kv. pair_ok (to_kv kv)) ms" "\<not> rs_overloaded s"
  shows "(rs_writeErr (callbacks (rangeCallback cap) ms s) = Some WireIO \<and> \<not> clean (rs_conn s)) \<or>
    (\<exists>n \<le> length ms. range_inv cap rangePageFlushBytes pre (kvs @ map to_kv (take n ms)) (callbacks (rangeCallback cap) ms s) \<and>
       (rs_overloaded (callbacks (rangeCallback cap) ms s) \<longleftrightarrow> n < length ms) \<and>
       (n < length ms \<longrightarrow> exceeds cap (ms ! n) (rs_streamedBytes (callbacks (rangeCallback cap) ms s) +
          int (rs_pageBytes (callbacks (rangeCallback cap) ms s)))) \<and>
       c_fault (rs_conn (callbacks (rangeCallback cap) ms s)) = c_fault (rs_conn s))"
  using assms
proof (induction ms arbitrary: kvs s)
  case Nil
  then show ?case by simp
next
  case (Cons kv ms)
  obtain k v where kv: "kv = (k, v)" by (cases kv)
  obtain go s' where p: "rangeCallback cap k v s = (go, s')" by (metis surj_pair)
  have cb: "callbacks (rangeCallback cap) (kv # ms) s = (if go then callbacks (rangeCallback cap) ms s' else s')" by (simp add: kv p)
  have ok: "pair_ok (to_kv (k, v))" "list_all (\<lambda>kv. pair_ok (to_kv kv)) ms" using Cons.prems(2) kv by auto
  consider (more) "go" "range_inv cap rangePageFlushBytes pre (kvs @ [to_kv (k, v)]) s'" "\<not> rs_overloaded s'" "c_fault (rs_conn s') = c_fault (rs_conn s)"
    | (over) "\<not> go" "rs_overloaded s'" "range_inv cap rangePageFlushBytes pre kvs s'" "rs_conn s' = rs_conn s"
        "exceeds cap (k, v) (rs_streamedBytes s' + int (rs_pageBytes s'))"
    | (fail) "\<not> go" "rs_writeErr s' = Some WireIO" "\<not> clean (rs_conn s)"
    using rangeCallback_inv [OF Cons.prems(1) ok(1) Cons.prems(3) p] by blast
  then show ?case
  proof cases
    case more
    have cl: "clean (rs_conn s') = clean (rs_conn s)" using more(4) by (simp add: clean_def)
    from Cons.IH [OF more(2) ok(2) more(3)] show ?thesis
    proof
      let ?s = "callbacks (rangeCallback cap) ms s'"
      assume "\<exists>n \<le> length ms. range_inv cap rangePageFlushBytes pre ((kvs @ [to_kv (k, v)]) @ map to_kv (take n ms)) ?s \<and>
       (rs_overloaded ?s \<longleftrightarrow> n < length ms) \<and>
       (n < length ms \<longrightarrow> exceeds cap (ms ! n) (rs_streamedBytes ?s + int (rs_pageBytes ?s))) \<and>
       c_fault (rs_conn ?s) = c_fault (rs_conn s')"
      then obtain n where "n \<le> length ms" "range_inv cap rangePageFlushBytes pre ((kvs @ [to_kv (k, v)]) @ map to_kv (take n ms)) ?s"
       "rs_overloaded ?s \<longleftrightarrow> n < length ms" "n < length ms \<longrightarrow> exceeds cap (ms ! n) (rs_streamedBytes ?s + int (rs_pageBytes ?s))"
       "c_fault (rs_conn ?s) = c_fault (rs_conn s')" by blast
      then show ?thesis unfolding cb using more(1,4) kv by (intro disjI2 exI [of _ "Suc n"]) simp
    qed (use cl cb more(1) in auto)
  next
    case over
    then show ?thesis unfolding cb by (intro disjI2 exI [of _ 0]) (simp add: kv)
  next
    case fail
    then show ?thesis unfolding cb by simp
  qed
qed

lemma range_end_fits: "length EncodeRangeEnd < MaxFramePayload"
  by (simp add: EncodeRangeEnd_def wire_limits)

text \<open>How the response ends, when the scan succeeded and nothing fails on the connection.\<close>

lemma finishRange_clean:
  assumes "range_inv cap rangePageFlushBytes pre kvs s" "clean (rs_conn s)"
  shows "\<exists>c' pages out f. finishRange tx (Ok ()) s = ((if rs_overloaded s then StatusOverload else StatusOK, Ok ()), c') \<and> clean c' \<and>
    c_out c' = pre @ out @ f \<and> page_frames pages out \<and> [] \<notin> set pages \<and> concat pages = kvs \<and> int (stream_size pages) \<le> max 0 cap \<and>
    rs_streamedBytes s + int (rs_pageBytes s) \<le> int (stream_size pages) \<and>
    (if rs_overloaded s then EncodeFrame StatusOverload (EncodeError (ascii ''range response exceeds byte cap'')) = Ok f
     else EncodeFrame StatusOK EncodeRangeEnd = Ok f)"
proof -
  have inv: "range_inv cap pageLimit pre kvs s" by (rule range_inv_mono [OF assms(1)]) (simp add: pageLimit_def)
  obtain ok s1 where fl: "flush s = (ok, s1)" by (metis surj_pair)
  note f = flush_inv [OF inv fl]
  have ok: ok using f(4) assms(2) by blast
  then have s1: "range_inv cap rangePageFlushBytes pre kvs s1" "rs_page s1 = []" "clean (rs_conn s1)"
    using f(1,2) assms(2) by (auto simp: clean_def)
  have "rs_streamedBytes s + int (rs_pageBytes s) \<le> rs_streamedBytes s1" using flush_streamed [OF inv] fl ok by simp
  then obtain pages out where p: "c_out (rs_conn s1) = pre @ out" "page_frames pages out" "concat pages = kvs" "int (stream_size pages) \<le> max 0 cap"
    "rs_streamedBytes s + int (rs_pageBytes s) \<le> int (stream_size pages)" "[] \<notin> set pages"
    using s1(1,2) by (auto simp: range_inv_def)
  have we: "rs_writeErr s = None" using assms(1) by (simp add: range_inv_def)
  show ?thesis
  proof (cases "rs_overloaded s")
    case True
    have "StatusOverload \<noteq> StatusOK" by (simp add: wire_statuses)
    then obtain g c' where "writeError StatusOverload (ascii ''range response exceeds byte cap'') (rs_conn s1) = (Ok (), c')"
      "EncodeFrame StatusOverload (EncodeError (ascii ''range response exceeds byte cap'')) = Ok g" "c_out c' = c_out (rs_conn s1) @ g" "clean c'"
      using writeError_clean [OF s1(3)] by blast
    then show ?thesis using True we fl ok p by (auto simp: finishRange_def intro!: exI [of _ pages] exI [of _ out])
  next
    case False
    obtain g c' where "writeFrame StatusOK EncodeRangeEnd (rs_conn s1) = (Ok (), c')"
      "EncodeFrame StatusOK EncodeRangeEnd = Ok g" "c_out c' = c_out (rs_conn s1) @ g" "clean c'"
      using writeFrame_clean [OF s1(3), of EncodeRangeEnd StatusOK] range_end_fits by blast
    then show ?thesis using False we fl ok p by (auto simp: finishRange_def intro!: exI [of _ pages] exI [of _ out])
  qed
qed

end
