(* ===== verification/Server_Lifecycle.thy ===== *)
theory Server_Lifecycle
  imports Server
begin

text \<open>
  The life of a server, \<open>Bind\<close>, \<open>Serve\<close>, \<open>Shutdown\<close>, \<open>untrackConn\<close> and the control flow of \<open>handleConn\<close> and \<open>handleRange\<close> in
  \<open>internal/server/server.go\<close>, as a step relation: the accept loop, one goroutine per connection and \<open>Shutdown\<close> interleave.
  A section under \<open>connsMu\<close> is one step. What a client sends and how a write ends is open; what the server does with a request is in theory \<open>Server\<close>.
\<close>

section \<open>State\<close>

text \<open>Where the goroutine of a connection is; the last three are its deferred calls.\<close>

datatype handler_phase =
    Absent
  | CheckDrain
  | ArmDeadline
  | Reading
  | Dispatching
  | Ranging
  | ClosingConn
  | Untracking
  | WgDone

datatype serve_phase = NotServing | Accepting | Accepted nat | ServeReturned bool

datatype shutdown_phase = NotCalled | DrainSet | ListenerClosed | Poked | Forced | ReturnedNil | ReturnedCtxErr

datatype lifecycle_error = ErrAlreadyBound | ErrListen | ErrServeBeforeBind | ErrShutdownTwice

record lifecycle =
  lc_bound :: bool
  lc_listening :: bool
  lc_serve :: serve_phase
  lc_draining :: bool
  lc_conns :: "nat set"
  lc_wg :: nat
  lc_phase :: "nat \<Rightarrow> handler_phase"
  lc_expired :: "nat set"
  lc_closed :: "nat set"
  lc_sem :: nat
  lc_cap :: nat
  lc_shutdown :: shutdown_phase

definition lc_init :: "nat \<Rightarrow> lifecycle" where
  "lc_init cap = \<lparr>lc_bound = False, lc_listening = False, lc_serve = NotServing, lc_draining = False, lc_conns = {}, lc_wg = 0,
     lc_phase = \<lambda>_. Absent, lc_expired = {}, lc_closed = {}, lc_sem = 0, lc_cap = cap, lc_shutdown = NotCalled\<rparr>"

section \<open>Operations\<close>

definition Bind :: "bool \<Rightarrow> lifecycle \<Rightarrow> (lifecycle_error + unit) \<times> lifecycle" where
  "Bind fails s =
     (if lc_bound s then (Err ErrAlreadyBound, s)
      else if fails then (Err ErrListen, s)
      else (Ok (), s\<lparr>lc_bound := True, lc_listening := True\<rparr>))"

definition serveStart :: "lifecycle \<Rightarrow> (lifecycle_error + unit) \<times> lifecycle" where
  "serveStart s = (if \<not> lc_bound s then (Err ErrServeBeforeBind, s) else (Ok (), s\<lparr>lc_serve := Accepting\<rparr>))"

text \<open>\<open>Accept\<close> returns a connection, or an error; \<open>ServeReturned True\<close> is the nil result.\<close>

definition acceptConn :: "nat \<Rightarrow> lifecycle \<Rightarrow> lifecycle option" where
  "acceptConn c s =
     (if lc_serve s = Accepting \<and> lc_listening s \<and> lc_phase s c = Absent
      then Some (s\<lparr>lc_serve := Accepted c, lc_expired := lc_expired s - {c}, lc_closed := lc_closed s - {c}\<rparr>) else None)"

definition acceptFail :: "lifecycle \<Rightarrow> lifecycle option" where
  "acceptFail s = (if lc_serve s = Accepting then Some (s\<lparr>lc_serve := ServeReturned (lc_draining s)\<rparr>) else None)"

text \<open>The section of the accept loop under \<open>connsMu\<close>, with the recheck of \<open>draining\<close>.\<close>

definition register :: "lifecycle \<Rightarrow> lifecycle option" where
  "register s =
     (case lc_serve s of
        Accepted c \<Rightarrow>
          if lc_draining s then Some (s\<lparr>lc_serve := ServeReturned True\<rparr>)
          else Some (s\<lparr>lc_conns := insert c (lc_conns s), lc_wg := Suc (lc_wg s), lc_phase := (lc_phase s)(c := CheckDrain), lc_serve := Accepting\<rparr>)
      | _ \<Rightarrow> None)"

text \<open>One turn of \<open>handleConn\<close>.\<close>

definition checkDrain :: "nat \<Rightarrow> lifecycle \<Rightarrow> lifecycle option" where
  "checkDrain c s =
     (if lc_phase s c = CheckDrain
      then Some (s\<lparr>lc_phase := (lc_phase s)(c := if lc_draining s then ClosingConn else ArmDeadline)\<rparr>) else None)"

definition armDeadline :: "nat \<Rightarrow> lifecycle \<Rightarrow> lifecycle option" where
  "armDeadline c s =
     (if lc_phase s c \<noteq> ArmDeadline then None
      else if c \<in> lc_closed s then Some (s\<lparr>lc_phase := (lc_phase s)(c := ClosingConn)\<rparr>)
      else Some (s\<lparr>lc_expired := lc_expired s - {c}, lc_phase := (lc_phase s)(c := Reading)\<rparr>))"

datatype read_result = ReadRequestOk | ReadProtocolError | ReadFails

definition readStep :: "nat \<Rightarrow> read_result \<Rightarrow> lifecycle \<Rightarrow> lifecycle option" where
  "readStep c r s =
     (if lc_phase s c \<noteq> Reading then None
      else if c \<in> lc_expired s \<or> c \<in> lc_closed s
      then (if r = ReadFails then Some (s\<lparr>lc_phase := (lc_phase s)(c := ClosingConn)\<rparr>) else None)
      else Some (s\<lparr>lc_phase := (lc_phase s)(c :=
        (case r of ReadRequestOk \<Rightarrow> Dispatching | ReadProtocolError \<Rightarrow> CheckDrain | ReadFails \<Rightarrow> ClosingConn))\<rparr>))"

text \<open>The end of a dispatch, with a written response or without.\<close>

definition dispatchEnd :: "nat \<Rightarrow> bool \<Rightarrow> lifecycle \<Rightarrow> lifecycle option" where
  "dispatchEnd c written s =
     (if lc_phase s c = Dispatching
      then Some (s\<lparr>lc_phase := (lc_phase s)(c := if written then CheckDrain else ClosingConn)\<rparr>) else None)"

text \<open>\<open>handleRange\<close>: the non-blocking acquire of a slot, and its release when the stream ends.\<close>

definition rangeAcquire :: "nat \<Rightarrow> lifecycle \<Rightarrow> lifecycle option" where
  "rangeAcquire c s =
     (if lc_phase s c = Dispatching \<and> lc_sem s < lc_cap s
      then Some (s\<lparr>lc_sem := Suc (lc_sem s), lc_phase := (lc_phase s)(c := Ranging)\<rparr>) else None)"

definition rangeRelease :: "nat \<Rightarrow> bool \<Rightarrow> lifecycle \<Rightarrow> lifecycle option" where
  "rangeRelease c written s =
     (if lc_phase s c = Ranging
      then Some (s\<lparr>lc_sem := lc_sem s - 1, lc_phase := (lc_phase s)(c := if written then CheckDrain else ClosingConn)\<rparr>) else None)"

text \<open>The deferred calls of a connection's goroutine, in the order they run.\<close>

definition closeConn :: "nat \<Rightarrow> lifecycle \<Rightarrow> lifecycle option" where
  "closeConn c s =
     (if lc_phase s c = ClosingConn
      then Some (s\<lparr>lc_closed := insert c (lc_closed s), lc_phase := (lc_phase s)(c := Untracking)\<rparr>) else None)"

definition untrackConn :: "nat \<Rightarrow> lifecycle \<Rightarrow> lifecycle option" where
  "untrackConn c s =
     (if lc_phase s c = Untracking
      then Some (s\<lparr>lc_conns := lc_conns s - {c}, lc_phase := (lc_phase s)(c := WgDone)\<rparr>) else None)"

definition wgDone :: "nat \<Rightarrow> lifecycle \<Rightarrow> lifecycle option" where
  "wgDone c s =
     (if lc_phase s c = WgDone
      then Some (s\<lparr>lc_wg := lc_wg s - 1, lc_phase := (lc_phase s)(c := Absent)\<rparr>) else None)"

text \<open>\<open>Shutdown\<close>, step by step.\<close>

definition shutdownBegin :: "lifecycle \<Rightarrow> (lifecycle_error + unit) \<times> lifecycle" where
  "shutdownBegin s =
     (if lc_draining s then (Err ErrShutdownTwice, s)
      else (Ok (), s\<lparr>lc_draining := True, lc_shutdown := DrainSet\<rparr>))"

definition closeListener :: "lifecycle \<Rightarrow> lifecycle option" where
  "closeListener s =
     (if lc_shutdown s = DrainSet then Some (s\<lparr>lc_listening := False, lc_shutdown := ListenerClosed\<rparr>) else None)"

definition pokeConns :: "lifecycle \<Rightarrow> lifecycle option" where
  "pokeConns s =
     (if lc_shutdown s = ListenerClosed then Some (s\<lparr>lc_expired := lc_expired s \<union> lc_conns s, lc_shutdown := Poked\<rparr>) else None)"

definition forceClose :: "lifecycle \<Rightarrow> lifecycle option" where
  "forceClose s =
     (if lc_shutdown s = Poked then Some (s\<lparr>lc_closed := lc_closed s \<union> lc_conns s, lc_shutdown := Forced\<rparr>) else None)"

definition shutdownReturn :: "lifecycle \<Rightarrow> lifecycle option" where
  "shutdownReturn s =
     (if lc_wg s \<noteq> 0 then None
      else (case lc_shutdown s of
              Poked \<Rightarrow> Some (s\<lparr>lc_shutdown := ReturnedNil\<rparr>)
            | Forced \<Rightarrow> Some (s\<lparr>lc_shutdown := ReturnedCtxErr\<rparr>)
            | _ \<Rightarrow> None))"

section \<open>Steps\<close>

text \<open>Steps the server makes by itself; a read that neither expires nor fails waits for the client.\<close>

inductive runs :: "lifecycle \<Rightarrow> lifecycle \<Rightarrow> bool" where
  register: "register s = Some s' \<Longrightarrow> runs s s'"
| closed_accept: "\<not> lc_listening s \<Longrightarrow> acceptFail s = Some s' \<Longrightarrow> runs s s'"
| check: "checkDrain c s = Some s' \<Longrightarrow> runs s s'"
| arm: "armDeadline c s = Some s' \<Longrightarrow> runs s s'"
| read_dead: "c \<in> lc_expired s \<or> c \<in> lc_closed s \<Longrightarrow> readStep c r s = Some s' \<Longrightarrow> runs s s'"
| dispatch: "dispatchEnd c w s = Some s' \<Longrightarrow> runs s s'"
| acquire: "rangeAcquire c s = Some s' \<Longrightarrow> runs s s'"
| release: "rangeRelease c w s = Some s' \<Longrightarrow> runs s s'"
| conn_close: "closeConn c s = Some s' \<Longrightarrow> runs s s'"
| untrack: "untrackConn c s = Some s' \<Longrightarrow> runs s s'"
| wg_done: "wgDone c s = Some s' \<Longrightarrow> runs s s'"
| listener: "closeListener s = Some s' \<Longrightarrow> runs s s'"
| poke: "pokeConns s = Some s' \<Longrightarrow> runs s s'"
| return: "shutdownReturn s = Some s' \<Longrightarrow> runs s s'"

text \<open>All steps: those, the caller's, the clients', the operating system's, and the end of the context.\<close>

inductive lc_step :: "lifecycle \<Rightarrow> lifecycle \<Rightarrow> bool" where
  bind: "Bind b s = (r, s') \<Longrightarrow> lc_step s s'"
| serve: "lc_serve s = NotServing \<Longrightarrow> serveStart s = (r, s') \<Longrightarrow> lc_step s s'"
| accept: "acceptConn c s = Some s' \<Longrightarrow> lc_step s s'"
| accept_fail: "acceptFail s = Some s' \<Longrightarrow> lc_step s s'"
| read: "readStep c r s = Some s' \<Longrightarrow> lc_step s s'"
| shutdown: "shutdownBegin s = (r, s') \<Longrightarrow> lc_step s s'"
| force: "forceClose s = Some s' \<Longrightarrow> lc_step s s'"
| runs: "runs s s' \<Longrightarrow> lc_step s s'"

text \<open>A schedule, for executions on concrete inputs.\<close>

fun lc_trace :: "(lifecycle \<Rightarrow> lifecycle option) list \<Rightarrow> lifecycle \<Rightarrow> lifecycle option" where
  "lc_trace [] s = Some s"
| "lc_trace (f # fs) s = (case f s of None \<Rightarrow> None | Some s' \<Rightarrow> lc_trace fs s')"

definition binds :: "lifecycle \<Rightarrow> lifecycle option" where
  "binds s = Some (snd (Bind False s))"

definition serves :: "lifecycle \<Rightarrow> lifecycle option" where
  "serves s = (if lc_serve s = NotServing then Some (snd (serveStart s)) else None)"

definition shuts :: "lifecycle \<Rightarrow> lifecycle option" where
  "shuts s = Some (snd (shutdownBegin s))"

lemmas lc_defs = register_def acceptFail_def checkDrain_def armDeadline_def readStep_def dispatchEnd_def rangeAcquire_def
  rangeRelease_def closeConn_def untrackConn_def wgDone_def closeListener_def pokeConns_def shutdownReturn_def

lemmas lc_env_defs = Bind_def serveStart_def acceptConn_def acceptFail_def readStep_def shutdownBegin_def forceClose_def

lemma lc_trace_steps:
  assumes "lc_trace fs s = Some t" "\<forall>f \<in> set fs. \<forall>s s'. f s = Some s' \<longrightarrow> lc_step s s'"
  shows "lc_step\<^sup>*\<^sup>* s t"
  using assms
proof (induction fs arbitrary: s)
  case (Cons f fs)
  then obtain s' where "f s = Some s'" "lc_trace fs s' = Some t" by (auto split: option.splits)
  then show ?case using Cons.IH [of s'] Cons.prems(2) by (auto intro: converse_rtranclp_into_rtranclp)
qed simp

lemma lc_ops:
  "binds s = Some s' \<longrightarrow> lc_step s s'" "serves s = Some s' \<longrightarrow> lc_step s s'" "shuts s = Some s' \<longrightarrow> lc_step s s'"
  "acceptConn c s = Some s' \<longrightarrow> lc_step s s'" "acceptFail s = Some s' \<longrightarrow> lc_step s s'" "readStep c r s = Some s' \<longrightarrow> lc_step s s'"
  "forceClose s = Some s' \<longrightarrow> lc_step s s'"
  by (auto simp: binds_def serves_def shuts_def prod_eq_iff split: if_splits intro: lc_step.intros)

lemma lc_run_ops:
  "register s = Some s' \<longrightarrow> lc_step s s'" "checkDrain c s = Some s' \<longrightarrow> lc_step s s'" "armDeadline c s = Some s' \<longrightarrow> lc_step s s'"
  "dispatchEnd c w s = Some s' \<longrightarrow> lc_step s s'" "rangeAcquire c s = Some s' \<longrightarrow> lc_step s s'" "rangeRelease c w s = Some s' \<longrightarrow> lc_step s s'"
  "closeConn c s = Some s' \<longrightarrow> lc_step s s'" "untrackConn c s = Some s' \<longrightarrow> lc_step s s'" "wgDone c s = Some s' \<longrightarrow> lc_step s s'"
  "closeListener s = Some s' \<longrightarrow> lc_step s s'" "pokeConns s = Some s' \<longrightarrow> lc_step s s'" "shutdownReturn s = Some s' \<longrightarrow> lc_step s s'"
  by (auto intro: lc_step.runs runs.intros)

section \<open>Counting goroutines\<close>

text \<open>A weighted count of the goroutines by phase.\<close>

definition tally :: "(handler_phase \<Rightarrow> nat) \<Rightarrow> (nat \<Rightarrow> handler_phase) \<Rightarrow> nat" where
  "tally w f = (\<Sum>c | f c \<noteq> Absent. w (f c))"

abbreviation present :: "handler_phase \<Rightarrow> nat" where "present p \<equiv> (if p = Absent then 0 else 1)"
abbreviation streaming :: "handler_phase \<Rightarrow> nat" where "streaming p \<equiv> (if p = Ranging then 1 else 0)"

lemma finite_upd: "finite {c. f c \<noteq> Absent} \<Longrightarrow> finite {c. (f(x := v)) c \<noteq> Absent}"
  by (rule finite_subset [of _ "insert x {c. f c \<noteq> Absent}"]) auto

lemma tally_upd:
  assumes "finite {c. f c \<noteq> Absent}" "w Absent = 0"
  shows "tally w (f(x := v)) + w (f x) = tally w f + w v"
proof -
  let ?S = "insert x {c. f c \<noteq> Absent}"
  have S: "finite ?S" using assms(1) by simp
  have eq: "tally w g = (\<Sum>c \<in> ?S. w (g c))" if "\<And>c. c \<notin> ?S \<Longrightarrow> g c = Absent" for g
    unfolding tally_def using S assms(2) that by (intro sum.mono_neutral_left) auto
  have "tally w (f(x := v)) = w v + (\<Sum>c \<in> ?S - {x}. w (f c))"
    using eq [of "f(x := v)"] S sum.remove [of ?S x "\<lambda>c. w ((f(x := v)) c)"] by (auto intro: sum.cong)
  moreover have "tally w f = w (f x) + (\<Sum>c \<in> ?S - {x}. w (f c))"
    using eq [of f] S sum.remove [of ?S x "\<lambda>c. w (f c)"] by auto
  ultimately show ?thesis by simp
qed

lemma tally_zero: "finite {c. f c \<noteq> Absent} \<Longrightarrow> tally present f = 0 \<Longrightarrow> f c = Absent"
  by (auto simp: tally_def)

section \<open>The invariant\<close>

text \<open>
  The wait group counts the goroutines, the semaphore the streams; the tracked connections are those whose goroutine has not
  passed \<open>untrackConn\<close>; and after a forced close every goroutine that may wait for input has a closed connection.
\<close>

definition lc_inv :: "lifecycle \<Rightarrow> bool" where
  "lc_inv s \<longleftrightarrow> finite {c. lc_phase s c \<noteq> Absent} \<and> lc_wg s = tally present (lc_phase s) \<and> lc_sem s = tally streaming (lc_phase s) \<and>
     lc_sem s \<le> lc_cap s \<and> lc_conns s = {c. lc_phase s c \<notin> {Absent, WgDone}} \<and> (lc_draining s \<longleftrightarrow> lc_shutdown s \<noteq> NotCalled) \<and>
     (lc_shutdown s \<in> {ReturnedNil, ReturnedCtxErr} \<longrightarrow> lc_wg s = 0) \<and>
     (\<forall>c. lc_serve s = Accepted c \<longrightarrow> lc_phase s c = Absent) \<and>
     (lc_shutdown s = Forced \<longrightarrow> (\<forall>c. lc_phase s c \<in> {ArmDeadline, Reading} \<longrightarrow> c \<in> lc_closed s))"

lemma lc_init_inv: "lc_inv (lc_init cap)"
  by (simp add: lc_inv_def lc_init_def tally_def)

text \<open>A goroutine moves from one phase to another: the counts follow.\<close>

lemma lc_move:
  assumes "lc_inv s" "lc_phase s' = (lc_phase s)(c := v)" "lc_phase s c = p" "p \<noteq> Absent \<or> lc_shutdown s' = NotCalled"
    and "lc_wg s' + present p = lc_wg s + present v" "lc_sem s' + streaming p = lc_sem s + streaming v" "lc_sem s' \<le> lc_cap s'"
    and "lc_conns s' = (if v \<in> {Absent, WgDone} then lc_conns s - {c} else insert c (lc_conns s))"
    and "lc_draining s' = lc_draining s" "lc_shutdown s' = lc_shutdown s"
    and "lc_serve s' = lc_serve s \<and> p \<noteq> Absent \<or> lc_serve s' = Accepting"
    and "lc_closed s \<subseteq> lc_closed s'" "lc_shutdown s = Forced \<Longrightarrow> v \<in> {ArmDeadline, Reading} \<Longrightarrow> c \<in> lc_closed s'"
  shows "lc_inv s'"
proof -
  have fin: "finite {c. lc_phase s c \<noteq> Absent}" using assms(1) by (simp add: lc_inv_def)
  have "lc_wg s' = tally present (lc_phase s')" "lc_sem s' = tally streaming (lc_phase s')"
    using tally_upd [OF fin, of present c v] tally_upd [OF fin, of streaming c v] assms(1-3,5,6) by (simp_all add: lc_inv_def)
  moreover have "lc_conns s' = {c. lc_phase s' c \<notin> {Absent, WgDone}}" using assms(1,2,8) by (auto simp: lc_inv_def)
  moreover have "lc_wg s' = 0" if "lc_shutdown s' \<in> {ReturnedNil, ReturnedCtxErr}"
  proof -
    have "lc_wg s = 0" "p \<noteq> Absent" using that assms(1,4,10) by (auto simp: lc_inv_def)
    then show ?thesis using assms(1,3) tally_zero [OF fin, of c] by (auto simp: lc_inv_def)
  qed
  moreover have "lc_phase s' d = Absent" if "lc_serve s' = Accepted d" for d
    using that assms(1-3,11) by (auto simp: lc_inv_def)
  moreover have "d \<in> lc_closed s'" if "lc_shutdown s' = Forced" "lc_phase s' d \<in> {ArmDeadline, Reading}" for d
    using that assms(1,2,10,12,13) by (cases "d = c") (auto simp: lc_inv_def)
  moreover have "finite {c. lc_phase s' c \<noteq> Absent}" unfolding assms(2) by (rule finite_upd [OF fin])
  moreover have "lc_draining s' \<longleftrightarrow> lc_shutdown s' \<noteq> NotCalled" using assms(1,9,10) by (simp add: lc_inv_def)
  ultimately show ?thesis using assms(7) unfolding lc_inv_def by blast
qed

lemma lc_invD:
  assumes "lc_inv s"
  shows "lc_sem s \<le> lc_cap s" "lc_draining s \<longleftrightarrow> lc_shutdown s \<noteq> NotCalled" "lc_conns s = {c. lc_phase s c \<notin> {Absent, WgDone}}"
    and "lc_serve s = Accepted c \<Longrightarrow> lc_phase s c = Absent" "lc_phase s c \<noteq> Absent \<Longrightarrow> 0 < lc_wg s"
    and "lc_phase s c = Ranging \<Longrightarrow> 0 < lc_sem s"
    and "lc_shutdown s = Forced \<Longrightarrow> lc_phase s c \<in> {ArmDeadline, Reading} \<Longrightarrow> c \<in> lc_closed s"
proof -
  have fin: "finite {c. lc_phase s c \<noteq> Absent}" using assms by (simp add: lc_inv_def)
  show "lc_sem s \<le> lc_cap s" "lc_draining s \<longleftrightarrow> lc_shutdown s \<noteq> NotCalled" "lc_conns s = {c. lc_phase s c \<notin> {Absent, WgDone}}"
    "lc_serve s = Accepted c \<Longrightarrow> lc_phase s c = Absent"
    "lc_shutdown s = Forced \<Longrightarrow> lc_phase s c \<in> {ArmDeadline, Reading} \<Longrightarrow> c \<in> lc_closed s"
    using assms unfolding lc_inv_def by blast+
  show "lc_phase s c \<noteq> Absent \<Longrightarrow> 0 < lc_wg s"
    using assms tally_zero [OF fin, of c] by (cases "lc_wg s") (auto simp: lc_inv_def)
  have "lc_phase s c = Ranging \<Longrightarrow> tally streaming (lc_phase s) \<noteq> 0" using fin by (auto simp: tally_def)
  then show "lc_phase s c = Ranging \<Longrightarrow> 0 < lc_sem s" using assms by (auto simp: lc_inv_def)
qed

lemma lc_tracked:
  assumes "lc_inv s"
  shows "lc_phase s c \<notin> {Absent, WgDone} \<Longrightarrow> insert c (lc_conns s) = lc_conns s"
    and "lc_phase s c \<in> {Absent, WgDone} \<Longrightarrow> lc_conns s - {c} = lc_conns s"
  using lc_invD(3) [OF assms] by auto

text \<open>Within a turn nothing is counted.\<close>

lemma lc_turn:
  assumes "lc_inv s" "lc_phase s c = p" "p \<notin> {Absent, WgDone, Ranging}" "v \<notin> {Absent, WgDone, Ranging}"
    and "s' = s\<lparr>lc_phase := (lc_phase s)(c := v), lc_expired := e, lc_closed := d\<rparr>" "lc_closed s \<subseteq> d"
    and "lc_shutdown s = Forced \<Longrightarrow> v \<in> {ArmDeadline, Reading} \<Longrightarrow> c \<in> d"
  shows "lc_inv s'"
proof (rule lc_move [OF assms(1), of s' c v p])
  show "lc_conns s' = (if v \<in> {Absent, WgDone} then lc_conns s - {c} else insert c (lc_conns s))"
    using assms(2-5) lc_invD(3) [OF assms(1)] by auto
qed (use assms lc_invD(1) [OF assms(1)] in auto)

text \<open>Steps of the acceptor and of \<open>Shutdown\<close> move no goroutine.\<close>

lemma lc_frame:
  assumes "lc_inv s" "lc_phase s' = lc_phase s" "lc_wg s' = lc_wg s" "lc_sem s' = lc_sem s" "lc_cap s' = lc_cap s" "lc_conns s' = lc_conns s"
    and "lc_draining s' \<longleftrightarrow> lc_shutdown s' \<noteq> NotCalled" "lc_shutdown s' \<in> {ReturnedNil, ReturnedCtxErr} \<Longrightarrow> lc_wg s = 0"
    and "\<And>c. lc_serve s' = Accepted c \<Longrightarrow> lc_phase s c = Absent"
    and "\<And>c. lc_shutdown s' = Forced \<Longrightarrow> lc_phase s c \<in> {ArmDeadline, Reading} \<Longrightarrow> c \<in> lc_closed s'"
  shows "lc_inv s'"
  using assms(1) unfolding lc_inv_def assms(2-6) using assms(7-10) by blast

lemma returned_idle: "lc_inv s \<Longrightarrow> lc_shutdown s \<in> {ReturnedNil, ReturnedCtxErr} \<Longrightarrow> lc_wg s = 0"
  unfolding lc_inv_def by blast

lemma acceptFail_inv: "acceptFail s = Some s' \<Longrightarrow> lc_inv s \<Longrightarrow> lc_inv s'"
  by (rule lc_frame [of s]) (use lc_invD(2,7) [of s] returned_idle [of s] in \<open>auto simp: acceptFail_def split: if_splits\<close>)

lemma runs_inv:
  assumes "runs s s'" "lc_inv s"
  shows "lc_inv s'"
  using assms
proof (induction rule: runs.induct)
  case (register s s')
  then obtain c where c: "lc_serve s = Accepted c" by (auto simp: register_def split: serve_phase.splits)
  note p = lc_invD(4) [OF register(2) c]
  show ?case
  proof (cases "lc_draining s")
    case True
    then have "s' = s\<lparr>lc_serve := ServeReturned True\<rparr>" using register(1) c by (simp add: register_def)
    then show ?thesis using lc_invD(2,7) [OF register(2)] returned_idle [OF register(2)]
      by (intro lc_frame [OF register(2)]) auto
  next
    case False
    then have s': "s' = s\<lparr>lc_conns := insert c (lc_conns s), lc_wg := Suc (lc_wg s), lc_phase := (lc_phase s)(c := CheckDrain), lc_serve := Accepting\<rparr>"
      using register(1) c by (simp add: register_def)
    show ?thesis
      by (rule lc_move [OF register(2), of s' c CheckDrain Absent]) (use s' p False lc_invD(1,2) [OF register(2)] in auto)
  qed
next
  case (closed_accept s s')
  show ?case by (rule acceptFail_inv [OF closed_accept(2,3)])
next
  case (check c s s')
  let ?v = "if lc_draining s then ClosingConn else ArmDeadline"
  have s': "s' = s\<lparr>lc_phase := (lc_phase s)(c := ?v)\<rparr>" "lc_phase s c = CheckDrain"
    using check(1) by (auto simp: checkDrain_def split: if_splits)
  show ?case
    by (rule lc_turn [OF check(2), where c = c and p = CheckDrain and v = ?v and e = "lc_expired s" and d = "lc_closed s"])
      (use s' lc_invD(2) [OF check(2)] in \<open>auto split: if_splits\<close>)
next
  case (arm c s s')
  let ?v = "if c \<in> lc_closed s then ClosingConn else Reading"
  let ?e = "if c \<in> lc_closed s then lc_expired s else lc_expired s - {c}"
  have s': "s' = s\<lparr>lc_phase := (lc_phase s)(c := ?v), lc_expired := ?e\<rparr>" "lc_phase s c = ArmDeadline"
    using arm(1) by (auto simp: armDeadline_def split: if_splits)
  show ?case
    by (rule lc_turn [OF arm(2), where c = c and p = ArmDeadline and v = ?v and e = ?e and d = "lc_closed s"])
      (use s' lc_invD(7) [OF arm(2), of c] in \<open>auto split: if_splits\<close>)
next
  case (read_dead c s r s')
  then show ?case
    by (auto simp: readStep_def split: if_splits intro!: lc_turn [OF read_dead(3), where c = c and p = Reading and v = ClosingConn and e = "lc_expired s" and d = "lc_closed s"])
next
  case (dispatch c w s s')
  let ?v = "if w then CheckDrain else ClosingConn"
  have s': "s' = s\<lparr>lc_phase := (lc_phase s)(c := ?v)\<rparr>" "lc_phase s c = Dispatching"
    using dispatch(1) by (auto simp: dispatchEnd_def split: if_splits)
  show ?case
    by (rule lc_turn [OF dispatch(2), where c = c and p = Dispatching and v = ?v and e = "lc_expired s" and d = "lc_closed s"])
      (use s' in \<open>auto split: if_splits\<close>)
next
  case (acquire c s s')
  then have s': "s' = s\<lparr>lc_sem := Suc (lc_sem s), lc_phase := (lc_phase s)(c := Ranging)\<rparr>" "lc_phase s c = Dispatching" "lc_sem s < lc_cap s"
    by (auto simp: rangeAcquire_def split: if_splits)
  show ?case by (rule lc_move [OF acquire(2), of s' c Ranging Dispatching]) (use s' lc_tracked(1) [OF acquire(2), of c] in simp_all)
next
  case (release c w s s')
  let ?v = "if w then CheckDrain else ClosingConn"
  from release have s': "s' = s\<lparr>lc_sem := lc_sem s - 1, lc_phase := (lc_phase s)(c := ?v)\<rparr>" "lc_phase s c = Ranging"
    by (auto simp: rangeRelease_def split: if_splits)
  show ?case by (rule lc_move [OF release(2), of s' c ?v Ranging]) 
      (use s' lc_tracked(1) [OF release(2), of c] lc_invD(1) [OF release(2)] lc_invD(6) [OF release(2), of c] in \<open>simp_all split: if_splits\<close>)
next
  case (conn_close c s s')
  then show ?case
    by (auto simp: closeConn_def split: if_splits intro!: lc_turn [OF conn_close(2), where c = c and p = ClosingConn and v = Untracking and e = "lc_expired s" and d = "insert c (lc_closed s)"])
next
  case (untrack c s s')
  then have s': "s' = s\<lparr>lc_conns := lc_conns s - {c}, lc_phase := (lc_phase s)(c := WgDone)\<rparr>" "lc_phase s c = Untracking"
    by (auto simp: untrackConn_def split: if_splits)
  show ?case by (rule lc_move [OF untrack(2), of s' c WgDone Untracking]) (use s' lc_invD(1) [OF untrack(2)] in simp_all)
next
  case (wg_done c s s')
  then have s': "s' = s\<lparr>lc_wg := lc_wg s - 1, lc_phase := (lc_phase s)(c := Absent)\<rparr>" "lc_phase s c = WgDone"
    by (auto simp: wgDone_def split: if_splits)
  show ?case by (rule lc_move [OF wg_done(2), of s' c Absent WgDone]) 
      (use s' lc_tracked(2) [OF wg_done(2), of c] lc_invD(1) [OF wg_done(2)] lc_invD(5) [OF wg_done(2), of c] in simp_all)
next
  case (listener s s')
  show ?case
    by (rule lc_frame [OF listener(2)]) (use listener(1) lc_invD(2,4) [OF listener(2)] in \<open>auto simp: closeListener_def split: if_splits\<close>)
next
  case (poke s s')
  show ?case
    by (rule lc_frame [OF poke(2)]) (use poke(1) lc_invD(2,4) [OF poke(2)] in \<open>auto simp: pokeConns_def split: if_splits\<close>)
next
  case (return s s')
  show ?case
    by (rule lc_frame [OF return(2)])
      (use return(1) lc_invD(2,4) [OF return(2)] in \<open>auto simp: shutdownReturn_def split: if_splits shutdown_phase.splits\<close>)
qed

lemma lc_step_inv:
  assumes "lc_step s s'" "lc_inv s"
  shows "lc_inv s'"
  using assms
proof (induction rule: lc_step.induct)
  case (read c r s s')
  show ?case
  proof (cases "c \<in> lc_expired s \<or> c \<in> lc_closed s")
    case True
    then show ?thesis using runs_inv [OF runs.read_dead] read by blast
  next
    case False
    let ?v = "case r of ReadRequestOk \<Rightarrow> Dispatching | ReadProtocolError \<Rightarrow> CheckDrain | ReadFails \<Rightarrow> ClosingConn"
    have s': "s' = s\<lparr>lc_phase := (lc_phase s)(c := ?v)\<rparr>" "lc_phase s c = Reading"
      using False read(1) by (auto simp: readStep_def split: if_splits)
    show ?thesis
      by (rule lc_turn [OF read(2), where c = c and p = Reading and v = ?v and e = "lc_expired s" and d = "lc_closed s"])
        (use s' in \<open>cases r; simp\<close>)+
  qed
next
  case (runs s s')
  then show ?case using runs_inv by blast
next
  case (accept c s s')
  show ?case
    by (rule lc_frame [OF accept(2)])
      (use accept(1) lc_invD(2,7) [OF accept(2)] returned_idle [OF accept(2)] in \<open>auto simp: acceptConn_def split: if_splits\<close>)
next
  case (accept_fail s s')
  then show ?case by (rule acceptFail_inv)
next
  case (force s s')
  show ?case
    by (rule lc_frame [OF force(2)])
      (use force(1) lc_invD(2,3,4) [OF force(2)] in \<open>auto simp: forceClose_def split: if_splits\<close>)
next
  case (bind b s r s')
  show ?case
    by (rule lc_frame [OF bind(2)])
      (use bind(1) lc_invD(2,4,7) [OF bind(2)] returned_idle [OF bind(2)] in \<open>auto simp: Bind_def split: if_splits\<close>)
next
  case (serve s r s')
  show ?case
    by (rule lc_frame [OF serve(3)])
      (use serve(2) lc_invD(2,4,7) [OF serve(3)] returned_idle [OF serve(3)] in \<open>auto simp: serveStart_def split: if_splits\<close>)
next
  case (shutdown s r s')
  show ?case
    by (rule lc_frame [OF shutdown(2)])
      (use shutdown(1) lc_invD(2,4,7) [OF shutdown(2)] returned_idle [OF shutdown(2)] in \<open>auto simp: shutdownBegin_def split: if_splits\<close>)
qed

lemma lc_reachable_inv: "lc_step\<^sup>*\<^sup>* s s' \<Longrightarrow> lc_inv s \<Longrightarrow> lc_inv s'"
  by (induction rule: rtranclp_induct) (auto intro: lc_step_inv)


section \<open>Shutdown leaves nothing behind\<close>

lemma lc_step_returned:
  assumes "lc_step s s'" "lc_inv s" "lc_shutdown s \<in> {ReturnedNil, ReturnedCtxErr}"
  shows "lc_shutdown s' \<in> {ReturnedNil, ReturnedCtxErr}"
  using assms
proof (cases rule: lc_step.cases)
  case (shutdown r)
  then show ?thesis using assms(3) lc_invD(2) [OF assms(2)] by (auto simp: shutdownBegin_def)
next
  case runs
  then show ?thesis using assms(3)
    by (cases rule: runs.cases) (auto simp: lc_defs split: if_splits serve_phase.splits shutdown_phase.splits)
qed (auto simp: lc_env_defs split: if_splits)

lemma lc_steps_returned:
  assumes "lc_step\<^sup>*\<^sup>* s t" "lc_inv s" "lc_shutdown s \<in> {ReturnedNil, ReturnedCtxErr}"
  shows "lc_inv t \<and> lc_shutdown t \<in> {ReturnedNil, ReturnedCtxErr}"
  using assms by (induction rule: rtranclp_induct) (use lc_step_inv lc_step_returned in blast)+

lemma lc_idle:
  assumes "lc_inv s" "lc_wg s = 0"
  shows "lc_phase s c = Absent" "lc_conns s = {}" "lc_sem s = 0"
proof -
  have a: "lc_phase s c = Absent" for c using lc_invD(5) [OF assms(1), of c] assms(2) by auto
  show "lc_phase s c = Absent" by (rule a)
  show "lc_conns s = {}" using a lc_invD(3) [OF assms(1)] by simp
  show "lc_sem s = 0" using a assms(1) by (simp add: lc_inv_def tally_def)
qed

text \<open>
  C20. Once \<open>Shutdown\<close> has returned, whether all connections drained or the context ended first, no connection goroutine is left, no
  connection is tracked and no range slot is held, and this stays so whatever happens afterwards: a connection that the accept
  loop had already taken is refused.
\<close>

theorem shutdown_leaves_nothing:
  assumes "lc_step\<^sup>*\<^sup>* (lc_init cap) s" "lc_shutdown s \<in> {ReturnedNil, ReturnedCtxErr}" "lc_step\<^sup>*\<^sup>* s t"
  shows "lc_phase t c = Absent \<and> lc_conns t = {} \<and> lc_wg t = 0 \<and> lc_sem t = 0"
proof -
  have "lc_inv t" "lc_shutdown t \<in> {ReturnedNil, ReturnedCtxErr}"
    using lc_steps_returned [OF assms(3) lc_reachable_inv [OF assms(1) lc_init_inv] assms(2)] by blast+
  then show ?thesis using lc_idle returned_idle by blast
qed

lemma forced_trace:
  "\<exists>s. lc_trace [binds, serves, acceptConn 0, register, checkDrain 0, armDeadline 0, readStep 0 ReadRequestOk, shuts, acceptConn 1, closeListener,
      pokeConns, forceClose, register, dispatchEnd 0 False, closeConn 0, untrackConn 0, wgDone 0, shutdownReturn] (lc_init 4) = Some s \<and>
    lc_shutdown s = ReturnedCtxErr"
  by (simp add: lc_init_def lc_defs lc_env_defs binds_def serves_def shuts_def)

lemma forced_reachable: "\<exists>s. lc_step\<^sup>*\<^sup>* (lc_init 4) s \<and> lc_shutdown s = ReturnedCtxErr"
proof -
  obtain s where s: "lc_shutdown s = ReturnedCtxErr"
    "lc_trace [binds, serves, acceptConn 0, register, checkDrain 0, armDeadline 0, readStep 0 ReadRequestOk, shuts, acceptConn 1, closeListener,
      pokeConns, forceClose, register, dispatchEnd 0 False, closeConn 0, untrackConn 0, wgDone 0, shutdownReturn] (lc_init 4) = Some s"
    using forced_trace by blast
  have "lc_step\<^sup>*\<^sup>* (lc_init 4) s" by (rule lc_trace_steps [OF s(2)]) (simp add: lc_ops lc_run_ops)
  then show ?thesis using s(1) by blast
qed

theorem shutdown_leaves_nothing_witness:
  "\<exists>s. lc_step\<^sup>*\<^sup>* (lc_init 4) s \<and> lc_shutdown s = ReturnedCtxErr \<and> lc_phase s 0 = Absent \<and> lc_conns s = {} \<and> lc_wg s = 0 \<and> lc_sem s = 0"
proof -
  obtain s where "lc_step\<^sup>*\<^sup>* (lc_init 4) s" "lc_shutdown s = ReturnedCtxErr" using forced_reachable by blast
  then show ?thesis using shutdown_leaves_nothing [of 4 s s 0] by auto
qed

section \<open>The range semaphore\<close>

lemma lc_step_cap:
  assumes "lc_step s s'"
  shows "lc_cap s' = lc_cap s"
  using assms
proof (cases rule: lc_step.cases)
  case runs
  then show ?thesis by (cases rule: runs.cases) (auto simp: lc_defs split: if_splits serve_phase.splits shutdown_phase.splits)
qed (auto simp: lc_env_defs split: if_splits)

lemma lc_reachable_cap: "lc_step\<^sup>*\<^sup>* s s' \<Longrightarrow> lc_cap s' = lc_cap s"
  by (induction rule: rtranclp_induct) (auto simp: lc_step_cap)

lemma tally_streaming:
  assumes "finite {c. f c \<noteq> Absent}"
  shows "tally streaming f = card {c. f c = Ranging}"
proof -
  have "tally streaming f = (\<Sum>c | f c = Ranging. 1)"
    unfolding tally_def by (rule sum.mono_neutral_cong_right) (use assms in auto)
  then show ?thesis by simp
qed

text \<open>
  C22. At most \<open>MaxConcurrentRangeStreams\<close> range streams are ever in flight, the slots held are exactly those of the running
  streams, and a request is refused a slot exactly when the limit is reached.
\<close>

theorem range_streams_bounded:
  assumes "lc_step\<^sup>*\<^sup>* (lc_init cap) s"
  shows "lc_sem s = card {c. lc_phase s c = Ranging} \<and> lc_sem s \<le> cap \<and>
    (lc_phase s c = Dispatching \<longrightarrow> (rangeAcquire c s = None \<longleftrightarrow> card {c. lc_phase s c = Ranging} = cap))"
proof -
  have inv: "lc_inv s" by (rule lc_reachable_inv [OF assms lc_init_inv])
  have cap: "lc_cap s = cap" using lc_reachable_cap [OF assms] by (simp add: lc_init_def)
  have "lc_sem s = card {c. lc_phase s c = Ranging}" using inv tally_streaming by (simp add: lc_inv_def)
  moreover have "lc_sem s \<le> cap" using lc_invD(1) [OF inv] cap by simp
  ultimately show ?thesis by (auto simp: rangeAcquire_def cap)
qed

text \<open>Two connections ask for a range while one slot exists.\<close>

lemma range_trace:
  "\<exists>s. lc_trace [binds, serves, acceptConn 0, register, acceptConn 1, register, checkDrain 0, armDeadline 0, readStep 0 ReadRequestOk, rangeAcquire 0,
      checkDrain 1, armDeadline 1, readStep 1 ReadRequestOk] (lc_init 1) = Some s \<and> lc_phase s 0 = Ranging \<and> lc_phase s 1 = Dispatching \<and>
      lc_sem s = 1"
  by (simp add: lc_init_def lc_defs lc_env_defs binds_def serves_def)

theorem range_streams_bounded_witness:
  "\<exists>s. lc_step\<^sup>*\<^sup>* (lc_init 1) s \<and> lc_phase s 0 = Ranging \<and> lc_phase s 1 = Dispatching \<and> rangeAcquire 1 s = None"
proof -
  obtain s where s: "lc_phase s 0 = Ranging" "lc_phase s 1 = Dispatching" "lc_sem s = 1"
    "lc_trace [binds, serves, acceptConn 0, register, acceptConn 1, register, checkDrain 0, armDeadline 0, readStep 0 ReadRequestOk, rangeAcquire 0,
      checkDrain 1, armDeadline 1, readStep 1 ReadRequestOk] (lc_init 1) = Some s"
    using range_trace by blast
  have r: "lc_step\<^sup>*\<^sup>* (lc_init 1) s" by (rule lc_trace_steps [OF s(4)]) (simp add: lc_ops lc_run_ops)
  then show ?thesis using s range_streams_bounded [OF r, of 1] by auto
qed

section \<open>A drain that waits for the read deadline\<close>

lemma race_trace:
  "\<exists>s. lc_trace [binds, serves, acceptConn 0, register, checkDrain 0, shuts, closeListener, acceptFail, pokeConns, armDeadline 0] (lc_init 4) = Some s \<and>
    lc_shutdown s = Poked \<and> lc_serve s = ServeReturned True \<and> lc_wg s = 1 \<and> lc_conns s = {0} \<and> lc_phase s 0 = Reading \<and>
    (\<forall>c. c \<noteq> 0 \<longrightarrow> lc_phase s c = Absent) \<and> 0 \<notin> lc_expired s \<and> 0 \<notin> lc_closed s"
  by (simp add: lc_init_def lc_defs lc_env_defs binds_def serves_def shuts_def)

text \<open>
  C23. A graceful \<open>Shutdown\<close> can leave a connection waiting for input: a goroutine that has read \<open>draining\<close> as false, and
  arms its read deadline after \<open>Shutdown\<close> has set the past one, overwrites it. From the state reached no part of the server
  can move, although every tracked connection has been poked: only input, the read deadline or the context ends the wait.
\<close>

theorem poke_can_be_lost:
  "\<exists>s. lc_step\<^sup>*\<^sup>* (lc_init 4) s \<and> lc_shutdown s = Poked \<and> lc_phase s 0 = Reading \<and> 0 \<in> lc_conns s \<and> 0 \<notin> lc_expired s \<and> (\<forall>t. \<not> runs s t)"
proof -
  obtain s where s: "lc_shutdown s = Poked" "lc_serve s = ServeReturned True" "lc_wg s = 1" "lc_conns s = {0}" "lc_phase s 0 = Reading"
    "\<forall>c. c \<noteq> 0 \<longrightarrow> lc_phase s c = Absent" "0 \<notin> lc_expired s" "0 \<notin> lc_closed s"
    and t: "lc_trace [binds, serves, acceptConn 0, register, checkDrain 0, shuts, closeListener, acceptFail, pokeConns, armDeadline 0] (lc_init 4) = Some s"
    using race_trace by blast
  have "lc_step\<^sup>*\<^sup>* (lc_init 4) s" by (rule lc_trace_steps [OF t]) (simp add: lc_ops lc_run_ops)
  moreover have ph: "lc_phase s c = (if c = 0 then Reading else Absent)" for c using s(5,6) by auto
  have "\<not> runs s t" for t
  proof
    assume "runs s t"
    then show False
      by (cases rule: runs.cases) (use s(1-3,7,8) ph in \<open>auto simp: lc_defs split: if_splits\<close>)
  qed
  ultimately show ?thesis using s by blast
qed

section \<open>A forced shutdown returns\<close>

text \<open>How far a part of the server is from its end; with \<open>draining\<close> set no step goes back.\<close>

fun phase_rank :: "handler_phase \<Rightarrow> nat" where
  "phase_rank Absent = 0"
| "phase_rank WgDone = 1"
| "phase_rank Untracking = 2"
| "phase_rank ClosingConn = 3"
| "phase_rank CheckDrain = 4"
| "phase_rank Ranging = 5"
| "phase_rank Dispatching = 6"
| "phase_rank Reading = 7"
| "phase_rank ArmDeadline = 8"

fun serve_rank :: "serve_phase \<Rightarrow> nat" where
  "serve_rank (ServeReturned b) = 0"
| "serve_rank _ = 1"

fun shutdown_rank :: "shutdown_phase \<Rightarrow> nat" where
  "shutdown_rank NotCalled = 5"
| "shutdown_rank DrainSet = 4"
| "shutdown_rank ListenerClosed = 3"
| "shutdown_rank Poked = 2"
| "shutdown_rank Forced = 1"
| "shutdown_rank _ = 0"

definition lc_rank :: "lifecycle \<Rightarrow> nat" where
  "lc_rank s = tally phase_rank (lc_phase s) + serve_rank (lc_serve s) + shutdown_rank (lc_shutdown s)"

lemma lc_rank_move:
  assumes "lc_inv s" "lc_phase s' = (lc_phase s)(c := v)" "lc_serve s' = lc_serve s" "lc_shutdown s' = lc_shutdown s"
    and "phase_rank v < phase_rank (lc_phase s c)"
  shows "lc_rank s' < lc_rank s"
proof -
  have "finite {c. lc_phase s c \<noteq> Absent}" using assms(1) by (simp add: lc_inv_def)
  then show ?thesis using tally_upd [of "lc_phase s" phase_rank c v] assms(2-5) by (simp add: lc_rank_def)
qed

lemma runs_rank:
  assumes "runs s s'" "lc_inv s" "lc_draining s"
  shows "lc_rank s' < lc_rank s"
  using assms(1)
proof (cases rule: runs.cases)
  case register
  then show ?thesis using assms(3) by (auto simp: register_def lc_rank_def split: serve_phase.splits)
next
  case closed_accept
  then show ?thesis by (auto simp: acceptFail_def lc_rank_def split: if_splits)
next
  case (check c)
  then show ?thesis using assms(3) by (intro lc_rank_move [OF assms(2), of _ c ClosingConn]) (auto simp: checkDrain_def split: if_splits)
next
  case (arm c)
  then show ?thesis
    by (intro lc_rank_move [OF assms(2), of _ c "if c \<in> lc_closed s then ClosingConn else Reading"]) (auto simp: armDeadline_def split: if_splits)
next
  case (read_dead c r)
  then show ?thesis by (intro lc_rank_move [OF assms(2), of _ c ClosingConn]) (auto simp: readStep_def split: if_splits)
next
  case (dispatch c w)
  then show ?thesis
    by (intro lc_rank_move [OF assms(2), of _ c "if w then CheckDrain else ClosingConn"]) (auto simp: dispatchEnd_def split: if_splits)
next
  case (acquire c)
  then show ?thesis by (intro lc_rank_move [OF assms(2), of _ c Ranging]) (auto simp: rangeAcquire_def split: if_splits)
next
  case (release c w)
  then show ?thesis
    by (intro lc_rank_move [OF assms(2), of _ c "if w then CheckDrain else ClosingConn"]) (auto simp: rangeRelease_def split: if_splits)
next
  case (conn_close c)
  then show ?thesis by (intro lc_rank_move [OF assms(2), of _ c Untracking]) (auto simp: closeConn_def split: if_splits)
next
  case (untrack c)
  then show ?thesis by (intro lc_rank_move [OF assms(2), of _ c WgDone]) (auto simp: untrackConn_def split: if_splits)
next
  case (wg_done c)
  then show ?thesis by (intro lc_rank_move [OF assms(2), of _ c Absent]) (auto simp: wgDone_def split: if_splits)
next
  case listener
  then show ?thesis by (auto simp: closeListener_def lc_rank_def split: if_splits)
next
  case poke
  then show ?thesis by (auto simp: pokeConns_def lc_rank_def split: if_splits)
next
  case return
  then show ?thesis by (auto simp: shutdownReturn_def lc_rank_def split: if_splits shutdown_phase.splits)
qed

lemma runs_forced:
  assumes "runs s s'" "lc_shutdown s \<in> {Forced, ReturnedCtxErr}"
  shows "lc_shutdown s' \<in> {Forced, ReturnedCtxErr}"
  using assms by (cases rule: runs.cases) (auto simp: lc_defs split: if_splits serve_phase.splits shutdown_phase.splits)

text \<open>A forced shutdown that has not returned is never stuck.\<close>

lemma forced_progress:
  assumes "lc_inv s" "lc_shutdown s = Forced"
  shows "\<exists>t. runs s t"
proof (cases "lc_wg s = 0")
  case True
  then have "shutdownReturn s = Some (s\<lparr>lc_shutdown := ReturnedCtxErr\<rparr>)" using assms(2) by (simp add: shutdownReturn_def)
  then show ?thesis using runs.return by blast
next
  case False
  then have "\<exists>c. lc_phase s c \<noteq> Absent" using assms(1) by (auto simp: lc_inv_def tally_def)
  then obtain c where c: "lc_phase s c \<noteq> Absent" by blast
  note dead = lc_invD(7) [OF assms, of c]
  show ?thesis
  proof (cases "lc_phase s c")
    case Reading
    then have "\<exists>t. readStep c ReadFails s = Some t" using dead by (simp add: readStep_def)
    then show ?thesis using dead Reading runs.read_dead [of c s ReadFails] by auto
  next
    case CheckDrain
    then have "\<exists>t. checkDrain c s = Some t" by (simp add: checkDrain_def)
    then show ?thesis using runs.check by blast
  next
    case ArmDeadline
    then have "\<exists>t. armDeadline c s = Some t" by (simp add: armDeadline_def)
    then show ?thesis using runs.arm by blast
  next
    case Dispatching
    then have "\<exists>t. dispatchEnd c True s = Some t" by (simp add: dispatchEnd_def)
    then show ?thesis using runs.dispatch by blast
  next
    case Ranging
    then have "\<exists>t. rangeRelease c True s = Some t" by (simp add: rangeRelease_def)
    then show ?thesis using runs.release by blast
  next
    case ClosingConn
    then have "\<exists>t. closeConn c s = Some t" by (simp add: closeConn_def)
    then show ?thesis using runs.conn_close by blast
  next
    case Untracking
    then have "\<exists>t. untrackConn c s = Some t" by (simp add: untrackConn_def)
    then show ?thesis using runs.untrack by blast
  next
    case WgDone
    then have "\<exists>t. wgDone c s = Some t" by (simp add: wgDone_def)
    then show ?thesis using runs.wg_done by blast
  qed (use c in simp)
qed

abbreviation forced :: "lifecycle \<Rightarrow> bool" where
  "forced s \<equiv> lc_inv s \<and> lc_shutdown s \<in> {Forced, ReturnedCtxErr}"

interpretation sd: winding runs forced lc_rank "\<lambda>s. lc_shutdown s = ReturnedCtxErr"
proof
  fix s t
  assume inv: "forced s" and st: "runs s t"
  show "forced t" using inv runs_inv [OF st] runs_forced [OF st] by blast
  have "lc_draining s" using inv lc_invD(2) [of s] by auto
  then show "lc_rank t < lc_rank s" using inv runs_rank [OF st] by blast
next
  fix s
  assume "forced s" "lc_shutdown s \<noteq> ReturnedCtxErr"
  then show "\<exists>t. runs s t" using forced_progress by blast
qed

text \<open>
  C21. After the context of \<open>Shutdown\<close> has ended and every tracked connection is closed, the server winds down by itself: no
  sequence of its steps is longer than \<open>lc_rank\<close>, none stops before \<open>Shutdown\<close> has returned the context's error, each can be
  continued to that return, and \<open>Shutdown\<close> never returns anything else.
\<close>

theorem forced_shutdown_returns:
  assumes "lc_step\<^sup>*\<^sup>* (lc_init cap) s" "lc_shutdown s = Forced" "(runs ^^ n) s t"
  shows "n \<le> lc_rank s \<and> (lc_shutdown t = ReturnedCtxErr \<or> lc_shutdown t = Forced \<and> (\<exists>u. runs t u)) \<and>
    (\<exists>u. runs\<^sup>*\<^sup>* t u \<and> lc_shutdown u = ReturnedCtxErr)"
proof -
  have "forced s" using lc_reachable_inv [OF assms(1) lc_init_inv] assms(2) by blast
  from sd.run_rank [OF assms(3) this] have t: "forced t" "n \<le> lc_rank s" by auto
  then show ?thesis using sd.progress [OF t(1)] sd.reaches_goal [OF t(1)] by auto
qed

lemma forcing_trace:
  "\<exists>s. lc_trace [binds, serves, acceptConn 0, register, checkDrain 0, armDeadline 0, shuts, closeListener, pokeConns, forceClose] (lc_init 4) = Some s \<and>
    lc_shutdown s = Forced \<and> lc_phase s 0 = Reading"
  by (simp add: lc_init_def lc_defs lc_env_defs binds_def serves_def shuts_def)

theorem forced_shutdown_returns_witness:
  "\<exists>s. lc_step\<^sup>*\<^sup>* (lc_init 4) s \<and> lc_shutdown s = Forced \<and> lc_phase s 0 = Reading \<and> (\<exists>u. runs s u)"
proof -
  obtain s where s: "lc_shutdown s = Forced" "lc_phase s 0 = Reading"
    "lc_trace [binds, serves, acceptConn 0, register, checkDrain 0, armDeadline 0, shuts, closeListener, pokeConns, forceClose] (lc_init 4) = Some s"
    using forcing_trace by blast
  have r: "lc_step\<^sup>*\<^sup>* (lc_init 4) s" by (rule lc_trace_steps [OF s(3)]) (simp add: lc_ops lc_run_ops)
  have "(runs ^^ 0) s s" by simp
  from forced_shutdown_returns [OF r s(1) this] show ?thesis using r s(1,2) by auto
qed

end
