(* ===== verification/Client.thy ===== *)
theory Client
  imports Wire_Request Wire_Response
begin

text \<open>
  The Go client, \<open>internal/client/client.go\<close>: one connection, requests one at a time. The
  other end is a parameter, \<open>peer\<close>: the bytes it answers to the bytes it is sent, with its
  own state. Bytes received and not yet read stay in \<open>cl_in\<close>.
\<close>

section \<open>State\<close>

record client_options =
  co_DialTimeout :: int
  co_RequestTimeout :: int

definition DefaultDialTimeout :: int where "DefaultDialTimeout = 5 * 1000000000"
definition DefaultRequestTimeout :: int where "DefaultRequestTimeout = 30 * 1000000000"

definition withDefaults :: "client_options \<Rightarrow> client_options" where
  "withDefaults opts =
     (let o1 = (if co_DialTimeout opts \<le> 0 then opts\<lparr>co_DialTimeout := DefaultDialTimeout\<rparr> else opts) in
      if co_RequestTimeout o1 \<le> 0 then o1\<lparr>co_RequestTimeout := DefaultRequestTimeout\<rparr> else o1)"

record 's client =
  cl_open :: bool
  cl_opts :: client_options
  cl_in :: bytes
  cl_peer :: 's

datatype client_error =
    ErrNotFound
  | ErrClientClosed
  | ErrNilPageFn
  | ErrDial
  | ClientWire wire_error
  | ClientRemote Status bytes
  | ClientStreamStopped

type_synonym 's peer = "bytes \<Rightarrow> 's \<Rightarrow> bytes \<times> 's"

text \<open>What may go wrong in one call: the deadline, the write (after some bytes), the read.\<close>

record client_fault =
  cf_deadline :: bool
  cf_write :: "nat option"
  cf_read :: bool

definition no_client_fault :: client_fault where
  "no_client_fault = \<lparr>cf_deadline = False, cf_write = None, cf_read = False\<rparr>"

definition NewClient :: "'s \<Rightarrow> client_options \<Rightarrow> 's client" where
  "NewClient peer_state opts = \<lparr>cl_open = True, cl_opts = withDefaults opts, cl_in = [], cl_peer = peer_state\<rparr>"

definition Dial :: "bool \<Rightarrow> 's \<Rightarrow> client_options \<Rightarrow> client_error + 's client" where
  "Dial refused peer_state opts = (if refused then Err ErrDial else Ok (NewClient peer_state opts))"

definition client_Close :: "bool \<Rightarrow> 's client \<Rightarrow> (client_error + unit) \<times> 's client" where
  "client_Close fails c =
     (if \<not> cl_open c then (Ok (), c)
      else (if fails then Err (ClientWire WireIO) else Ok (), c\<lparr>cl_open := False\<rparr>))"

section \<open>Unary calls\<close>

definition setDeadlines :: "client_fault \<Rightarrow> 's client \<Rightarrow> client_error + unit" where
  "setDeadlines ft c =
     (if \<not> cl_open c then Err ErrClientClosed
      else if cf_deadline ft then Err (ClientWire WireIO) else Ok ())"

definition deliver :: "'s peer \<Rightarrow> bytes \<Rightarrow> 's client \<Rightarrow> 's client" where
  "deliver peer bs c = (case peer bs (cl_peer c) of (resp, s) \<Rightarrow> c\<lparr>cl_in := cl_in c @ resp, cl_peer := s\<rparr>)"

definition sendRequest :: "'s peer \<Rightarrow> client_fault \<Rightarrow> request \<Rightarrow> 's client \<Rightarrow> (client_error + unit) \<times> 's client" where
  "sendRequest peer ft req c =
     (case setDeadlines ft c of
        Inl e \<Rightarrow> (Err e, c)
      | Inr _ \<Rightarrow>
          (case EncodeRequest req of
             Inl e \<Rightarrow> (Err (ClientWire e), c)
           | Inr frame \<Rightarrow>
               (case cf_write ft of
                  Some n \<Rightarrow> (Err (ClientWire WireIO), deliver peer (take n frame) c)
                | None \<Rightarrow> (Ok (), deliver peer frame c))))"

definition recvFrame :: "bool \<Rightarrow> 's client \<Rightarrow> (client_error + byte \<times> bytes) \<times> 's client" where
  "recvFrame fails c =
     (if fails then (Err (ClientWire WireIO), c)
      else (case ReadFrame (cl_in c) of
              Inl e \<Rightarrow> (Err (ClientWire e), c\<lparr>cl_in := []\<rparr>)
            | Inr (tag, body, rest) \<Rightarrow> (Ok (tag, body), c\<lparr>cl_in := rest\<rparr>)))"

definition roundTripUnary :: "'s peer \<Rightarrow> client_fault \<Rightarrow> request \<Rightarrow> 's client \<Rightarrow> (client_error + Status \<times> bytes) \<times> 's client" where
  "roundTripUnary peer ft req c =
     (case sendRequest peer ft req c of
        (Inl e, c1) \<Rightarrow> (Err e, c1)
      | (Inr _, c1) \<Rightarrow> recvFrame (cf_read ft) c1)"

text \<open>\<open>None\<close> is the nil error.\<close>

definition statusToErr :: "Status \<Rightarrow> bytes \<Rightarrow> client_error option" where
  "statusToErr status body =
     (if status = StatusOK then None
      else (case DecodeError body of
              Inl e \<Rightarrow> Some (ClientWire e)
            | Inr msg \<Rightarrow> Some (ClientRemote status msg)))"

definition or_error :: "'a \<Rightarrow> client_error option \<Rightarrow> client_error + 'a" where
  "or_error x err = (case err of None \<Rightarrow> Ok x | Some e \<Rightarrow> Err e)"

definition unaryCall :: "'s peer \<Rightarrow> client_fault \<Rightarrow> request \<Rightarrow> 's client \<Rightarrow> (client_error + unit) \<times> 's client" where
  "unaryCall peer ft req c =
     (case roundTripUnary peer ft req c of
        (Inl e, c') \<Rightarrow> (Err e, c')
      | (Inr (status, body), c') \<Rightarrow> (or_error () (statusToErr status body), c'))"

definition client_Put :: "'s peer \<Rightarrow> client_fault \<Rightarrow> bytes \<Rightarrow> bytes \<Rightarrow> 's client \<Rightarrow> (client_error + unit) \<times> 's client" where
  "client_Put peer ft key val c = unaryCall peer ft (PutRequest key val) c"

definition client_Delete :: "'s peer \<Rightarrow> client_fault \<Rightarrow> bytes \<Rightarrow> 's client \<Rightarrow> (client_error + unit) \<times> 's client" where
  "client_Delete peer ft key c = unaryCall peer ft (DeleteRequest key) c"

definition client_Batch :: "'s peer \<Rightarrow> client_fault \<Rightarrow> wire_entry list \<Rightarrow> 's client \<Rightarrow> (client_error + unit) \<times> 's client" where
  "client_Batch peer ft entries c = unaryCall peer ft (BatchRequest entries) c"

definition client_Ping :: "'s peer \<Rightarrow> client_fault \<Rightarrow> 's client \<Rightarrow> (client_error + unit) \<times> 's client" where
  "client_Ping peer ft c = unaryCall peer ft PingRequest c"

definition wire_result :: "wire_error + 'a \<Rightarrow> client_error + 'a" where
  "wire_result r = map_sum ClientWire id r"

definition client_Get :: "'s peer \<Rightarrow> client_fault \<Rightarrow> bytes \<Rightarrow> 's client \<Rightarrow> (client_error + bytes) \<times> 's client" where
  "client_Get peer ft key c =
     (case roundTripUnary peer ft (GetRequest key) c of
        (Inl e, c') \<Rightarrow> (Err e, c')
      | (Inr (status, body), c') \<Rightarrow>
          if status = StatusNotFound then (Err ErrNotFound, c')
          else if status \<noteq> StatusOK then (or_error [] (statusToErr status body), c')
          else (wire_result (DecodeGetOK body), c'))"

definition client_Stats :: "'s peer \<Rightarrow> client_fault \<Rightarrow> 's client \<Rightarrow> (client_error + u64 \<times> u64) \<times> 's client" where
  "client_Stats peer ft c =
     (case roundTripUnary peer ft StatsRequest c of
        (Inl e, c') \<Rightarrow> (Err e, c')
      | (Inr (status, body), c') \<Rightarrow>
          if status \<noteq> StatusOK then (or_error (0, 0) (statusToErr status body), c')
          else (wire_result (DecodeStatsOK body), c'))"

section \<open>Range calls\<close>

text \<open>
  The receive loop of \<open>ReadKeyRange\<close>; \<open>fails i\<close> says that the deadline or read of frame \<open>i\<close> fails. What the
  connection delivers is finite here; theory \<open>Range_Stream\<close> has the loop on one that delivers for ever.
\<close>

function readPages ::
  "(KV list \<Rightarrow> 'a \<Rightarrow> bool \<times> 'a) \<Rightarrow> (nat \<Rightarrow> bool) \<Rightarrow> nat \<Rightarrow> 's client \<Rightarrow> 'a \<Rightarrow> (client_error + unit) \<times> 'a \<times> 's client" where
  "readPages pageFn fails i c a =
     (case recvFrame (fails i) c of
        (Inl e, c') \<Rightarrow> (Err e, a, c')
      | (Inr (tag, fbody), c') \<Rightarrow>
          if tag \<noteq> StatusOK
          then (case DecodeError fbody of
                  Inl e \<Rightarrow> (Err (ClientWire e), a, c')
                | Inr msg \<Rightarrow> (Err (ClientRemote tag msg), a, c'))
          else (case DecodeRangeFrame fbody of
                  Inl e \<Rightarrow> (Err (ClientWire e), a, c')
                | Inr None \<Rightarrow> (Ok (), a, c')
                | Inr (Some pairs) \<Rightarrow>
                    (case pageFn pairs a of
                       (go, a') \<Rightarrow>
                         if go then readPages pageFn fails (Suc i) c' a' else (Err ClientStreamStopped, a', c'))))"
  by pat_completeness auto

lemma recvFrame_shrinks: "recvFrame b c = (Ok x, c') \<Longrightarrow> length (cl_in c') < length (cl_in c)"
  by (auto simp: recvFrame_def dest: ReadFrame_shrinks split: if_splits sum.splits)

termination readPages
  by (relation "measure (\<lambda>(f, fl, i, c, a). length (cl_in c))") (auto dest: recvFrame_shrinks [OF sym])

declare readPages.simps [simp del]

definition client_ReadKeyRange ::
  "'s peer \<Rightarrow> client_fault \<Rightarrow> (nat \<Rightarrow> bool) \<Rightarrow> bytes option \<Rightarrow> bytes option \<Rightarrow> (KV list \<Rightarrow> 'a \<Rightarrow> bool \<times> 'a) option \<Rightarrow>
   's client \<Rightarrow> 'a \<Rightarrow> (client_error + unit) \<times> 'a \<times> 's client" where
  "client_ReadKeyRange peer ft fails start stop pageFn c a =
     (case pageFn of
        None \<Rightarrow> (Err ErrNilPageFn, a, c)
      | Some fn \<Rightarrow>
          (case sendRequest peer ft (ReadKeyRangeRequest start stop) c of
             (Inl e, c1) \<Rightarrow> (Err e, a, c1)
           | (Inr _, c1) \<Rightarrow> readPages fn fails 0 c1 a))"

text \<open>The client's loop is the codec's reader on the bytes it has received.\<close>

fun stream_result :: "stream_error + unit \<Rightarrow> client_error + unit" where
  "stream_result (Inr u) = Ok ()"
| "stream_result (Inl (StreamWire e)) = Err (ClientWire e)"
| "stream_result (Inl (RemoteError st msg)) = Err (ClientRemote st msg)"
| "stream_result (Inl ErrStreamStopped) = Err ClientStreamStopped"

lemma readPages_stream:
  "readPages fn (\<lambda>_. False) i c a =
     (case ReadRangeStream fn (cl_in c) a of (r, a', rest) \<Rightarrow> (stream_result r, a', c\<lparr>cl_in := rest\<rparr>))"
proof (induction "cl_in c" arbitrary: i c a rule: length_induct)
  case 1
  show ?case
  proof (cases "ReadFrame (cl_in c)")
    case (Inl e)
    then show ?thesis by (subst readPages.simps, subst ReadRangeStream.simps) (simp add: recvFrame_def)
  next
    case (Inr p)
    obtain tag body rest where p: "p = (tag, body, rest)" by (cases p)
    have "length rest < length (cl_in c)" using ReadFrame_shrinks Inr p by fastforce
    then have ih: "readPages fn (\<lambda>_. False) (Suc i) (c\<lparr>cl_in := rest\<rparr>) a' =
       (case ReadRangeStream fn rest a' of (r, a', rest) \<Rightarrow> (stream_result r, a', c\<lparr>cl_in := rest\<rparr>))" for a'
      using 1 [rule_format, of rest "c\<lparr>cl_in := rest\<rparr>"] by simp
    show ?thesis
      by (subst readPages.simps, subst ReadRangeStream.simps)
        (auto simp: recvFrame_def Inr p ih split: sum.split option.split prod.split)
  qed
qed

end
