(* ===== verification/Remote.thy ===== *)
theory Remote
  imports Server Client
begin

text \<open>
  The whole stack: the client talking to the server over a connection, the server calling
  the engine. The composition is again a \<open>kv_store\<close>: the locale that describes the engine to
  its callers is interpreted on the client's calls, so a remote client sees the same map.
\<close>

section \<open>The server as the client's peer\<close>

definition fresh_conn :: conn where
  "fresh_conn = \<lparr>c_out = [], c_writes = 0, c_fault = \<lambda>_. \<lparr>ff_deadline = False, ff_write = \<lambda>_. None\<rparr>\<rparr>"

definition server_peer :: "texts \<Rightarrow> (nat \<Rightarrow> turn_env) \<Rightarrow> server peer" where
  "server_peer tx env bs sv = (case handleConn tx env 0 bs sv fresh_conn of (sv', c) \<Rightarrow> (c_out c, sv'))"

definition quiet :: "dispatch_env \<Rightarrow> nat \<Rightarrow> turn_env" where
  "quiet de i = \<lparr>te_draining = False, te_readFails = False, te_dispatch = de\<rparr>"

lemma fresh_conn_clean [simp]: "clean fresh_conn" "c_out fresh_conn = []"
  by (simp_all add: fresh_conn_def clean_def)

lemma quiet_simps [simp]:
  "\<not> te_draining (quiet de i)" "\<not> te_readFails (quiet de i)" "te_dispatch (quiet de i) = de"
  by (simp_all add: quiet_def)

text \<open>One request on the connection: the server answers it and waits for the next.\<close>

lemma handleConn_end: "handleConn tx (quiet de) i [] sv c = (sv, c)"
  by (subst handleConn.simps) (simp add: ReadRequest_def ReadFrame_def wireReadFull_def)

lemma server_turn:
  assumes "EncodeRequest req = Ok f" "request_norm req" "dispatch tx de req sv fresh_conn = (Ok (), sv', c')"
  shows "server_peer tx (quiet de) f sv = (c_out c', sv')"
proof -
  have "ReadRequest f = (Ok req, [])" using request_roundtrip_fwd [OF assms(2,1), of "[]"] by simp
  then have "handleConn tx (quiet de) 0 f sv fresh_conn = (sv', c')"
    by (subst handleConn.simps) (simp add: assms(3) handleConn_end)
  then show ?thesis by (simp add: server_peer_def)
qed

section \<open>Unary responses\<close>

definition response_of :: "texts \<Rightarrow> engine_error + bytes \<Rightarrow> Status \<times> bytes" where
  "response_of tx r =
     (case r of Inl e \<Rightarrow> (fst (classifyEngineErr tx e), EncodeError (snd (classifyEngineErr tx e))) | Inr body \<Rightarrow> (StatusOK, body))"

lemma classify_not_OK: "fst (classifyEngineErr tx e) \<noteq> StatusOK"
  by (simp add: classifyEngineErr_def wire_statuses)

lemma writeEngineErr_clean:
  assumes "clean c"
  shows "\<exists>f c'. writeEngineErr tx e c = ((fst (classifyEngineErr tx e), Ok ()), c') \<and>
    EncodeFrame (fst (classifyEngineErr tx e)) (EncodeError (snd (classifyEngineErr tx e))) = Ok f \<and> c_out c' = c_out c @ f"
  using writeError_clean [OF assms classify_not_OK, of tx e "snd (classifyEngineErr tx e)"]
  by (cases "classifyEngineErr tx e") (auto simp: writeEngineErr_def)

lemma reply_clean:
  assumes "clean c" "\<And>b. r = Ok b \<Longrightarrow> length b < MaxFramePayload"
  shows "\<exists>f c'. reply tx r sv c = ((fst (response_of tx r), Ok ()), sv, c') \<and>
    EncodeFrame (fst (response_of tx r)) (snd (response_of tx r)) = Ok f \<and> c_out c' = c_out c @ f"
proof (cases r)
  case (Inl e)
  then show ?thesis using writeEngineErr_clean [OF assms(1), of tx e] by (auto simp: reply_def response_of_def)
next
  case (Inr b)
  then show ?thesis using writeFrame_clean [OF assms(1), of b StatusOK] assms(2) by (auto simp: reply_def response_of_def)
qed

text \<open>A call whose dispatch writes one frame is answered with that frame's status and body.\<close>

lemma unary_roundtrip:
  assumes "EncodeRequest req = Ok f" "request_norm req" "dispatch tx de req (cl_peer c) fresh_conn = (Ok (), sv', c')"
    and "EncodeFrame st body = Ok g" "c_out c' = g" "cl_open c" "cl_in c = []"
  shows "roundTripUnary (server_peer tx (quiet de)) no_client_fault req c = (Ok (st, body), c\<lparr>cl_peer := sv'\<rparr>)"
proof -
  have "deliver (server_peer tx (quiet de)) f c = c\<lparr>cl_in := g, cl_peer := sv'\<rparr>"
    using server_turn [OF assms(1-3)] assms(5,7) by (simp add: deliver_def)
  moreover have "ReadFrame g = Ok (st, body, [])" using ReadFrame_EncodeFrame [OF assms(4), of "[]"] by simp
  ultimately show ?thesis
    using assms(1,6,7) by (simp add: roundTripUnary_def sendRequest_def setDeadlines_def no_client_fault_def recvFrame_def)
qed

lemma unary_rejected:
  assumes "EncodeRequest req = Err e"
  shows "\<exists>x. roundTripUnary peer ft req c = (Err x, c)"
  using assms by (auto simp: roundTripUnary_def sendRequest_def split: sum.splits)

section \<open>Engine results without fsync faults\<close>

definition good_dispatch :: "dispatch_env \<Rightarrow> bool" where
  "good_dispatch de \<longleftrightarrow> good_submit (de_submit de) \<and> se_syncW (de_submit de) = None \<and> \<not> se_syncS (de_submit de) \<and>
     de_read de = ok_read"

lemma submit_ok_applied:
  assumes "store_inv db m" "valid_request req" "good_submit env" "se_syncW env = None" "\<not> se_syncS env" "submit env req db = (r, db')"
  shows "applied r \<longleftrightarrow> is_ok r"
proof (cases "db_closed db \<or> db_writesDisabled db")
  case True
  then show ?thesis using assms(6) by (auto simp: submit_def split: if_splits)
next
  case False
  obtain L where inv: "db_inv L db m" using assms(1) by (auto simp: store_inv_def)
  obtain r0 db1 where one: "handleOne (se_req env) req db = (r0, db1)" by (metis surj_pair)
  have range: "int64_range (we_now (qe_write (se_req env)))" using assms(3) by (simp add: good_submit_def)
  have plain: "applied (reply_of r0) \<longleftrightarrow> is_ok (reply_of r0)"
    using applied_reply_of [of r0] handleOne_no_fsync [OF one] by (auto simp: reply_of_def split: sum.splits)
  have pb: "processBurst None False [(se_req env, req)] db = ([r], db')"
    using assms(4-6) False by (auto simp: submit_def processBurst_def one split: if_splits option.splits sum.splits prod.splits)
  show ?thesis
  proof (cases "r0 = Ok True")
    case True
    then obtain L1 m1 a where "active_ok db1 a" "db_inv L1 db1 m1"
      using handleOne_inv [OF inv assms(2) range one] by auto
    then have act: "active_ok db1 a" and "segs_inv L1 db1" by (simp_all add: db_inv_def)
    then obtain b f s where b: "active_seg db1 = Some (b, f, s)" "db_active db1 = Some b" "map_get (db_segments db1) b = Some s" "seg_good (L1 b) f s"
      by (auto elim!: segs_inv_active)
    then have "seg_ok f s" using act seg_good_whole by (auto simp: active_ok_def)
    then obtain f1 s1 where "seg_sync None False f s = (Ok (), f1, s1)"
      using seg_flush_total by (fastforce simp: seg_sync_def fullSync_def)
    then have "r = reply_of r0" using pb one b(1) True by (auto simp: processBurst_def reply_of_def split: if_splits)
    then show ?thesis using plain by simp
  next
    case False
    then have "r = reply_of r0" using pb one by (auto simp: processBurst_def)
    then show ?thesis using plain by simp
  qed
qed

lemma client_exec_applied:
  assumes "store_inv db m" "good_dispatch de" "client_exec (de_submit de) q db = (r, db')"
  shows "applied r \<longleftrightarrow> is_ok r"
proof -
  have g: "good_submit (de_submit de)" "se_syncW (de_submit de) = None" "\<not> se_syncS (de_submit de)"
    using assms(2) by (simp_all add: good_dispatch_def)
  note s = submit_ok_applied [OF assms(1) _ g]
  show ?thesis
  proof (cases q)
    case (CPut key v)
    show ?thesis
    proof (cases "validateKeyValue key v")
      case (Inl e)
      then have "r = Err e" using assms(3) CPut by (simp add: Put_def)
      then show ?thesis using validate_not_applied [OF Inl] by simp
    next
      case (Inr u)
      then show ?thesis using assms(3) CPut s [of "WPut key v" r db'] validateKeyValue_Ok [of key v] by (simp add: Put_def)
    qed
  next
    case (CDelete key)
    then show ?thesis using assms(3) s [of "WDelete key" r db'] by (auto simp: Delete_def split: if_splits)
  next
    case (CBatch es)
    consider "r = Ok ()" | "r = Err ErrBatchTooLarge" | e where "validateEntries 0 es = Err e" "r = Err e"
      | "valid_request (WBatch es)" "submit (de_submit de) (WBatch es) db = (r, db')"
      using assms(1,3) CBatch batch_valid_request [of es]
      by (cases "validateEntries 0 es") (auto simp: BatchPut_def store_inv_def not_less split: if_splits)
    then show ?thesis
    proof cases
      case 3
      then show ?thesis using validateEntries_not_applied [OF 3(1)] by simp
    next
      case 4
      then show ?thesis by (rule s)
    qed simp_all
  qed
qed

section \<open>The remote store\<close>

text \<open>Keys and values within the wire limits, which are the engine's limits.\<close>

definition store_within :: "store \<Rightarrow> bool" where
  "store_within m \<longleftrightarrow> (\<forall>k v. m k = Some v \<longrightarrow> 0 < length k \<and> length k \<le> MaxKeyLen \<and> length v \<le> MaxValLen)"

definition remote_inv :: "server client \<Rightarrow> store \<Rightarrow> bool" where
  "remote_inv c m \<longleftrightarrow> cl_open c \<and> cl_in c = [] \<and> store_inv (sv_db (cl_peer c)) m \<and> store_within m"

definition wire_entry_of :: "batch_entry \<Rightarrow> wire_entry" where
  "wire_entry_of e = \<lparr>wb_Delete = be_delete e, wb_Key = be_key e, wb_Value = be_value e\<rparr>"

fun remote_exec :: "texts \<times> dispatch_env \<Rightarrow> client_op \<Rightarrow> server client \<Rightarrow> (client_error + unit) \<times> server client" where
  "remote_exec (tx, de) (CPut k v) c = client_Put (server_peer tx (quiet de)) no_client_fault k v c"
| "remote_exec (tx, de) (CDelete k) c = client_Delete (server_peer tx (quiet de)) no_client_fault k c"
| "remote_exec (tx, de) (CBatch es) c = client_Batch (server_peer tx (quiet de)) no_client_fault (map wire_entry_of es) c"

definition remote_get :: "texts \<Rightarrow> dispatch_env \<Rightarrow> bytes \<Rightarrow> server client \<Rightarrow> bytes option" where
  "remote_get tx de key c =
     (case fst (client_Get (server_peer tx (quiet de)) no_client_fault key c) of Inl _ \<Rightarrow> None | Inr v \<Rightarrow> Some v)"

fun op_request :: "client_op \<Rightarrow> request" where
  "op_request (CPut k v) = PutRequest k v"
| "op_request (CDelete k) = DeleteRequest k"
| "op_request (CBatch es) = BatchRequest (map wire_entry_of es)"

lemma remote_exec_call: "remote_exec (tx, de) q c = unaryCall (server_peer tx (quiet de)) no_client_fault (op_request q) c"
  by (cases q) (simp_all add: client_Put_def client_Delete_def client_Batch_def)

lemma engine_entry_of [simp]: "engine_entry (wire_entry_of e) = e"
  by (simp add: engine_entry_def wire_entry_of_def)

lemma dispatchOnce_op:
  "dispatchOnce tx de (op_request q) sv c =
     (case client_exec (de_submit de) q (sv_db sv) of (r, db) \<Rightarrow> reply tx (map_sum id (\<lambda>_. []) r) (sv\<lparr>sv_db := db\<rparr>) c)"
proof -
  have "map engine_entry (map wire_entry_of es) = es" for es by (induction es) simp_all
  then show ?thesis by (cases q) (simp_all del: map_map)
qed

lemma op_request_norm [simp]: "request_norm (op_request q)"
  by (cases q) (simp_all add: request_norm_def)

lemma statusToErr_response:
  "statusToErr (fst (response_of tx r)) (snd (response_of tx r)) = None \<longleftrightarrow> is_ok r"
  using classify_not_OK [of tx] by (cases r) (auto simp: statusToErr_def response_of_def split: sum.split)

lemma remote_exec_steps:
  assumes "remote_inv c m" "EncodeRequest (op_request q) = Ok f" "client_exec (de_submit de) q (sv_db (cl_peer c)) = (r, db')"
  shows "\<exists>x. remote_exec (tx, de) q c = (x, c\<lparr>cl_peer := (cl_peer c)\<lparr>sv_db := db'\<rparr>\<rparr>) \<and> is_ok x = is_ok r"
proof -
  let ?r = "map_sum id (\<lambda>_. []) r :: engine_error + bytes"
  obtain g c' where w: "reply tx ?r ((cl_peer c)\<lparr>sv_db := db'\<rparr>) fresh_conn = ((fst (response_of tx ?r), Ok ()), (cl_peer c)\<lparr>sv_db := db'\<rparr>, c')"
    "EncodeFrame (fst (response_of tx ?r)) (snd (response_of tx ?r)) = Ok g" "c_out c' = g"
    using reply_clean [of fresh_conn ?r tx] by (fastforce simp: map_sum_Ok_iff wire_limits)
  have d: "dispatch tx de (op_request q) (cl_peer c) fresh_conn = (Ok (), (cl_peer c)\<lparr>sv_db := db'\<rparr>, c')"
    by (simp add: dispatch_def dispatchOnce_op assms(3) w(1))
  have rt: "roundTripUnary (server_peer tx (quiet de)) no_client_fault (op_request q) c = (Ok (response_of tx ?r), c\<lparr>cl_peer := (cl_peer c)\<lparr>sv_db := db'\<rparr>\<rparr>)"
    using unary_roundtrip [OF assms(2) _ d w(2,3)] assms(1) by (simp add: remote_inv_def)
  have "is_ok ?r = is_ok r" by (cases r) simp_all
  then show ?thesis
    using rt statusToErr_response [of tx ?r] unfolding remote_exec_call unaryCall_def
    by (cases "statusToErr (fst (response_of tx ?r)) (snd (response_of tx ?r))") (auto simp: or_error_def split: prod.splits)
qed

lemma within_updates:
  assumes "store_within m" "EncodeRequest (op_request q) = Ok f"
  shows "store_within (apply_updates m (client_updates q))"
proof -
  have "0 < length k \<and> length k \<le> MaxKeyLen \<and> length v \<le> MaxValLen" if "(k, Some v) \<in> set (client_updates q)" for k v
    using assms(2) that
    by (cases q) (auto simp: EncodeRequest_def encodePut_Ok_iff encodeBatch_Ok_iff list_all_iff wire_entry_ok_def wire_entry_of_def
        split: sum.splits if_splits)
  moreover have "(k, Some v) \<in> set (client_updates q) \<or> m k = Some v" if "apply_updates m (client_updates q) k = Some v" for k v
    using that by (auto simp: apply_updates_lookup dest!: map_of_SomeD split: option.splits)
  ultimately show ?thesis using assms(1) unfolding store_within_def by blast
qed

lemma remote_exec_inv:
  assumes "remote_inv c m" "good_dispatch (snd e)" "remote_exec e q c = (x, c')"
  shows "remote_inv c' (if is_ok x then apply_updates m (client_updates q) else m)"
proof -
  obtain tx de where e: "e = (tx, de)" by (cases e)
  have si: "store_inv (sv_db (cl_peer c)) m" "store_within m" using assms(1) by (simp_all add: remote_inv_def)
  show ?thesis
  proof (cases "EncodeRequest (op_request q)")
    case (Inl err)
    then show ?thesis
      using unary_rejected [OF Inl, of "server_peer tx (quiet de)" no_client_fault c] assms(1,3) e
      by (auto simp: remote_exec_call unaryCall_def)
  next
    case (Inr f)
    obtain r db' where r: "client_exec (de_submit de) q (sv_db (cl_peer c)) = (r, db')" by (metis surj_pair)
    have c': "c' = c\<lparr>cl_peer := (cl_peer c)\<lparr>sv_db := db'\<rparr>\<rparr>" "is_ok x = is_ok r"
      using remote_exec_steps [OF assms(1) Inr r, of tx] assms(3) e by auto
    have gd: "good_dispatch de" "good_submit (de_submit de)" using assms(2) e by (simp_all add: good_dispatch_def)
    have "applied r = is_ok r" by (rule client_exec_applied [OF si(1) gd(1) r])
    with client_exec_inv [OF si(1) gd(2) r] within_updates [OF si(2) Inr] si(2) assms(1) c' show ?thesis
      by (auto simp: remote_inv_def)
  qed
qed

lemma remote_get_store:
  assumes "remote_inv c m" "key \<noteq> []" "de_read de = ok_read"
  shows "fst (client_Get (server_peer tx (quiet de)) no_client_fault key c) =
      (if length key > MaxKeyLen then Err (ClientWire (ProtocolError (KeyLenExceedsMax (length key))))
       else case m key of None \<Rightarrow> Err ErrNotFound | Some v \<Rightarrow> Ok v) \<and>
    snd (client_Get (server_peer tx (quiet de)) no_client_fault key c) = c"
proof (cases "length key > MaxKeyLen")
  case True
  then have "EncodeRequest (GetRequest key) = Err (ProtocolError (KeyLenExceedsMax (length key)))"
    using assms(2) by (simp add: EncodeRequest_def encodeKeyOnly_def checkKey_def)
  then show ?thesis using True assms(1)
    by (simp add: client_Get_def roundTripUnary_def sendRequest_def setDeadlines_def no_client_fault_def remote_inv_def)
next
  case False
  let ?req = "GetRequest key"
  obtain L where inv: "db_inv L (sv_db (cl_peer c)) m" "\<not> db_closed (sv_db (cl_peer c))" and within: "store_within m"
    and open_c: "cl_open c" "cl_in c = []"
    using assms(1) by (auto simp: remote_inv_def store_inv_def)
  have g: "Get (de_read de) key (sv_db (cl_peer c)) = (case m key of None \<Rightarrow> Err ErrKeyNotFound | Some v \<Rightarrow> Ok v)"
    using Get_store [OF inv assms(2)] assms(3) by simp
  have kb: "encodeRequestBody ?req = Ok (BE_PutUint32 (word_of_nat (length key)) @ key)"
    using False assms(2) by (simp add: encodeKeyOnly_Ok_iff)
  obtain f where f: "EncodeRequest ?req = Ok f"
    using kb False by (auto simp: EncodeRequest_def EncodeFrame_Ok_iff wire_limits)
  have n: "request_norm ?req" by (simp add: request_norm_def)
  have same: "c\<lparr>cl_peer := cl_peer c\<rparr> = c" by simp
  show ?thesis
  proof (cases "m key")
    case None
    have "StatusNotFound \<noteq> StatusOK" by (simp add: wire_statuses)
    then obtain h c' where w: "writeError StatusNotFound [] fresh_conn = (Ok (), c')" "EncodeFrame StatusNotFound (EncodeError []) = Ok h" "c_out c' = h"
      using writeError_clean [of fresh_conn StatusNotFound "[]"] by auto
    have "dispatch tx de ?req (cl_peer c) fresh_conn = (Ok (), cl_peer c, c')"
      by (simp add: dispatch_def g None w(1))
    from unary_roundtrip [OF f n this w(2,3) open_c] None False show ?thesis by (simp add: client_Get_def)
  next
    case (Some v)
    then have lv: "length v \<le> MaxValLen" using within by (simp add: store_within_def)
    then obtain b where b: "EncodeGetOK v = Ok b" "length b < MaxFramePayload" by (auto simp: EncodeGetOK_def wire_limits)
    then obtain h c' where w: "writeFrame StatusOK b fresh_conn = (Ok (), c')" "EncodeFrame StatusOK b = Ok h" "c_out c' = h"
      using writeFrame_clean [of fresh_conn b StatusOK] by auto
    have "dispatch tx de ?req (cl_peer c) fresh_conn = (Ok (), cl_peer c, c')"
      by (simp add: dispatch_def g Some b(1) w(1))
    moreover have "DecodeGetOK b = Ok v" by (rule get_ok.dec_enc [OF b(1)]) simp
    ultimately show ?thesis
      using unary_roundtrip [OF f n _ w(2,3) open_c] Some False by (simp add: client_Get_def wire_result_def wire_statuses)
  qed
qed

lemma remote_get_inv:
  assumes "remote_inv c m" "key \<noteq> []"
  shows "remote_get tx \<lparr>de_submit = ok_submit_env 0, de_read = ok_read\<rparr> key c = m key"
proof -
  have "m key = None" if "length key > MaxKeyLen"
    using assms(1) that unfolding remote_inv_def store_within_def by (metis leD not_None_eq)
  then show ?thesis
    using remote_get_store [OF assms, of "\<lparr>de_submit = ok_submit_env 0, de_read = ok_read\<rparr>" tx]
    by (auto simp: remote_get_def split: option.splits)
qed

interpretation remote: kv_store remote_inv remote_exec client_updates is_ok "\<lambda>e. good_dispatch (snd e)"
  "remote_get tx \<lparr>de_submit = ok_submit_env 0, de_read = ok_read\<rparr>" for tx
  by unfold_locales (fact remote_exec_inv, fact remote_get_inv)

section \<open>Properties\<close>

text \<open>
  C3. The whole stack is a key-value store. A client issues any sequence of puts, deletes and
  batches over the wire; the server decodes, dispatches and answers each; the engine may fail
  underneath in any way but an fsync failure after the append, whose effect a remote caller
  cannot tell. Then a remote read returns the value of the last call for its key that was
  answered with success, what the store held before if there is none, and \<open>ErrNotFound\<close> when
  that is nothing.
\<close>

theorem remote_last_write_wins:
  assumes "remote_inv c m" "\<forall>(e, q) \<in> set qs. good_dispatch (snd e)" "run_ops remote_exec qs c = (rs, c')"
    and "key \<noteq> []" "length key \<le> MaxKeyLen" "de_read de = ok_read"
  shows "fst (client_Get (server_peer tx (quiet de)) no_client_fault key c') =
    (case (case map_of (rev (done_updates is_ok client_updates rs qs)) key of None \<Rightarrow> m key | Some ov \<Rightarrow> ov) of
       None \<Rightarrow> Err ErrNotFound | Some v \<Rightarrow> Ok v)"
proof -
  have "remote_inv c' (apply_updates m (done_updates is_ok client_updates rs qs))"
    using remote.run_inv [OF assms(1-3)] by blast
  from remote_get_store [OF this assms(4,6), of tx] show ?thesis
    using assms(5) by (simp add: apply_updates_lookup)
qed

text \<open>A server on a fresh database, and a client connected to it.\<close>

definition no_texts :: texts where
  "no_texts = \<lparr>tx_engine = \<lambda>_. [], tx_wire = \<lambda>_. [], tx_protocol = \<lambda>_. []\<rparr>"

definition small_server :: server where
  "small_server = New (empty_db small_opts) \<lparr>so_Addr = [], so_ReadDeadline = 0, so_WriteDeadline = 0,
     so_MaxConcurrentRangeStreams = 0, so_MaxRangeResponseBytes = 0\<rparr>"

definition small_client :: "server client" where
  "small_client = NewClient small_server \<lparr>co_DialTimeout = 0, co_RequestTimeout = 0\<rparr>"

definition small_dispatch :: dispatch_env where
  "small_dispatch = \<lparr>de_submit = ok_submit_env 5, de_read = ok_read\<rparr>"

lemma small_remote: "remote_inv small_client Map.empty" "sv_db small_server = empty_db small_opts"
    "sv_rangeSem small_server = 0" "so_MaxConcurrentRangeStreams (sv_opts small_server) = 4" "cl_peer small_client = small_server"
    "so_MaxRangeResponseBytes (sv_opts small_server) = 64 * 1024 * 1024"
  using small_store
  by (simp_all add: remote_inv_def small_client_def NewClient_def small_server_def New_def Let_def store_within_def
      defaultMaxConcurrentRangeStreams_def defaultMaxRangeResponseBytes_def)

lemma small_dispatch_good: "good_dispatch small_dispatch" "de_read small_dispatch = ok_read"
  by (simp_all add: good_dispatch_def small_dispatch_def good_submit_def ok_submit_env_def ok_request_env_def ok_write_env_def int64_range_def)

theorem remote_last_write_wins_witness:
  "fst (client_Get (server_peer no_texts (quiet small_dispatch)) no_client_fault [1]
      (snd (run_ops remote_exec [((no_texts, small_dispatch), CPut [1] [2])] small_client))) = Ok [2]"
proof -
  let ?qs = "[((no_texts, small_dispatch), CPut [1] [2])]"
  obtain db' where "Put (ok_submit_env 5) [1] [2] (empty_db small_opts) = (Ok (), db')" using empty_put_ok by blast
  then have p: "client_exec (de_submit small_dispatch) (CPut [1] [2]) (sv_db (cl_peer small_client)) = (Ok (), db')"
    by (simp add: small_remote small_dispatch_def)
  have "encodeRequestBody (PutRequest [1] [2]) = Ok (kv_bytes [1] [2])" by (simp add: encodePut_Ok_iff wire_limits)
  then obtain f where "EncodeRequest (op_request (CPut [1] [2])) = Ok f"
    by (auto simp: EncodeRequest_def EncodeFrame_Ok_iff wire_limits)
  from remote_exec_steps [OF small_remote(1) this p, of no_texts] obtain x c'
    where x: "remote_exec (no_texts, small_dispatch) (CPut [1] [2]) small_client = (x, c')" "is_ok x" by auto
  then have r: "run_ops remote_exec ?qs small_client = ([x], c')" by simp
  have "\<forall>(e, q) \<in> set ?qs. good_dispatch (snd e)" by (simp add: small_dispatch_good)
  from remote_last_write_wins [OF small_remote(1) this r _ _ small_dispatch_good(2), of "[1]" no_texts] show ?thesis
    unfolding r using x(2) by (simp add: done_updates_def wire_limits)
qed

section \<open>Remote range reads\<close>

text \<open>What the server writes for a range request when the scan succeeds.\<close>

lemma handleRange_clean:
  assumes "rangeSnapshot rf start stop (sv_db sv) = Ok ms" "list_all (\<lambda>kv. pair_ok (to_kv kv)) ms" "clean c"
    and "int (sv_rangeSem sv) < so_MaxConcurrentRangeStreams (sv_opts sv)"
  shows "\<exists>n c' pages out f. n \<le> length ms \<and>
    handleRange tx rf start stop sv c = ((if n < length ms then StatusOverload else StatusOK, Ok ()), sv, c') \<and> clean c' \<and>
    c_out c' = c_out c @ out @ f \<and> page_frames pages out \<and> [] \<notin> set pages \<and> concat pages = map to_kv (take n ms) \<and>
    int (stream_size pages) \<le> max 0 (so_MaxRangeResponseBytes (sv_opts sv)) \<and>
    (n < length ms \<longrightarrow> exceeds (so_MaxRangeResponseBytes (sv_opts sv)) (ms ! n) (int (stream_size pages))) \<and>
    (if n < length ms then EncodeFrame StatusOverload (EncodeError (ascii ''range response exceeds byte cap'')) = Ok f
     else EncodeFrame StatusOK EncodeRangeEnd = Ok f)"
proof -
  let ?cap = "so_MaxRangeResponseBytes (sv_opts sv)"
  let ?start = "\<lparr>rs_page = [], rs_pageBytes = 0, rs_streamedBytes = 0, rs_writeErr = None, rs_overloaded = False, rs_conn = c\<rparr>"
  let ?s = "callbacks (rangeCallback ?cap) ms ?start"
  have i0: "range_inv ?cap rangePageFlushBytes (c_out c) [] ?start"
    by (auto simp: range_inv_def rangePageFlushBytes_def intro!: exI [of _ "[]"])
  obtain n where n: "n \<le> length ms" "range_inv ?cap rangePageFlushBytes (c_out c) (map to_kv (take n ms)) ?s"
    "rs_overloaded ?s \<longleftrightarrow> n < length ms" "c_fault (rs_conn ?s) = c_fault c"
    "n < length ms \<Longrightarrow> exceeds ?cap (ms ! n) (rs_streamedBytes ?s + int (rs_pageBytes ?s))"
    using callbacks_range [OF i0 assms(2)] assms(3) by auto
  have cl: "clean (rs_conn ?s)" using n(4) assms(3) by (simp add: clean_def)
  from finishRange_clean [OF n(2) cl, of tx] obtain c' pages out f where
    f: "finishRange tx (Ok ()) ?s = ((if rs_overloaded ?s then StatusOverload else StatusOK, Ok ()), c')" "clean c'"
      "c_out c' = c_out c @ out @ f" "page_frames pages out" "[] \<notin> set pages" "concat pages = map to_kv (take n ms)" "int (stream_size pages) \<le> max 0 ?cap"
      "rs_streamedBytes ?s + int (rs_pageBytes ?s) \<le> int (stream_size pages)"
      "if rs_overloaded ?s then EncodeFrame StatusOverload (EncodeError (ascii ''range response exceeds byte cap'')) = Ok f
       else EncodeFrame StatusOK EncodeRangeEnd = Ok f" by blast
  have "handleRange tx rf start stop sv c = ((if n < length ms then StatusOverload else StatusOK, Ok ()), sv, c')"
    using f(1) n(3) assms(1,4) by (simp add: handleRange_def Let_def ReadKeyRange_def)
  moreover have "n < length ms \<longrightarrow> exceeds ?cap (ms ! n) (int (stream_size pages))" using n(5) f(8) exceeds_mono by blast
  ultimately show ?thesis using n(1) f(2-7) f(9) [unfolded n(3)] by blast
qed

lemma snapshot_pairs_ok:
  assumes "store_within m" "set ms = {(k, v). m k = Some v \<and> in_range start stop k}"
  shows "list_all (\<lambda>kv. pair_ok (to_kv kv)) ms"
  using assms unfolding list_all_iff pair_ok_def store_within_def by force

text \<open>For any callback that goes on: it is given the pages one after the other.\<close>

lemma remote_range_pages:
  assumes "remote_inv c m" "range_norm (start, stop)" "EncodeRequest (ReadKeyRangeRequest start stop) = Ok f"
    and "int (sv_rangeSem (cl_peer c)) < so_MaxConcurrentRangeStreams (sv_opts (cl_peer c))" "de_read de = ok_read"
    and "\<And>ps a. P a \<Longrightarrow> fn ps a = (True, h ps a) \<and> P (h ps a)" "P a"
  shows "\<exists>ms n pages. sorted_wrt (<) (map fst ms) \<and> set ms = {(k, v). m k = Some v \<and> in_range start stop k} \<and> n \<le> length ms \<and>
    concat pages = map to_kv (take n ms) \<and>
    client_ReadKeyRange (server_peer tx (quiet de)) no_client_fault (\<lambda>_. False) start stop (Some fn) c a =
      (if n < length ms then Err (ClientRemote StatusOverload (ascii ''range response exceeds byte cap'')) else Ok (), fold h pages a, c)"
proof -
  let ?sv = "cl_peer c" and ?req = "ReadKeyRangeRequest start stop"
  obtain L where inv: "db_inv L (sv_db ?sv) m" "\<not> db_closed (sv_db ?sv)" and within: "store_within m" and oc: "cl_open c" "cl_in c = []"
    using assms(1) by (auto simp: remote_inv_def store_inv_def)
  obtain ms where ms: "rangeSnapshot ok_read start stop (sv_db ?sv) = Ok ms" "sorted_wrt (<) (map fst ms)"
    "set ms = {(k, v). m k = Some v \<and> in_range start stop k}"
    using rangeSnapshot_store [OF inv] by blast
  obtain n c' pages out g where h: "n \<le> length ms"
    "handleRange tx ok_read start stop ?sv fresh_conn = ((if n < length ms then StatusOverload else StatusOK, Ok ()), ?sv, c')"
    "c_out c' = c_out fresh_conn @ out @ g" "page_frames pages out" "concat pages = map to_kv (take n ms)"
    "if n < length ms then EncodeFrame StatusOverload (EncodeError (ascii ''range response exceeds byte cap'')) = Ok g
     else EncodeFrame StatusOK EncodeRangeEnd = Ok g"
    using handleRange_clean [OF ms(1) snapshot_pairs_ok [OF within ms(3)] fresh_conn_clean(1) assms(4), of tx] by blast
  have "dispatch tx de ?req ?sv fresh_conn = (Ok (), ?sv, c')" using h(2) assms(5) by (simp add: dispatch_def)
  from server_turn [OF assms(3) _ this] have "server_peer tx (quiet de) f ?sv = (out @ g, ?sv)"
    using assms(2) h(3) by (simp add: request_norm_def)
  then have "sendRequest (server_peer tx (quiet de)) no_client_fault ?req c = (Ok (), c\<lparr>cl_in := out @ g\<rparr>)"
    using assms(3) oc by (simp add: sendRequest_def setDeadlines_def no_client_fault_def deliver_def)
  moreover have "take MaxErrMsgLen (ascii ''range response exceeds byte cap'') = ascii ''range response exceeds byte cap''"
    by (simp add: ascii_def MaxErrMsgLen_def)
  then have "ReadRangeStream fn (out @ g) a =
      (if n < length ms then Err (RemoteError StatusOverload (ascii ''range response exceeds byte cap'')) else Ok (), fold h pages a, [])"
    using stream_pages [OF h(4), of P fn h, OF assms(6,7), of g] h(6)
      stream_error [of StatusOverload "ascii ''range response exceeds byte cap''" g fn "[]"] stream_end [of g fn "[]"] by (auto simp: wire_statuses)
  ultimately have "client_ReadKeyRange (server_peer tx (quiet de)) no_client_fault (\<lambda>_. False) start stop (Some fn) c a =
      (if n < length ms then Err (ClientRemote StatusOverload (ascii ''range response exceeds byte cap'')) else Ok (), fold h pages a, c)"
    using oc by (simp add: client_ReadKeyRange_def readPages_stream)
  then show ?thesis using ms h(1,5) by blast
qed

lemma fold_collect: "fold (\<lambda>ps acc. acc @ ps) pages acc = acc @ concat pages"
  by (induction pages arbitrary: acc) simp_all

text \<open>
  A remote range read is a consistent, ordered snapshot. Over a healthy connection and with a
  free stream slot, the client's page callback receives, in ascending key order and without
  gaps, exactly the pairs the store holds in the range, or, when the response would exceed
  the server's byte cap, a proper prefix of them followed by an OVERLOAD error. Nothing is left on the
  connection, the stream slot is released and the database is unchanged.
\<close>

theorem remote_range_correct:
  assumes "remote_inv c m" "range_norm (start, stop)" "EncodeRequest (ReadKeyRangeRequest start stop) = Ok f"
    and "int (sv_rangeSem (cl_peer c)) < so_MaxConcurrentRangeStreams (sv_opts (cl_peer c))" "de_read de = ok_read"
  shows "\<exists>ms n. sorted_wrt (<) (map fst ms) \<and> set ms = {(k, v). m k = Some v \<and> in_range start stop k} \<and> n \<le> length ms \<and>
    client_ReadKeyRange (server_peer tx (quiet de)) no_client_fault (\<lambda>_. False) start stop (Some collect) c [] =
      (if n < length ms then Err (ClientRemote StatusOverload (ascii ''range response exceeds byte cap'')) else Ok (),
       map to_kv (take n ms), c)"
  using remote_range_pages [OF assms, of "\<lambda>_. True" collect "\<lambda>ps acc. acc @ ps" "[]" tx] by (fastforce simp: fold_collect)

theorem remote_range_correct_witness:
  "\<exists>ms n. sorted_wrt (<) (map fst ms) \<and> set ms = {(k, v). Map.empty k = Some v \<and> in_range None (Some [9]) k} \<and> n \<le> length ms \<and>
    client_ReadKeyRange (server_peer no_texts (quiet small_dispatch)) no_client_fault (\<lambda>_. False) None (Some [9]) (Some collect) small_client [] =
      (if n < length ms then Err (ClientRemote StatusOverload (ascii ''range response exceeds byte cap'')) else Ok (),
       map to_kv (take n ms), small_client)"
proof -
  have "encodeRequestBody (ReadKeyRangeRequest None (Some [9])) = Ok (kv_bytes [] [9])"
    by (simp add: encodeReadKeyRange_Ok_iff slice_of_def wire_limits)
  then obtain f where f: "EncodeRequest (ReadKeyRangeRequest None (Some [9])) = Ok f"
    by (auto simp: EncodeRequest_def EncodeFrame_Ok_iff wire_limits)
  show ?thesis
    by (rule remote_range_correct [OF small_remote(1) _ f]) (simp_all add: range_norm_def small_remote small_dispatch_good)
qed

text \<open>
  C19. The byte cap of a range response holds, and it is the only thing that cuts a response short. For a server
  built by \<open>New\<close>, with no stream running and a connection that works, what \<open>handleRange\<close> writes is exactly: the frames of
  some pages, and one last frame, which is the end marker or the error that reports the cap. The pages hold, in
  order, the pairs of the range or a proper prefix of them, their bodies add up to at most \<open>MaxRangeResponseBytes\<close>
  (on the connection five bytes more for each page), every page is within the frame limit, and the answer is cut only where
  the next pair, in a page of its own, would have exceeded the cap.
\<close>

theorem range_response_bounded:
  assumes "store_inv (sv_db sv) m" "store_within m" "clean c" "sv = New db opts"
  shows "\<exists>ms n c' pages out f. sorted_wrt (<) (map fst ms) \<and> set ms = {(k, v). m k = Some v \<and> in_range start stop k} \<and> n \<le> length ms \<and>
    handleRange tx ok_read start stop sv c = ((if n < length ms then StatusOverload else StatusOK, Ok ()), sv, c') \<and>
    c_out c' = c_out c @ out @ f \<and> page_frames pages out \<and> concat pages = map to_kv (take n ms) \<and>
    (if n < length ms then EncodeFrame StatusOverload (EncodeError (ascii ''range response exceeds byte cap'')) = Ok f
     else EncodeFrame StatusOK EncodeRangeEnd = Ok f) \<and>
    length out = stream_size pages + 5 * length pages \<and> int (stream_size pages) \<le> so_MaxRangeResponseBytes (sv_opts sv) \<and>
    (\<forall>ps \<in> set pages. ps \<noteq> [] \<and> (\<exists>b. EncodeRangePage ps = Ok b \<and> length b < MaxFramePayload)) \<and>
    (n < length ms \<longrightarrow> so_MaxRangeResponseBytes (sv_opts sv) <
       int (stream_size pages + 4 + (8 + length (fst (ms ! n)) + length (snd (ms ! n)))))"
proof -
  obtain L where inv: "db_inv L (sv_db sv) m" "\<not> db_closed (sv_db sv)" using assms(1) by (auto simp: store_inv_def)
  obtain ms where ms: "rangeSnapshot ok_read start stop (sv_db sv) = Ok ms" "sorted_wrt (<) (map fst ms)"
    "set ms = {(k, v). m k = Some v \<and> in_range start stop k}"
    using rangeSnapshot_store [OF inv] by blast
  have sem: "int (sv_rangeSem sv) < so_MaxConcurrentRangeStreams (sv_opts sv)"
    and cap: "max 0 (so_MaxRangeResponseBytes (sv_opts sv)) = so_MaxRangeResponseBytes (sv_opts sv)"
    by (simp_all add: assms(4) New_def Let_def defaultMaxConcurrentRangeStreams_def defaultMaxRangeResponseBytes_def)
  from handleRange_clean [OF ms(1) snapshot_pairs_ok [OF assms(2) ms(3)] assms(3) sem, of tx, unfolded cap]
  obtain n c' pages out f where h: "n \<le> length ms"
    "handleRange tx ok_read start stop sv c = ((if n < length ms then StatusOverload else StatusOK, Ok ()), sv, c')"
    "c_out c' = c_out c @ out @ f" "page_frames pages out" "concat pages = map to_kv (take n ms)"
    "if n < length ms then EncodeFrame StatusOverload (EncodeError (ascii ''range response exceeds byte cap'')) = Ok f
     else EncodeFrame StatusOK EncodeRangeEnd = Ok f"
    "int (stream_size pages) \<le> so_MaxRangeResponseBytes (sv_opts sv)"
    "n < length ms \<longrightarrow> exceeds (so_MaxRangeResponseBytes (sv_opts sv)) (ms ! n) (int (stream_size pages))" "[] \<notin> set pages"
    by blast
  have "\<forall>ps \<in> set pages. \<exists>b. EncodeRangePage ps = Ok b \<and> length b < MaxFramePayload"
    using h(4) by (fastforce simp: page_frames_def list_all2_conv_all_nth in_set_conv_nth EncodeFrame_Ok_iff)
  with ms(2,3) h page_frames_length [OF h(4)] show ?thesis
    by (intro exI [of _ ms] exI [of _ n] exI [of _ c'] exI [of _ pages] exI [of _ out] exI [of _ f]) (auto simp: exceeds_def algebra_simps)
qed

theorem range_response_bounded_witness:
  "\<exists>c' f. handleRange no_texts ok_read None None small_server fresh_conn = ((StatusOK, Ok ()), small_server, c') \<and>
    EncodeFrame StatusOK EncodeRangeEnd = Ok f \<and> c_out c' = f"
proof -
  have i: "store_inv (sv_db small_server) Map.empty" "store_within Map.empty"
    using small_remote(1,2) by (simp_all add: remote_inv_def small_remote)
  from range_response_bounded [OF i fresh_conn_clean(1) small_server_def, of None None no_texts]
  obtain c' pages out f where h: "handleRange no_texts ok_read None None small_server fresh_conn = ((StatusOK, Ok ()), small_server, c')"
    "c_out c' = out @ f" "page_frames pages out" "concat pages = []" "EncodeFrame StatusOK EncodeRangeEnd = Ok f"
    "\<forall>ps \<in> set pages. ps \<noteq> []" by auto
  then have "pages = []" by (cases pages) auto
  then show ?thesis using h by (auto simp: page_frames_def)
qed

end
