(* ===== verification/Flags.thy ===== *)
theory Flags
  imports Prelude
begin

text \<open>
  Command-line flags: the part of Go's \<open>flag\<close> package the program uses, and \<open>parseFlags\<close>, \<open>needsFlagSentinel\<close>,
  \<open>isKnownFlagToken\<close> of \<open>cmd/little-db/subcommands.go\<close>, which let flags stand before, between and after the positional arguments.
  A flag set lists each flag with whether it is boolean and which texts its \<open>Set\<close> accepts; parsing yields the settings made, in order, and the
  positional arguments.
\<close>

section \<open>The flag package\<close>

datatype flag_error =
    BadSyntax string
  | NotDefined string
  | ErrHelp
  | NeedsArgument string
  | InvalidValue string string

record flag =
  fl_bool :: bool
  fl_ok :: "string \<Rightarrow> bool"

type_synonym flagset = "(string \<times> flag) list"
type_synonym settings = "(string \<times> string) list"

definition Lookup :: "flagset \<Rightarrow> string \<Rightarrow> flag option" where
  "Lookup fs name = map_of fs name"

text \<open>One token of \<open>parseOne\<close>: the name, its flag, and the value after an equals sign.\<close>

definition flagHead :: "flagset \<Rightarrow> string \<Rightarrow> flag_error + string \<times> flag \<times> string option" where
  "flagHead fs s =
     (let body = drop (if s ! 1 = CHR ''-'' then 2 else 1) s in
      if body = [] \<or> hd body = CHR ''-'' \<or> hd body = CHR ''='' then Err (BadSyntax s)
      else
        let name = takeWhile (\<lambda>c. c \<noteq> CHR ''='') body;
            value = (if CHR ''='' \<in> set body then Some (tl (dropWhile (\<lambda>c. c \<noteq> CHR ''='') body)) else None) in
        (case Lookup fs name of
           None \<Rightarrow> Err (if name = ''help'' \<or> name = ''h'' then ErrHelp else NotDefined name)
         | Some f \<Rightarrow> Ok (name, f, value)))"

definition flagSet :: "flag \<Rightarrow> string \<Rightarrow> string \<Rightarrow> flag_error + settings \<times> string list \<Rightarrow> flag_error + settings \<times> string list" where
  "flagSet f name v rest = (if fl_ok f v then map_sum id (apfst (\<lambda>as. (name, v) # as)) rest else Err (InvalidValue name v))"

text \<open>A boolean flag without a value is set to true; any other takes the next argument.\<close>

definition boolDefault :: "flag \<Rightarrow> string option \<Rightarrow> string option" where
  "boolDefault f value = (if fl_bool f then Some (case value of None \<Rightarrow> ''true'' | Some v \<Rightarrow> v) else value)"

fun flagParse :: "flagset \<Rightarrow> string list \<Rightarrow> flag_error + settings \<times> string list" where
  "flagParse fs [] = Ok ([], [])"
| "flagParse fs (s # args) =
     (if length s < 2 \<or> hd s \<noteq> CHR ''-'' then Ok ([], s # args)
      else if s = ''--'' then Ok ([], args)
      else (case flagHead fs s of
              Inl e \<Rightarrow> Err e
            | Inr (name, f, value) \<Rightarrow>
                (case boolDefault f value of
                   Some v \<Rightarrow> flagSet f name v (flagParse fs args)
                 | None \<Rightarrow> (case args of
                              [] \<Rightarrow> Err (NeedsArgument name)
                            | v # rest \<Rightarrow> flagSet f name v (flagParse fs rest)))))"

text \<open>What a flag holds afterwards: the last setting, or its default.\<close>

definition flagValue :: "settings \<Rightarrow> string \<Rightarrow> string \<Rightarrow> string" where
  "flagValue as name dflt = (case map_of (rev as) name of None \<Rightarrow> dflt | Some v \<Rightarrow> v)"

definition ParseBool :: "string \<Rightarrow> bool option" where
  "ParseBool s =
     (if s \<in> set [''1'', ''t'', ''T'', ''true'', ''TRUE'', ''True''] then Some True
      else if s \<in> set [''0'', ''f'', ''F'', ''false'', ''FALSE'', ''False''] then Some False else None)"

definition boolFlag :: flag where
  "boolFlag = \<lparr>fl_bool = True, fl_ok = \<lambda>s. ParseBool s \<noteq> None\<rparr>"

definition stringFlag :: flag where
  "stringFlag = \<lparr>fl_bool = False, fl_ok = \<lambda>s. True\<rparr>"

definition flagBool :: "settings \<Rightarrow> string \<Rightarrow> bool" where
  "flagBool as name \<longleftrightarrow> ParseBool (flagValue as name ''false'') = Some True"

section \<open>Interspersed flags\<close>

definition TrimLeft :: "string \<Rightarrow> string" where
  "TrimLeft a = dropWhile (\<lambda>c. c = CHR ''-'') a"

definition isKnownFlagToken :: "flagset \<Rightarrow> string \<Rightarrow> bool" where
  "isKnownFlagToken fs tok =
     (if length tok < 2 \<or> hd tok \<noteq> CHR ''-'' \<or> tok = ''--'' then False
      else Lookup fs (takeWhile (\<lambda>c. c \<noteq> CHR ''='') (TrimLeft tok)) \<noteq> None)"

definition needsFlagSentinel :: "string list \<Rightarrow> bool" where
  "needsFlagSentinel positional \<longleftrightarrow> (\<exists>p \<in> set positional. length p > 0 \<and> hd p = CHR ''-'' \<and> p \<noteq> ''-'')"

text \<open>
  The loop of \<open>parseFlags\<close>: the flags with their values, and the positional arguments. \<open>Inl\<close> is the early return for a flag that lacks its value.
\<close>

fun reorder :: "flagset \<Rightarrow> string list \<Rightarrow> string list \<Rightarrow> bool \<Rightarrow> string list \<Rightarrow> string list + string list \<times> string list" where
  "reorder fs reordered positional sawDoubleDash [] = Inr (reordered, positional)"
| "reorder fs reordered positional sawDoubleDash (a # args) =
     (if sawDoubleDash then reorder fs reordered (positional @ [a]) True args
      else if a = ''--'' then reorder fs reordered positional True args
      else if length a > 1 \<and> hd a = CHR ''-'' then
        (if CHR ''='' \<in> set a then reorder fs (reordered @ [a]) positional False args
         else (case Lookup fs (TrimLeft a) of
                 None \<Rightarrow> reorder fs (reordered @ [a]) positional False args
               | Some f \<Rightarrow>
                   if fl_bool f then reorder fs (reordered @ [a]) positional False args
                   else (case args of
                           [] \<Rightarrow> Inl (reordered @ [a])
                         | b # rest \<Rightarrow>
                             if isKnownFlagToken fs b then Inl (reordered @ [a])
                             else reorder fs (reordered @ [a, b]) positional False rest)))
      else reorder fs reordered (positional @ [a]) False args)"

definition parseReordered :: "flagset \<Rightarrow> string list + string list \<times> string list \<Rightarrow> flag_error + settings \<times> string list" where
  "parseReordered fs r =
     (case r of
        Inl reordered \<Rightarrow> flagParse fs reordered
      | Inr (reordered, positional) \<Rightarrow>
          flagParse fs (reordered @ (if needsFlagSentinel positional then [''--''] else []) @ positional))"

definition parseFlags :: "flagset \<Rightarrow> string list \<Rightarrow> flag_error + settings \<times> string list" where
  "parseFlags fs args = parseReordered fs (reorder fs [] [] False args)"

section \<open>The reference\<close>

text \<open>
  What a caller wants: one pass over the arguments, in which a flag is recognised wherever it stands, takes the next argument if it needs one and
  that is not a flag itself, and everything after \<open>--\<close> is positional.
\<close>

abbreviation is_flag :: "string \<Rightarrow> bool" where
  "is_flag a \<equiv> length a > 1 \<and> hd a = CHR ''-''"

fun readFlags :: "flagset \<Rightarrow> string list \<Rightarrow> flag_error + settings \<times> string list" where
  "readFlags fs [] = Ok ([], [])"
| "readFlags fs (a # args) =
     (if a = ''--'' then Ok ([], args)
      else if \<not> is_flag a then map_sum id (apsnd (\<lambda>ps. a # ps)) (readFlags fs args)
      else (case flagHead fs a of
              Inl e \<Rightarrow> Err e
            | Inr (name, f, value) \<Rightarrow>
                (case boolDefault f value of
                   Some v \<Rightarrow> flagSet f name v (readFlags fs args)
                 | None \<Rightarrow> (case args of
                              [] \<Rightarrow> Err (NeedsArgument name)
                            | b # rest \<Rightarrow>
                                if isKnownFlagToken fs b then Err (NeedsArgument name)
                                else flagSet f name b (readFlags fs rest)))))"

section \<open>The loop implements the reference\<close>

text \<open>What a prefix of flags does to the parse of whatever follows it.\<close>

fun after :: "flag_error + settings \<Rightarrow> flag_error + settings \<times> string list \<Rightarrow> flag_error + settings \<times> string list" where
  "after (Inl e) x = Err e"
| "after (Inr as) x = map_sum id (apfst (\<lambda>bs. as @ bs)) x"

fun andThen :: "flag_error + settings \<Rightarrow> flag_error + settings \<Rightarrow> flag_error + settings" where
  "andThen (Inl e) y = Inl e"
| "andThen (Inr as) y = map_sum id (\<lambda>bs. as @ bs) y"

lemma after_andThen: "after (andThen R S) x = after R (after S x)"
  by (cases R; cases S; cases x) auto

definition settled :: "flagset \<Rightarrow> string list \<Rightarrow> flag_error + settings \<Rightarrow> bool" where
  "settled fs r R \<longleftrightarrow> (\<forall>t. flagParse fs (r @ t) = after R (flagParse fs t))"

lemma settled_append: "settled fs r R \<Longrightarrow> settled fs c S \<Longrightarrow> settled fs (r @ c) (andThen R S)"
  by (simp add: settled_def after_andThen)

definition setting :: "flag \<Rightarrow> string \<Rightarrow> string \<Rightarrow> flag_error + settings" where
  "setting f name v = (if fl_ok f v then Ok [(name, v)] else Err (InvalidValue name v))"

lemma flagSet_after: "flagSet f name v x = after (setting f name v) x"
  by (cases x) (auto simp: flagSet_def setting_def)

text \<open>A flag the package accepts is the one \<open>parseFlags\<close> looks up.\<close>

lemma flagHead_Ok:
  assumes "flagHead fs a = Ok (name, f, value)" "is_flag a"
  shows "CHR ''='' \<in> set a \<longleftrightarrow> value \<noteq> None" "value = None \<Longrightarrow> name = TrimLeft a \<and> Lookup fs name = Some f"
proof -
  define body where "body = drop (if a ! 1 = CHR ''-'' then 2 else 1) a"
  obtain c t where a: "a = CHR ''-'' # c # t" using assms(2) by (cases a; cases "tl a") auto
  have h: "body \<noteq> []" "hd body \<noteq> CHR ''-''" "name = takeWhile (\<lambda>c. c \<noteq> CHR ''='') body" "Lookup fs name = Some f"
    "value = (if CHR ''='' \<in> set body then Some (tl (dropWhile (\<lambda>c. c \<noteq> CHR ''='') body)) else None)"
    using assms(1) unfolding flagHead_def body_def [symmetric] by (auto simp: Let_def split: if_splits option.splits)
  have trim: "TrimLeft a = body" using h(1,2) unfolding TrimLeft_def body_def by (cases t) (auto simp: a split: if_splits)
  have sets: "CHR ''='' \<in> set a \<longleftrightarrow> CHR ''='' \<in> set body" unfolding body_def by (auto simp: a)
  then show "CHR ''='' \<in> set a \<longleftrightarrow> value \<noteq> None" using h(5) by simp
  assume "value = None"
  then have "CHR ''='' \<notin> set body" using h(5) by (auto split: if_splits)
  then have "takeWhile (\<lambda>c. c \<noteq> CHR ''='') body = body" by (auto simp: takeWhile_eq_all_conv)
  then have "name = body" using h(3) by simp
  then show "name = TrimLeft a \<and> Lookup fs name = Some f" using trim h(4) by simp
qed

lemma settled_error: "flagHead fs a = Err e \<Longrightarrow> is_flag a \<Longrightarrow> a \<noteq> ''--'' \<Longrightarrow> settled fs (a # xs) (Err e)"
  by (simp add: settled_def)

lemma settled_one:
  "flagHead fs a = Ok (name, f, value) \<Longrightarrow> is_flag a \<Longrightarrow> a \<noteq> ''--'' \<Longrightarrow> boolDefault f value = Some v \<Longrightarrow> settled fs [a] (setting f name v)"
  by (simp add: settled_def flagSet_after)

lemma settled_two:
  "flagHead fs a = Ok (name, f, value) \<Longrightarrow> is_flag a \<Longrightarrow> a \<noteq> ''--'' \<Longrightarrow> boolDefault f value = None \<Longrightarrow> settled fs [a, b] (setting f name b)"
  by (simp add: settled_def flagSet_after)

lemma reorder_rest: "reorder fs r p True args = Inr (r, p @ args)"
  by (induction args arbitrary: p) simp_all

lemma parse_positional: "flagParse fs ((if needsFlagSentinel p then [''--''] else []) @ p) = Ok ([], p)"
proof (cases "needsFlagSentinel p \<or> p = []")
  case False
  then obtain a ps where p: "p = a # ps" by (cases p) auto
  have "\<not> is_flag a"
    using False p by (auto simp: needsFlagSentinel_def)
  then show ?thesis using False p by auto
qed auto

lemma parseReordered_end:
  assumes "settled fs r R"
  shows "parseReordered fs (Inr (r, p)) = after R (Ok ([], p))"
  using assms parse_positional [of fs p] by (simp add: parseReordered_def settled_def)

abbreviation with_positional :: "string list \<Rightarrow> flag_error + settings \<times> string list \<Rightarrow> flag_error + settings \<times> string list" where
  "with_positional p x \<equiv> map_sum id (apsnd (\<lambda>ps. p @ ps)) x"

lemma with_positional_after: "with_positional p (after R x) = after R (with_positional p x)"
  by (cases R; cases x) auto

lemma after_error: "after R (Err e) = after (andThen R (Err e)) x"
  by (cases R) auto

text \<open>A flag that fails makes the rest irrelevant.\<close>

lemma reorder_failed:
  assumes "settled fs r (Err e)"
  shows "parseReordered fs (reorder fs r p False args) = Err e"
  using assms
proof (induction args arbitrary: r p rule: length_induct)
  case (1 args)
  have more: "settled fs (r @ xs) (Err e)" for xs using "1.prems" by (simp add: settled_def)
  have fin: "parseReordered fs (Inr (r, q)) = Err e" for q using parseReordered_end [OF "1.prems"] by simp
  have early: "parseReordered fs (Inl (r @ xs)) = Err e" for xs
    using more [of xs] by (simp add: parseReordered_def settled_def) (metis append_Nil2)
  note IH = "1.IH" [rule_format, OF _ more]  and IH0 = "1.IH" [rule_format, OF _ "1.prems"]
  show ?case
  proof (cases args)
    case (Cons a as)
    then show ?thesis
      using fin early IH IH0 by (auto simp: reorder_rest split: option.split list.split)
  qed (use fin in simp)
qed

lemma reorder_reads:
  assumes "settled fs r R"
  shows "parseReordered fs (reorder fs r p False args) = after R (with_positional p (readFlags fs args))"
  using assms
proof (induction args arbitrary: r p R rule: length_induct)
  case (1 args)
  note R = "1.prems"
  have IH: "parseReordered fs (reorder fs r' p' False as) = after R' (with_positional p' (readFlags fs as))"
    if "length as < length args" "settled fs r' R'" for as r' p' R' using "1.IH" that by blast
  show ?case
  proof (cases args)
    case Nil
    then show ?thesis using parseReordered_end [OF R] by simp
  next
    case args: (Cons a as)
    consider (dd) "a = ''--''" | (pos) "\<not> is_flag a" | (flag) "is_flag a" "a \<noteq> ''--''" by blast
    then show ?thesis
    proof cases
      case dd
      then show ?thesis using args parseReordered_end [OF R] by (simp add: reorder_rest)
    next
      case pos
      moreover have "a \<noteq> ''--''" using pos by auto
      ultimately have "parseReordered fs (reorder fs r p False args) = after R (with_positional (p @ [a]) (readFlags fs as))"
        using args IH [OF _ R, of as "p @ [a]"] by auto
      then show ?thesis using pos \<open>a \<noteq> ''--''\<close> args by (cases "readFlags fs as") auto
    next
      case flag
      show ?thesis
      proof (cases "flagHead fs a")
        case (Inl e)
        have S: "settled fs (r @ a # xs) (andThen R (Err e))" for xs
          by (rule settled_append [OF R settled_error [OF Inl flag]])
        obtain e' where e': "andThen R (Err e) = Err e'" by (cases R) auto
        have early: "parseReordered fs (Inl (r @ [a])) = Err e'"
          using S [of "[]"] e' by (simp add: parseReordered_def settled_def)
        have "parseReordered fs (reorder fs r p False args) = Err e'"
          using args flag early reorder_failed S e' by (auto split: option.split list.split)
        then show ?thesis using args flag Inl e' by (cases R) auto
      next
        case (Inr x)
        obtain name f val where x: "x = (name, f, val)" by (cases x)
        note h = Inr [unfolded x] and eq = flagHead_Ok [OF Inr [unfolded x] flag(1)]
        show ?thesis
        proof (cases "boolDefault f val")
          case (Some v)
          note S = settled_append [OF R settled_one [OF h flag Some]]
          have "parseReordered fs (reorder fs r p False args) = parseReordered fs (reorder fs (r @ [a]) p False as)"
            using args flag eq Some by (cases val) (auto simp: boolDefault_def split: if_splits)
          moreover have "readFlags fs args = after (setting f name v) (readFlags fs as)"
            using args flag h Some by (simp add: flagSet_after)
          ultimately show ?thesis using IH [OF _ S, of as p] args by (simp only: after_andThen with_positional_after length_Cons lessI)
        next
          case None
          then have f: "val = None" "\<not> fl_bool f" by (auto simp: boolDefault_def split: if_splits)
          note lk = eq(2) [OF f(1)] and noeq = eq(1)
          have needs: "parseReordered fs (Inl (r @ [a])) = after R (Err (NeedsArgument name))"
            using R flag h None by (simp add: parseReordered_def settled_def)
          show ?thesis
          proof (cases as)
            case Nil
            then show ?thesis using args flag h None needs lk noeq f by auto
          next
            case (Cons b rest)
            note S = settled_append [OF R settled_two [OF h flag None, of b]]
            show ?thesis
            proof (cases "isKnownFlagToken fs b")
              case True
              then show ?thesis using Cons args flag h None needs lk noeq f by auto
            next
              case False
              then have "parseReordered fs (reorder fs r p False args) = parseReordered fs (reorder fs (r @ [a, b]) p False rest)"
                using Cons args flag lk noeq f by auto
              moreover have "readFlags fs args = after (setting f name b) (readFlags fs rest)"
                using Cons args flag h None False by (simp add: flagSet_after)
              moreover have "length rest < length args" using Cons args by simp
              ultimately show ?thesis using IH [OF _ S, of rest p] by (simp only: after_andThen with_positional_after)
            qed
          qed
        qed
      qed
    qed
  qed
qed

lemma parseFlags_readFlags: "parseFlags fs args = readFlags fs args"
proof -
  have "settled fs [] (Ok [])" by (auto simp: settled_def map_sum_def split: sum.splits)
  from reorder_reads [OF this, of "[]" args] show ?thesis
    by (cases "readFlags fs args") (auto simp: parseFlags_def)
qed

text \<open>
  C30. The reordering of \<open>parseFlags\<close> is exact: for every flag set and every list of arguments, sorting the flags to the front and handing them
  to the flag package gives the settings, the positional arguments and the error of one left-to-right reading in which flags may stand anywhere.
\<close>

theorem parseFlags_reads: "parseFlags fs args = readFlags fs args"
  by (rule parseFlags_readFlags)

end
