(* ===== verification/Text_Codec.thy ===== *)
theory Text_Codec
  imports Prelude
begin

text \<open>
  The text encodings of the command line: \<open>hex.DecodeString\<close> for hexadecimal arguments, and \<open>base64.StdEncoding\<close>, in
  which \<open>range\<close> prints keys and values and \<open>batch\<close> reads them. A Go string is a list of 8-bit characters. \<open>None\<close> is an error.
\<close>

section \<open>Hexadecimal\<close>

definition hexVal :: "char \<Rightarrow> nat option" where
  "hexVal c =
     (let n = of_char c :: nat in
      if 48 \<le> n \<and> n \<le> 57 then Some (n - 48)
      else if 97 \<le> n \<and> n \<le> 102 then Some (n - 87)
      else if 65 \<le> n \<and> n \<le> 70 then Some (n - 55) else None)"

fun hexDecode :: "string \<Rightarrow> bytes option" where
  "hexDecode [] = Some []"
| "hexDecode [c] = None"
| "hexDecode (a # b # s) =
     (case (hexVal a, hexVal b) of
        (Some x, Some y) \<Rightarrow> map_option (\<lambda>bs. word_of_nat (16 * x + y) # bs) (hexDecode s)
      | _ \<Rightarrow> None)"

definition hexChar :: "nat \<Rightarrow> char" where
  "hexChar n = char_of (if n < 10 then 48 + n else 87 + n)"

definition hexEncode :: "bytes \<Rightarrow> string" where
  "hexEncode bs = concat (map (\<lambda>b. [hexChar (unat b div 16), hexChar (unat b mod 16)]) bs)"

lemma hexVal_hexChar: "n < 16 \<Longrightarrow> hexVal (hexChar n) = Some n"
  by (auto simp: hexVal_def hexChar_def Let_def)

lemma byte_less: "unat (b :: byte) < 256"
  using unsigned_less [of b, where ?'a = nat] by simp

lemma hexDecode_hexEncode: "hexDecode (hexEncode bs) = Some bs"
proof (induction bs)
  case (Cons b bs)
  have "unat b div 16 < 16" "unat b mod 16 < 16" using byte_less [of b] by auto
  then have "hexDecode (hexEncode (b # bs)) =
      map_option (\<lambda>bs. word_of_nat (16 * (unat b div 16) + unat b mod 16) # bs) (hexDecode (hexEncode bs))"
    by (simp add: hexEncode_def hexVal_hexChar)
  then show ?case by (simp add: Cons.IH)
qed (simp add: hexEncode_def)

lemma hexDecode_length: "hexDecode s = Some bs \<Longrightarrow> length s = 2 * length bs"
  by (induction s arbitrary: bs rule: hexDecode.induct) (auto split: option.splits)

section \<open>Base64\<close>

definition b64Char :: "nat \<Rightarrow> char" where
  "b64Char n =
     (if n < 26 then char_of (65 + n) else if n < 52 then char_of (71 + n) else if n < 62 then char_of (n - 4)
      else if n = 62 then CHR ''+'' else CHR ''/'')"

definition b64Val :: "char \<Rightarrow> nat option" where
  "b64Val c =
     (let n = of_char c :: nat in
      if 65 \<le> n \<and> n \<le> 90 then Some (n - 65)
      else if 97 \<le> n \<and> n \<le> 122 then Some (n - 71)
      else if 48 \<le> n \<and> n \<le> 57 then Some (n + 4)
      else if c = CHR ''+'' then Some 62 else if c = CHR ''/'' then Some 63 else None)"

fun b64Encode :: "bytes \<Rightarrow> string" where
  "b64Encode [] = []"
| "b64Encode [a] = [b64Char (unat a div 4), b64Char (unat a mod 4 * 16), CHR ''='', CHR ''='']"
| "b64Encode [a, b] =
     [b64Char (unat a div 4), b64Char (unat a mod 4 * 16 + unat b div 16), b64Char (unat b mod 16 * 4), CHR ''='']"
| "b64Encode (a # b # c # bs) =
     [b64Char (unat a div 4), b64Char (unat a mod 4 * 16 + unat b div 16),
      b64Char (unat b mod 16 * 4 + unat c div 64), b64Char (unat c mod 64)] @ b64Encode bs"

text \<open>Four characters at a time; the last four may be padded, and nothing may follow the padding.\<close>

fun b64Quanta :: "string \<Rightarrow> bytes option" where
  "b64Quanta [] = Some []"
| "b64Quanta (a # b # c # d # s) =
     (case (b64Val a, b64Val b) of
        (Some x, Some y) \<Rightarrow>
          let b1 = word_of_nat (x * 4 + y div 16) in
          if c = CHR ''='' then (if d = CHR ''='' \<and> s = [] then Some [b1] else None)
          else (case b64Val c of
                  None \<Rightarrow> None
                | Some z \<Rightarrow>
                    let b2 = word_of_nat (y mod 16 * 16 + z div 4) in
                    if d = CHR ''='' then (if s = [] then Some [b1, b2] else None)
                    else (case b64Val d of
                            None \<Rightarrow> None
                          | Some w \<Rightarrow> map_option (\<lambda>bs. b1 # b2 # word_of_nat (z mod 4 * 64 + w) # bs) (b64Quanta s)))
      | _ \<Rightarrow> None)"
| "b64Quanta _ = None"

definition b64Decode :: "string \<Rightarrow> bytes option" where
  "b64Decode s = b64Quanta (filter (\<lambda>c. c \<noteq> CHR 0x0A \<and> c \<noteq> CHR 0x0D) s)"

lemma b64Val_b64Char: "n < 64 \<Longrightarrow> b64Val (b64Char n) = Some n"
  by (auto simp: b64Val_def b64Char_def Let_def)

lemma b64Val_outside: "b64Val (CHR ''='') = None" "b64Val (CHR 0x0A) = None" "b64Val (CHR 0x0D) = None"
  by (simp_all add: b64Val_def)

lemma b64Char_letter:
  assumes "n < 64"
  shows "b64Char n \<noteq> CHR ''=''" "b64Char n \<noteq> CHR 0x0A" "b64Char n \<noteq> CHR 0x0D"
  using b64Val_b64Char [OF assms] b64Val_outside by auto

lemma sextets:
  fixes a b c :: byte
  shows "unat a div 4 < 64" "unat a mod 4 * 16 < 64" "unat a mod 4 * 16 + unat b div 16 < 64" "unat b mod 16 * 4 < 64"
    "unat b mod 16 * 4 + unat c div 64 < 64" "unat c mod 64 < 64"
proof -
  have "unat a < 256" "unat b < 256" "unat c < 256" by (rule byte_less)+
  moreover have "unat a mod 4 < 4" "unat b mod 16 < 16" "unat c mod 64 < 64" by simp_all
  ultimately show "unat a div 4 < 64" "unat a mod 4 * 16 < 64" "unat a mod 4 * 16 + unat b div 16 < 64" "unat b mod 16 * 4 < 64"
    "unat b mod 16 * 4 + unat c div 64 < 64" "unat c mod 64 < 64"
    by linarith+
qed

lemma byte_split:
  fixes a :: byte
  shows "unat a div 16 div 16 = 0" "unat a div 16 mod 16 = unat a div 16" "unat a div 64 div 4 = 0" "unat a div 64 mod 4 = unat a div 64"
    and "word_of_nat (unat a div 4) * 4 + word_of_nat (unat a mod 4) = a"
    and "word_of_nat (unat a div 16) * 16 + word_of_nat (unat a mod 16) = a"
    and "word_of_nat (unat a div 64) * 64 + word_of_nat (unat a mod 64) = a"
proof -
  show "unat a div 16 div 16 = 0" "unat a div 16 mod 16 = unat a div 16" "unat a div 64 div 4 = 0" "unat a div 64 mod 4 = unat a div 64"
    using byte_less [of a] by auto
  have "word_of_nat (unat a div n) * word_of_nat n + word_of_nat (unat a mod n) = a" for n
  proof -
    have "word_of_nat (unat a div n * n + unat a mod n) = a" unfolding div_mult_mod_eq by simp
    then show ?thesis by (simp only: of_nat_add of_nat_mult)
  qed
  from this [of 4] this [of 16] this [of 64]
  show "word_of_nat (unat a div 4) * 4 + word_of_nat (unat a mod 4) = a"
    "word_of_nat (unat a div 16) * 16 + word_of_nat (unat a mod 16) = a"
    "word_of_nat (unat a div 64) * 64 + word_of_nat (unat a mod 64) = a"
    by simp_all
qed

lemma b64Encode_letters: "filter (\<lambda>c. c \<noteq> CHR 0x0A \<and> c \<noteq> CHR 0x0D) (b64Encode bs) = b64Encode bs"
  by (induction bs rule: b64Encode.induct) (simp_all add: b64Char_letter sextets)

lemma b64Quanta_b64Encode: "b64Quanta (b64Encode bs) = Some bs"
  by (induction bs rule: b64Encode.induct)
    (simp_all add: b64Val_b64Char b64Char_letter sextets byte_split Let_def)

lemma b64Decode_b64Encode: "b64Decode (b64Encode bs) = Some bs"
  by (simp add: b64Decode_def b64Encode_letters b64Quanta_b64Encode)

end
