(* ===== verification/Cli.thy ===== *)
theory Cli
  imports Remote Flags Text_Codec
begin

text \<open>
  The data commands of the command line, \<open>cmd/little-db/subcommands.go\<close>: \<open>put\<close>, \<open>get\<close>, \<open>delete\<close>, \<open>ping\<close>, \<open>stats\<close>, \<open>range\<close> and
  \<open>batch\<close>, with their local validation, their output and their exit codes. A command runs in an environment: the process
  environment, standard input, the files, and the server it may dial (the parameter \<open>ev_peer\<close> of theory \<open>Client\<close>). Reading a number or a duration and the
  JSON stream decoder are parameters: a stream is the lines it decodes to and whether it ended cleanly. A diagnostic on standard error is a value, not its text.
\<close>

section \<open>Exit codes, input and output\<close>

definition exitOK :: int where "exitOK = 0"
definition exitTransport :: int where "exitTransport = 1"
definition exitUsage :: int where "exitUsage = 2"
definition exitRemoteBad :: int where "exitRemoteBad = 3"
definition exitNotFound :: int where "exitNotFound = 4"
definition exitOverloaded :: int where "exitOverloaded = 5"

lemmas exit_codes_def = exitOK_def exitTransport_def exitUsage_def exitRemoteBad_def exitNotFound_def exitOverloaded_def

definition defaultAddr :: string where "defaultAddr = ''127.0.0.1:4242''"
definition defaultDialTimeout :: int where "defaultDialTimeout = 5 * second"
definition defaultRequestTimeout :: int where "defaultRequestTimeout = 30 * second"

record batchLine =
  bl_Op :: string
  bl_Key :: string
  bl_Value :: string

text \<open>A reader: its bytes, and whether reading fails behind them.\<close>

type_synonym reader = "bytes \<times> bool"

record 's cli_env =
  ev_getenv :: "string \<Rightarrow> string"
  ev_duration :: "string \<Rightarrow> int option"
  ev_stdin :: reader
  ev_open :: "string \<Rightarrow> reader option"
  ev_json :: "reader \<Rightarrow> batchLine list \<times> bool"
  ev_refused :: "string \<Rightarrow> bool"
  ev_peer :: "'s peer"
  ev_fault :: client_fault
  ev_frames :: "nat \<Rightarrow> bool"

datatype diag =
    DFlag flag_error
  | DExclusive
  | DArgs string
  | DHex string
  | DEmpty string
  | DTooLong string nat
  | DStdin
  | DDial string
  | DNotFound
  | DNoSuchKey bytes
  | DRemote string bytes
  | DProtocol wire_error
  | DFrame wire_error
  | DError client_error
  | DStdout
  | DStartAfterEnd bytes bytes
  | DFormat string
  | DOpen string
  | DEntry nat diag
  | DJSON
  | DBase64
  | DBatchSize nat
  | DOp string
  | DNoEntries
  | DTooMany nat
  | DOk string
  | DUsage
  | DUnknown string
  | DDataDir
  | DLogLevel string
  | DLogFormat string
  | DOpenEngine engine_error
  | DCloseEngine engine_error
  | DBind
  | DShutdown
  | DServe

text \<open>Standard output: what was written, and which write fails after how many bytes.\<close>

record out =
  ou_bytes :: bytes
  ou_writes :: nat
  ou_fault :: "nat \<Rightarrow> nat option"

record 's io =
  io_out :: out
  io_err :: "diag list"
  io_peer :: 's

definition outWrite :: "bytes \<Rightarrow> out \<Rightarrow> bool \<times> out" where
  "outWrite bs o1 =
     (case ou_fault o1 (ou_writes o1) of
        None \<Rightarrow> (True, o1\<lparr>ou_bytes := ou_bytes o1 @ bs, ou_writes := Suc (ou_writes o1)\<rparr>)
      | Some n \<Rightarrow> (False, o1\<lparr>ou_bytes := ou_bytes o1 @ take n bs, ou_writes := Suc (ou_writes o1)\<rparr>))"

fun outWrites :: "bytes list \<Rightarrow> out \<Rightarrow> bool \<times> out" where
  "outWrites [] o1 = (True, o1)"
| "outWrites (bs # bss) o1 = (case outWrite bs o1 of (ok, o2) \<Rightarrow> if ok then outWrites bss o2 else (False, o2))"

definition report :: "int \<Rightarrow> diag list \<Rightarrow> 's io \<Rightarrow> int \<times> 's io" where
  "report code ds io = (code, io\<lparr>io_err := io_err io @ ds\<rparr>)"

section \<open>Connections\<close>

record connOpts =
  cn_addr :: string
  cn_dialTimeout :: int
  cn_requestTimeout :: int

definition envOr :: "'s cli_env \<Rightarrow> string \<Rightarrow> string \<Rightarrow> string" where
  "envOr env key fallback = (let v = ev_getenv env key in if v \<noteq> '''' then v else fallback)"

definition envDurOr :: "'s cli_env \<Rightarrow> string \<Rightarrow> int \<Rightarrow> int" where
  "envDurOr env key fallback =
     (let v = ev_getenv env key in
      if v = '''' then fallback else (case ev_duration env v of None \<Rightarrow> fallback | Some d \<Rightarrow> d))"

definition durationFlag :: "(string \<Rightarrow> int option) \<Rightarrow> flag" where
  "durationFlag dur = \<lparr>fl_bool = False, fl_ok = \<lambda>s. dur s \<noteq> None\<rparr>"

text \<open>The number a flag holds, read by the function that its \<open>Set\<close> accepts values with.\<close>

definition flagNumber :: "(string \<Rightarrow> int option) \<Rightarrow> settings \<Rightarrow> string \<Rightarrow> int \<Rightarrow> int" where
  "flagNumber num as name dflt =
     (case map_of (rev as) name of None \<Rightarrow> dflt | Some v \<Rightarrow> (case num v of None \<Rightarrow> dflt | Some n \<Rightarrow> n))"

definition registerConnFlags :: "'s cli_env \<Rightarrow> flagset" where
  "registerConnFlags env =
     [(''addr'', stringFlag), (''dial-timeout'', durationFlag (ev_duration env)), (''request-timeout'', durationFlag (ev_duration env))]"

definition connOptsOf :: "'s cli_env \<Rightarrow> settings \<Rightarrow> connOpts" where
  "connOptsOf env as =
     \<lparr>cn_addr = flagValue as ''addr'' (envOr env ''LITTLE_DB_ADDR'' defaultAddr),
      cn_dialTimeout = flagNumber (ev_duration env) as ''dial-timeout'' (envDurOr env ''LITTLE_DB_DIAL_TIMEOUT'' defaultDialTimeout),
      cn_requestTimeout =
        flagNumber (ev_duration env) as ''request-timeout'' (envDurOr env ''LITTLE_DB_REQUEST_TIMEOUT'' defaultRequestTimeout)\<rparr>"

definition dialClient :: "'s cli_env \<Rightarrow> connOpts \<Rightarrow> 's io \<Rightarrow> (int \<times> 's io) + 's client" where
  "dialClient env co io =
     (case Dial (ev_refused env (cn_addr co)) (io_peer io)
             \<lparr>co_DialTimeout = cn_dialTimeout co, co_RequestTimeout = cn_requestTimeout co\<rparr> of
        Inl e \<Rightarrow> Inl (report exitTransport [DDial (cn_addr co)] io)
      | Inr c \<Rightarrow> Inr c)"

text \<open>The deferred \<open>Close\<close> of a command: its result is dropped, the peer keeps its state.\<close>

definition hangUp :: "'s client \<Rightarrow> 's io \<Rightarrow> 's io" where
  "hangUp c io = io\<lparr>io_peer := cl_peer (snd (client_Close False c))\<rparr>"

definition statusName :: "Status \<Rightarrow> string" where
  "statusName s =
     (if s = StatusOK then ''OK'' else if s = StatusNotFound then ''NOT_FOUND''
      else if s = StatusBadRequest then ''BAD_REQUEST'' else if s = StatusInternal then ''INTERNAL''
      else if s = StatusClosed then ''CLOSED'' else if s = StatusOverload then ''OVERLOAD''
      else ''status(0x'' @ hexEncode [s] @ '')'')"

definition classifyErr :: "client_error option \<Rightarrow> int \<times> diag list" where
  "classifyErr err =
     (case err of
        None \<Rightarrow> (exitOK, [])
      | Some ErrNotFound \<Rightarrow> (exitNotFound, [DNotFound])
      | Some (ClientRemote st msg) \<Rightarrow>
          (if st = StatusNotFound then exitNotFound
           else if st = StatusBadRequest \<or> st = StatusInternal then exitRemoteBad
           else if st = StatusOverload \<or> st = StatusClosed then exitOverloaded
           else exitRemoteBad, [DRemote (statusName st) msg])
      | Some (ClientWire (ProtocolError r)) \<Rightarrow> (exitTransport, [DProtocol (ProtocolError r)])
      | Some (ClientWire (FrameError r)) \<Rightarrow> (exitTransport, [DFrame (FrameError r)])
      | Some e \<Rightarrow> (exitTransport, [DError e]))"

definition errOf :: "client_error + 'a \<Rightarrow> client_error option" where
  "errOf r = (case r of Inl e \<Rightarrow> Some e | Inr _ \<Rightarrow> None)"

section \<open>Arguments\<close>

definition decodeArg :: "string \<Rightarrow> bool \<Rightarrow> string \<Rightarrow> diag + bytes" where
  "decodeArg arg asHex label =
     (if asHex then (case hexDecode arg of None \<Rightarrow> Err (DHex label) | Some b \<Rightarrow> Ok b) else Ok (ascii arg))"

definition validateKey :: "bytes \<Rightarrow> string \<Rightarrow> diag + unit" where
  "validateKey key label =
     (if length key = 0 then Err (DEmpty label)
      else if length key > MaxKeyLen then Err (DTooLong label (length key)) else Ok ())"

definition validateValue :: "bytes \<Rightarrow> string \<Rightarrow> diag + unit" where
  "validateValue val label = (if length val > MaxValLen then Err (DTooLong label (length val)) else Ok ())"

definition validateRangeBound :: "bytes \<Rightarrow> string \<Rightarrow> diag + unit" where
  "validateRangeBound b label = (if length b > MaxKeyLen then Err (DTooLong label (length b)) else Ok ())"

text \<open>The key argument of \<open>put\<close>, \<open>get\<close> and \<open>delete\<close>.\<close>

definition keyArg :: "string \<Rightarrow> bool \<Rightarrow> diag + bytes" where
  "keyArg arg asHex =
     (case decodeArg arg asHex ''key'' of
        Inl d \<Rightarrow> Err d
      | Inr key \<Rightarrow> (case validateKey key ''key'' of Inl d \<Rightarrow> Err d | Inr _ \<Rightarrow> Ok key))"

section \<open>Put, get, delete, ping, stats\<close>

text \<open>\<open>io.ReadAll\<close> of a reader limited to \<open>n\<close> bytes.\<close>

definition readLimited :: "nat \<Rightarrow> reader \<Rightarrow> bytes option" where
  "readLimited n r = (if snd r \<and> length (fst r) < n then None else Some (take n (fst r)))"

text \<open>The value of \<open>put\<close>: from standard input, or the second argument.\<close>

definition valueArg :: "'s cli_env \<Rightarrow> bool \<Rightarrow> bool \<Rightarrow> string list \<Rightarrow> (int \<times> diag) + bytes" where
  "valueArg env valStdin valHex pos =
     (if valStdin
      then (case readLimited (MaxValLen + 1) (ev_stdin env) of None \<Rightarrow> Inl (exitTransport, DStdin) | Some v \<Rightarrow> Inr v)
      else (case decodeArg (pos ! 1) valHex ''value'' of Inl d \<Rightarrow> Inl (exitUsage, d) | Inr v \<Rightarrow> Inr v))"

text \<open>\<open>runPut\<close> up to the dial: where to connect and what to send, or why not.\<close>

definition putArgs :: "'s cli_env \<Rightarrow> string list \<Rightarrow> (int \<times> diag) + connOpts \<times> bytes \<times> bytes" where
  "putArgs env args =
     (case parseFlags (registerConnFlags env @ [(''key-hex'', boolFlag), (''value-hex'', boolFlag), (''value-stdin'', boolFlag)]) args of
        Inl e \<Rightarrow> Inl (exitUsage, DFlag e)
      | Inr (as, pos) \<Rightarrow>
          let valStdin = flagBool as ''value-stdin''; valHex = flagBool as ''value-hex'' in
          if valStdin \<and> valHex then Inl (exitUsage, DExclusive)
          else if length pos \<noteq> (if valStdin then 1 else 2) then Inl (exitUsage, DArgs ''put'')
          else (case keyArg (pos ! 0) (flagBool as ''key-hex'') of
            Inl d \<Rightarrow> Inl (exitUsage, d)
          | Inr key \<Rightarrow>
              (case valueArg env valStdin valHex pos of
                 Inl x \<Rightarrow> Inl x
               | Inr val \<Rightarrow>
                   (case validateValue val ''value'' of
                      Inl d \<Rightarrow> Inl (exitUsage, d)
                    | Inr _ \<Rightarrow> Inr (connOptsOf env as, key, val)))))"

definition runPut :: "'s cli_env \<Rightarrow> string list \<Rightarrow> 's io \<Rightarrow> int \<times> 's io" where
  "runPut env args io =
     (case putArgs env args of
        Inl (code, d) \<Rightarrow> report code [d] io
      | Inr (co, key, val) \<Rightarrow>
          (case dialClient env co io of
             Inl x \<Rightarrow> x
           | Inr c \<Rightarrow>
               (case client_Put (ev_peer env) (ev_fault env) key val c of
                  (r, c') \<Rightarrow>
                    (case classifyErr (errOf r) of
                       (code, ds) \<Rightarrow> report code (if code \<noteq> exitOK then ds else ds @ [DOk ''put'']) (hangUp c' io)))))"

definition oneKeyArgs :: "string \<Rightarrow> 's cli_env \<Rightarrow> string list \<Rightarrow> (int \<times> diag) + connOpts \<times> bytes" where
  "oneKeyArgs cmd env args =
     (case parseFlags (registerConnFlags env @ [(''key-hex'', boolFlag)]) args of
        Inl e \<Rightarrow> Inl (exitUsage, DFlag e)
      | Inr (as, pos) \<Rightarrow>
          if length pos \<noteq> 1 then Inl (exitUsage, DArgs cmd)
          else (case keyArg (pos ! 0) (flagBool as ''key-hex'') of
                  Inl d \<Rightarrow> Inl (exitUsage, d)
                | Inr key \<Rightarrow> Inr (connOptsOf env as, key)))"

definition runGet :: "'s cli_env \<Rightarrow> string list \<Rightarrow> 's io \<Rightarrow> int \<times> 's io" where
  "runGet env args io =
     (case oneKeyArgs ''get'' env args of
        Inl (code, d) \<Rightarrow> report code [d] io
      | Inr (co, key) \<Rightarrow>
          (case dialClient env co io of
             Inl x \<Rightarrow> x
           | Inr c \<Rightarrow>
               (case client_Get (ev_peer env) (ev_fault env) key c of
                  (Inl e, c') \<Rightarrow>
                    if e = ErrNotFound then report exitNotFound [DNoSuchKey key] (hangUp c' io)
                    else (case classifyErr (Some e) of (code, ds) \<Rightarrow> report code ds (hangUp c' io))
                | (Inr val, c') \<Rightarrow>
                    (case outWrite val (io_out io) of
                       (ok, o1) \<Rightarrow>
                         report (if ok then exitOK else exitTransport) (if ok then [] else [DStdout]) ((hangUp c' io)\<lparr>io_out := o1\<rparr>)))))"

definition runDelete :: "'s cli_env \<Rightarrow> string list \<Rightarrow> 's io \<Rightarrow> int \<times> 's io" where
  "runDelete env args io =
     (case oneKeyArgs ''delete'' env args of
        Inl (code, d) \<Rightarrow> report code [d] io
      | Inr (co, key) \<Rightarrow>
          (case dialClient env co io of
             Inl x \<Rightarrow> x
           | Inr c \<Rightarrow>
               (case client_Delete (ev_peer env) (ev_fault env) key c of
                  (r, c') \<Rightarrow>
                    (case classifyErr (errOf r) of
                       (code, ds) \<Rightarrow> report code (if code \<noteq> exitOK then ds else ds @ [DOk ''delete'']) (hangUp c' io)))))"

definition noArgs :: "string \<Rightarrow> 's cli_env \<Rightarrow> string list \<Rightarrow> (int \<times> diag) + connOpts" where
  "noArgs cmd env args =
     (case parseFlags (registerConnFlags env) args of
        Inl e \<Rightarrow> Inl (exitUsage, DFlag e)
      | Inr (as, pos) \<Rightarrow> if length pos \<noteq> 0 then Inl (exitUsage, DArgs cmd) else Inr (connOptsOf env as))"

text \<open>Output whose error is ignored, as \<open>fmt.Fprintln\<close> without a check.\<close>

definition printOut :: "bytes \<Rightarrow> 's io \<Rightarrow> 's io" where
  "printOut bs io = io\<lparr>io_out := snd (outWrite bs (io_out io))\<rparr>"

definition runPing :: "'s cli_env \<Rightarrow> string list \<Rightarrow> 's io \<Rightarrow> int \<times> 's io" where
  "runPing env args io =
     (case noArgs ''ping'' env args of
        Inl (code, d) \<Rightarrow> report code [d] io
      | Inr co \<Rightarrow>
          (case dialClient env co io of
             Inl x \<Rightarrow> x
           | Inr c \<Rightarrow>
               (case client_Ping (ev_peer env) (ev_fault env) c of
                  (Inl e, c') \<Rightarrow> (case classifyErr (Some e) of (code, ds) \<Rightarrow> report code ds (hangUp c' io))
                | (Inr _, c') \<Rightarrow> (exitOK, printOut (ascii ''pong'' @ [10]) (hangUp c' io)))))"

fun decimal :: "nat \<Rightarrow> string" where
  "decimal n = (if n < 10 then [char_of (48 + n)] else decimal (n div 10) @ [char_of (48 + n mod 10)])"

declare decimal.simps [simp del]

definition runStats :: "'s cli_env \<Rightarrow> string list \<Rightarrow> 's io \<Rightarrow> int \<times> 's io" where
  "runStats env args io =
     (case noArgs ''stats'' env args of
        Inl (code, d) \<Rightarrow> report code [d] io
      | Inr co \<Rightarrow>
          (case dialClient env co io of
             Inl x \<Rightarrow> x
           | Inr c \<Rightarrow>
               (case client_Stats (ev_peer env) (ev_fault env) c of
                  (Inl e, c') \<Rightarrow> (case classifyErr (Some e) of (code, ds) \<Rightarrow> report code ds (hangUp c' io))
                | (Inr (keys, bytes), c') \<Rightarrow>
                    (exitOK, printOut (ascii (''key_count='' @ decimal (unat keys) @ '' bytes_on_disk='' @ decimal (unat bytes)) @ [10])
                       (hangUp c' io)))))"

section \<open>Range\<close>

definition rangeBound :: "string \<Rightarrow> bool \<Rightarrow> string \<Rightarrow> diag + bytes option" where
  "rangeBound str asHex label =
     (if str = '''' then Ok None
      else (case decodeArg str asHex label of
              Inl d \<Rightarrow> Err d
            | Inr b \<Rightarrow> (case validateRangeBound b label of Inl d \<Rightarrow> Err d | Inr _ \<Rightarrow> Ok (Some b))))"

definition rangeArgs :: "'s cli_env \<Rightarrow> string list \<Rightarrow> (int \<times> diag) + connOpts \<times> bytes option \<times> bytes option \<times> string" where
  "rangeArgs env args =
     (case parseFlags (registerConnFlags env @ [(''start'', stringFlag), (''end'', stringFlag), (''start-hex'', boolFlag),
             (''end-hex'', boolFlag), (''format'', stringFlag)]) args of
        Inl e \<Rightarrow> Inl (exitUsage, DFlag e)
      | Inr (as, pos) \<Rightarrow>
          if length pos \<noteq> 0 then Inl (exitUsage, DArgs ''range'')
          else (case rangeBound (flagValue as ''start'' '''') (flagBool as ''start-hex'') ''start'' of
            Inl d \<Rightarrow> Inl (exitUsage, d)
          | Inr start \<Rightarrow>
              (case rangeBound (flagValue as ''end'' '''') (flagBool as ''end-hex'') ''end'' of
                 Inl d \<Rightarrow> Inl (exitUsage, d)
               | Inr stop \<Rightarrow>
                   if length (slice_of start) > 0 \<and> length (slice_of stop) > 0 \<and> bytesCompare (slice_of start) (slice_of stop) > 0
                   then Inl (exitUsage, DStartAfterEnd (slice_of start) (slice_of stop))
                   else
                     let format = flagValue as ''format'' ''ndjson'' in
                     if format = ''ndjson'' \<or> format = ''raw'' then Inr (connOptsOf env as, start, stop, format)
                     else Inl (exitUsage, DFormat format))))"

text \<open>One pair on standard output: a JSON object with base64 fields in one write, or key, tab, value, newline in four.\<close>

definition emit :: "string \<Rightarrow> KV \<Rightarrow> out \<Rightarrow> bool \<times> out" where
  "emit format kv o1 =
     (if format = ''ndjson''
      then outWrites [ascii (''{\"key\":\"'' @ b64Encode (kv_Key kv) @ ''\",\"value\":\"'' @ b64Encode (kv_Value kv) @ ''\"}'') @ [10]] o1
      else outWrites [kv_Key kv, [9], kv_Value kv, [10]] o1)"

fun emitPairs :: "string \<Rightarrow> KV list \<Rightarrow> out \<Rightarrow> bool \<times> out" where
  "emitPairs format [] o1 = (True, o1)"
| "emitPairs format (kv # kvs) o1 = (case emit format kv o1 of (ok, o2) \<Rightarrow> if ok then emitPairs format kvs o2 else (False, o2))"

text \<open>The page callback, with the output and whether a write has failed.\<close>

definition emitPage :: "string \<Rightarrow> KV list \<Rightarrow> out \<times> bool \<Rightarrow> bool \<times> out \<times> bool" where
  "emitPage format pairs a =
     (case emitPairs format pairs (fst a) of (ok, o2) \<Rightarrow> (ok, o2, if ok then snd a else True))"

definition runRange :: "'s cli_env \<Rightarrow> string list \<Rightarrow> 's io \<Rightarrow> int \<times> 's io" where
  "runRange env args io =
     (case rangeArgs env args of
        Inl (code, d) \<Rightarrow> report code [d] io
      | Inr (co, start, stop, format) \<Rightarrow>
          (case dialClient env co io of
             Inl x \<Rightarrow> x
           | Inr c \<Rightarrow>
               (case client_ReadKeyRange (ev_peer env) (ev_fault env) (ev_frames env) start stop (Some (emitPage format)) c (io_out io, False) of
                  (r, (o2, writeErr), c') \<Rightarrow>
                    let io' = (hangUp c' io)\<lparr>io_out := o2\<rparr> in
                    if writeErr then report exitTransport [DStdout] io'
                    else (case classifyErr (errOf r) of (code, ds) \<Rightarrow> report code ds io'))))"

section \<open>Batch\<close>

definition decodeBatchField :: "string \<Rightarrow> bool \<Rightarrow> diag + bytes" where
  "decodeBatchField s plain =
     (if plain then Ok (ascii s) else (case b64Decode s of None \<Rightarrow> Err DBase64 | Some b \<Rightarrow> Ok b))"

definition batchEntryOverhead :: nat where "batchEntryOverhead = 1 + 4 + 4"
definition batchHeaderSize :: nat where "batchHeaderSize = 4"
definition batchBodyBudget :: nat where "batchBodyBudget = MaxFramePayload - 1"

text \<open>One line of the input: the entry and the size of the body with it.\<close>

definition batchLineEntry :: "bool \<Rightarrow> nat \<Rightarrow> batchLine \<Rightarrow> diag + wire_entry \<times> nat" where
  "batchLineEntry plain size0 l =
     (case decodeBatchField (bl_Key l) plain of
        Inl d \<Rightarrow> Err d
      | Inr key \<Rightarrow>
          (case validateKey key ''key'' of
             Inl d \<Rightarrow> Err d
           | Inr _ \<Rightarrow>
               if bl_Op l = ''put'' then
                 (case decodeBatchField (bl_Value l) plain of
                    Inl d \<Rightarrow> Err d
                  | Inr val \<Rightarrow>
                      (case validateValue val ''value'' of
                         Inl d \<Rightarrow> Err d
                       | Inr _ \<Rightarrow>
                           let n = size0 + (batchEntryOverhead + length key + length val) in
                           if n > batchBodyBudget then Err (DBatchSize n)
                           else Ok (\<lparr>wb_Delete = False, wb_Key = key, wb_Value = val\<rparr>, n)))
               else if bl_Op l = ''delete'' then
                 let n = size0 + (batchEntryOverhead + length key) in
                 if n > batchBodyBudget then Err (DBatchSize n)
                 else Ok (\<lparr>wb_Delete = True, wb_Key = key, wb_Value = []\<rparr>, n)
               else Err (DOp (bl_Op l))))"

text \<open>The loop over the stream; \<open>ended\<close> says that the decoder reports the end of input behind the last line.\<close>

fun batchEntries :: "bool \<Rightarrow> bool \<Rightarrow> nat \<Rightarrow> nat \<Rightarrow> wire_entry list \<Rightarrow> batchLine list \<Rightarrow> diag + wire_entry list" where
  "batchEntries plain ended lineNo size0 entries [] =
     (if ended then Ok entries else Err (DEntry (Suc lineNo) DJSON))"
| "batchEntries plain ended lineNo size0 entries (l # ls) =
     (case batchLineEntry plain size0 l of
        Inl d \<Rightarrow> Err (DEntry (Suc lineNo) d)
      | Inr (e, n) \<Rightarrow> batchEntries plain ended (Suc lineNo) n (entries @ [e]) ls)"

definition batchArgs :: "'s cli_env \<Rightarrow> string list \<Rightarrow> (int \<times> diag) + connOpts \<times> wire_entry list" where
  "batchArgs env args =
     (case parseFlags (registerConnFlags env @ [(''plain'', boolFlag)]) args of
        Inl e \<Rightarrow> Inl (exitUsage, DFlag e)
      | Inr (as, pos) \<Rightarrow>
          if length pos \<noteq> 1 then Inl (exitUsage, DArgs ''batch'')
          else (case (if pos ! 0 = ''-'' then Some (ev_stdin env) else ev_open env (pos ! 0)) of
            None \<Rightarrow> Inl (exitUsage, DOpen (pos ! 0))
          | Some r \<Rightarrow>
              (case ev_json env r of
                 (ls, ended) \<Rightarrow>
                   (case batchEntries (flagBool as ''plain'') ended 0 batchHeaderSize [] ls of
                      Inl d \<Rightarrow> Inl (exitUsage, d)
                    | Inr entries \<Rightarrow>
                        if length entries = 0 then Inl (exitUsage, DNoEntries)
                        else if length entries > MaxBatchEntries then Inl (exitUsage, DTooMany (length entries))
                        else Inr (connOptsOf env as, entries)))))"

definition runBatch :: "'s cli_env \<Rightarrow> string list \<Rightarrow> 's io \<Rightarrow> int \<times> 's io" where
  "runBatch env args io =
     (case batchArgs env args of
        Inl (code, d) \<Rightarrow> report code [d] io
      | Inr (co, entries) \<Rightarrow>
          (case dialClient env co io of
             Inl x \<Rightarrow> x
           | Inr c \<Rightarrow>
               (case client_Batch (ev_peer env) (ev_fault env) entries c of
                  (r, c') \<Rightarrow>
                    (case classifyErr (errOf r) of
                       (code, ds) \<Rightarrow> report code (if code \<noteq> exitOK then ds else ds @ [DOk ''batch'']) (hangUp c' io)))))"

section \<open>What is sent is well-formed\<close>

lemma validateKey_Ok: "validateKey key label = Ok u \<longleftrightarrow> 0 < length key \<and> length key \<le> MaxKeyLen"
  by (auto simp: validateKey_def)

lemma keyArg_Ok: "keyArg arg h = Ok key \<Longrightarrow> 0 < length key \<and> length key \<le> MaxKeyLen"
  by (auto simp: keyArg_def validateKey_Ok split: sum.splits)

lemma putArgs_Ok:
  assumes "putArgs env args = Inr (co, key, val)"
  shows "0 < length key \<and> length key \<le> MaxKeyLen \<and> length val \<le> MaxValLen"
  using assms
  by (auto simp: putArgs_def Let_def validateValue_def dest: keyArg_Ok split: sum.splits if_splits)

lemma oneKeyArgs_Ok: "oneKeyArgs cmd env args = Inr (co, key) \<Longrightarrow> 0 < length key \<and> length key \<le> MaxKeyLen"
  by (auto simp: oneKeyArgs_def dest: keyArg_Ok split: sum.splits if_splits)

lemma decodeArg_nonempty: "decodeArg str h label = Ok b \<Longrightarrow> str \<noteq> '''' \<Longrightarrow> b \<noteq> []"
  using hexDecode_length [of str b] by (auto simp: decodeArg_def ascii_def split: if_splits option.splits)

lemma rangeBound_Ok: "rangeBound str h label = Ok b \<Longrightarrow> b \<noteq> Some [] \<and> length (slice_of b) \<le> MaxKeyLen"
  by (auto simp: rangeBound_def validateRangeBound_def slice_of_def dest: decodeArg_nonempty split: if_splits sum.splits)

lemma rangeArgs_Ok:
  assumes "rangeArgs env args = Inr (co, start, stop, format)"
  shows "range_norm (start, stop) \<and> length (slice_of start) \<le> MaxKeyLen \<and> length (slice_of stop) \<le> MaxKeyLen \<and>
    \<not> (length (slice_of start) > 0 \<and> length (slice_of stop) > 0 \<and> bytesCompare (slice_of start) (slice_of stop) > 0)"
proof -
  have "\<exists>as. rangeBound (flagValue as ''start'' []) (flagBool as ''start-hex'') ''start'' = Ok start \<and>
      rangeBound (flagValue as ''end'' []) (flagBool as ''end-hex'') ''end'' = Ok stop \<and>
      \<not> (length (slice_of start) > 0 \<and> length (slice_of stop) > 0 \<and> bytesCompare (slice_of start) (slice_of stop) > 0)"
    using assms unfolding rangeArgs_def Let_def
    by (simp del: length_greater_0_conv split: sum.splits if_splits prod.splits) blast+
  then show ?thesis using rangeBound_Ok unfolding range_norm_def fst_conv snd_conv by blast
qed

lemma rangeArgs_encode:
  assumes "rangeArgs env args = Inr (co, start, stop, format)"
  shows "\<exists>f. EncodeRequest (ReadKeyRangeRequest start stop) = Ok f"
proof -
  note r = rangeArgs_Ok [OF assms]
  then have "encodeRequestBody (ReadKeyRangeRequest start stop) = Ok (kv_bytes (slice_of start) (slice_of stop))"
    unfolding encodeRequestBody.simps encodeReadKeyRange_def by auto
  moreover have "length (kv_bytes (slice_of start) (slice_of stop)) < MaxFramePayload" using r by (simp add: kv_bytes_def wire_limits)
  ultimately show ?thesis by (simp add: EncodeRequest_def EncodeFrame_Ok_iff)
qed

text \<open>The running size of \<open>runBatch\<close> is the size of the encoded body.\<close>

lemma batchLineEntry_Ok:
  assumes "batchLineEntry plain n l = Ok (e, n')"
  shows "wire_entry_ok e \<and> n' = n + length (wire_entry_bytes e) \<and> n' < MaxFramePayload"
proof -
  have b: "\<not> x > batchBodyBudget \<longleftrightarrow> x < MaxFramePayload" for x by (auto simp: batchBodyBudget_def MaxFramePayload_def)
  show ?thesis
    using assms unfolding batchLineEntry_def Let_def b [symmetric]
    by (auto simp: validateKey_Ok validateValue_def wire_entry_ok_def wire_entry_bytes_def kv_bytes_def batchEntryOverhead_def
        split: sum.splits if_splits)
qed

lemma batchEntries_Ok:
  assumes "batchEntries plain ended i n es ls = Ok es'" "list_all wire_entry_ok es"
    and "n = batchHeaderSize + length (concat (map wire_entry_bytes es))" "n < MaxFramePayload"
  shows "list_all wire_entry_ok es' \<and> batchHeaderSize + length (concat (map wire_entry_bytes es')) < MaxFramePayload"
  using assms
proof (induction plain ended i n es ls rule: batchEntries.induct)
  case (2 plain ended i n es l ls)
  then obtain e n' where e: "batchLineEntry plain n l = Ok (e, n')" by (auto split: sum.splits)
  note ok = batchLineEntry_Ok [OF e]
  have "batchEntries plain ended (Suc i) n' (es @ [e]) ls = Ok es'" using "2.prems"(1) e by simp
  moreover have "list_all wire_entry_ok (es @ [e])" using "2.prems"(2) ok by simp
  moreover have "n' = batchHeaderSize + length (concat (map wire_entry_bytes (es @ [e])))" using "2.prems"(3) ok by simp
  ultimately show ?case using "2.IH" [OF e refl] ok by blast
qed (auto split: if_splits)

lemma batchArgs_Ok:
  assumes "batchArgs env args = Inr (co, es)"
  shows "es \<noteq> [] \<and> length es \<le> MaxBatchEntries \<and> list_all wire_entry_ok es \<and> 4 + length (concat (map wire_entry_bytes es)) < MaxFramePayload"
proof -
  obtain plain ended ls where "batchEntries plain ended 0 batchHeaderSize [] ls = Ok es" "es \<noteq> []" "length es \<le> MaxBatchEntries"
    using assms unfolding batchArgs_def by (auto split: sum.splits if_splits option.splits prod.splits)
  then show ?thesis using batchEntries_Ok [of plain ended 0 batchHeaderSize "[]" ls es] by (simp add: batchHeaderSize_def MaxFramePayload_def)
qed

text \<open>
  C31. The local validation of the command line is complete: whatever \<open>put\<close>, \<open>get\<close>, \<open>delete\<close>, \<open>range\<close> and \<open>batch\<close> send after it has an
  encoding within the wire's limits, so a bad argument is reported as a usage error and never as a failure of the transport. For a batch, the
  size accumulated line by line is that of the frame.
\<close>

theorem validated_arguments_encode:
  "(putArgs env args = Inr (co, key, val) \<longrightarrow> (\<exists>f. EncodeRequest (PutRequest key val) = Ok f)) \<and>
   (oneKeyArgs cmd env args = Inr (co, key) \<longrightarrow>
     (\<exists>f. EncodeRequest (GetRequest key) = Ok f) \<and> (\<exists>f. EncodeRequest (DeleteRequest key) = Ok f)) \<and>
   (rangeArgs env args = Inr (co, start, stop, format) \<longrightarrow> (\<exists>f. EncodeRequest (ReadKeyRangeRequest start stop) = Ok f)) \<and>
   (batchArgs env args = Inr (co, es) \<longrightarrow> (\<exists>f. EncodeRequest (BatchRequest es) = Ok f))"
proof (intro conjI impI)
  assume "putArgs env args = Inr (co, key, val)"
  note k = putArgs_Ok [OF this]
  then have "encodeRequestBody (PutRequest key val) = Ok (kv_bytes key val)" by (simp add: encodePut_Ok_iff)
  moreover have "length (kv_bytes key val) < MaxFramePayload" using k by (simp add: kv_bytes_def wire_limits)
  ultimately show "\<exists>f. EncodeRequest (PutRequest key val) = Ok f" by (simp add: EncodeRequest_def EncodeFrame_Ok_iff)
next
  assume "oneKeyArgs cmd env args = Inr (co, key)"
  then have k: "0 < length key" "length key \<le> MaxKeyLen" by (auto dest: oneKeyArgs_Ok)
  let ?b = "BE_PutUint32 (word_of_nat (length key)) @ key"
  have b: "encodeKeyOnly key = Ok ?b" "length ?b < MaxFramePayload"
    using k by (simp_all add: encodeKeyOnly_Ok_iff wire_limits)
  then show "\<exists>f. EncodeRequest (GetRequest key) = Ok f" "\<exists>f. EncodeRequest (DeleteRequest key) = Ok f"
    by (simp_all add: EncodeRequest_def EncodeFrame_Ok_iff)
next
  assume "rangeArgs env args = Inr (co, start, stop, format)"
  then show "\<exists>f. EncodeRequest (ReadKeyRangeRequest start stop) = Ok f" by (rule rangeArgs_encode)
next
  assume "batchArgs env args = Inr (co, es)"
  note b = batchArgs_Ok [OF this]
  let ?b = "BE_PutUint32 (word_of_nat (length es)) @ concat (map wire_entry_bytes es)"
  have "encodeBatch es = Ok ?b" "length ?b < MaxFramePayload" using b by (simp_all add: encodeBatch_Ok_iff)
  then show "\<exists>f. EncodeRequest (BatchRequest es) = Ok f" by (simp add: EncodeRequest_def EncodeFrame_Ok_iff)
qed

text \<open>A plain environment, in which nothing is refused.\<close>

definition plain_env :: "server cli_env" where
  "plain_env = \<lparr>ev_getenv = \<lambda>_. [], ev_duration = \<lambda>_. None, ev_stdin = ([], False), ev_open = \<lambda>_. None, ev_json = \<lambda>_. ([], True),
     ev_refused = \<lambda>_. False, ev_peer = \<lambda>bs s. ([], s), ev_fault = no_client_fault, ev_frames = \<lambda>_. False\<rparr>"

theorem validated_arguments_encode_witness:
  "\<exists>co f. putArgs plain_env [''k'', ''v''] = Inr (co, [107], [118]) \<and> EncodeRequest (PutRequest [107] [118]) = Ok f"
proof -
  have "putArgs plain_env [''k'', ''v''] = Inr (connOptsOf plain_env [], [107], [118])"
    by (simp add: putArgs_def parseFlags_readFlags flagBool_def flagValue_def ParseBool_def keyArg_def valueArg_def decodeArg_def ascii_def
        validateKey_def validateValue_def wire_limits)
  then show ?thesis using validated_arguments_encode [of plain_env "[''k'', ''v'']"] by blast
qed

end
