(* ===== verification/Cli_Main.thy ===== *)
theory Cli_Main
  imports Cli Open
begin

text \<open>
  The entry point of the command line, \<open>run\<close> and \<open>runServe\<close> of \<open>cmd/little-db/main.go\<close>, with the two parsers of
  \<open>internal/logging/logging.go\<close>. \<open>serve\<close> opens the engine on the data directory, binds, serves until a signal or a failure of the
  listener, shuts down and closes the engine. What clients send meanwhile is the list \<open>sn_input\<close>: pieces of their connections, in the order the engine
  sees them. How \<open>Serve\<close> and \<open>Shutdown\<close> end is open here; theory \<open>Server_Lifecycle\<close> has their steps.
\<close>

section \<open>Log options\<close>

datatype Format = FormatText | FormatJSON

text \<open>
  \<open>strings.ToLower\<close> as far as a comparison with an ASCII word can see it: outside ASCII only the capital I with dot (U+0130) and
  the Kelvin sign (U+212A) have an ASCII letter as their lower case.
\<close>

fun ToLower :: "string \<Rightarrow> string" where
  "ToLower [] = []"
| "ToLower (c # s) =
     (let n = of_char c :: nat in
      if 65 \<le> n \<and> n \<le> 90 then char_of (n + 32) # ToLower s
      else if n = 196 \<and> take 1 s = [CHR 0xB0] then CHR ''i'' # ToLower (drop 1 s)
      else if n = 226 \<and> take 2 s = [CHR 0x84, CHR 0xAA] then CHR ''k'' # ToLower (drop 2 s)
      else c # ToLower s)"

definition ParseFormat :: "string \<Rightarrow> Format option" where
  "ParseFormat s =
     (let l = ToLower s in
      if l = '''' \<or> l = ''text'' then Some FormatText else if l = ''json'' then Some FormatJSON else None)"

definition ParseLevel :: "string \<Rightarrow> int option" where
  "ParseLevel s =
     (let l = ToLower s in
      if l = ''debug'' then Some (- 4) else if l = '''' \<or> l = ''info'' then Some 0
      else if l = ''warn'' \<or> l = ''warning'' then Some 4 else if l = ''error'' then Some 8 else None)"

section \<open>Serve\<close>

text \<open>How serving ends: a signal, after which \<open>Shutdown\<close> may fail, or the return of \<open>Serve\<close>, with an error or without.\<close>

datatype serve_end = StopSignal bool | ServeEnds bool

record serve_env =
  sn_int :: "string \<Rightarrow> int option"
  sn_duration :: "string \<Rightarrow> int option"
  sn_open :: open_env
  sn_bindFails :: bool
  sn_addr :: string
  sn_input :: "(texts \<times> (nat \<Rightarrow> turn_env) \<times> bytes) list"
  sn_end :: serve_end
  sn_close :: close_env

definition intFlag :: "(string \<Rightarrow> int option) \<Rightarrow> flag" where
  "intFlag num = \<lparr>fl_bool = False, fl_ok = \<lambda>s. num s \<noteq> None\<rparr>"

definition serveFlags :: "serve_env \<Rightarrow> flagset" where
  "serveFlags env =
     [(''addr'', stringFlag), (''read-deadline'', durationFlag (sn_duration env)), (''write-deadline'', durationFlag (sn_duration env)),
      (''max-concurrent-range-streams'', intFlag (sn_int env)), (''max-range-response-bytes'', intFlag (sn_int env)),
      (''shutdown-grace'', durationFlag (sn_duration env)), (''data-dir'', stringFlag), (''max-segment-size'', intFlag (sn_int env)),
      (''sync-on-put'', boolFlag), (''write-queue-depth'', intFlag (sn_int env)), (''max-batch-encoded-size'', intFlag (sn_int env)),
      (''compaction-interval'', durationFlag (sn_duration env)), (''log-level'', stringFlag), (''log-format'', stringFlag)]"

definition engineOptions :: "serve_env \<Rightarrow> settings \<Rightarrow> options" where
  "engineOptions env as =
     \<lparr>o_Dir = flagValue as ''data-dir'' '''',
      o_MaxSegmentSize = flagNumber (sn_int env) as ''max-segment-size'' (256 * 1024 * 1024),
      o_SyncOnPut = flagBool as ''sync-on-put'',
      o_WriteQueueDepth = flagNumber (sn_int env) as ''write-queue-depth'' 64,
      o_MaxBatchEncodedSize = flagNumber (sn_int env) as ''max-batch-encoded-size'' (64 * 1024 * 1024),
      o_CompactionInterval = flagNumber (sn_duration env) as ''compaction-interval'' 0\<rparr>"

definition serverOptions :: "serve_env \<Rightarrow> settings \<Rightarrow> server_options" where
  "serverOptions env as =
     \<lparr>so_Addr = flagValue as ''addr'' defaultAddr,
      so_ReadDeadline = flagNumber (sn_duration env) as ''read-deadline'' (30 * second),
      so_WriteDeadline = flagNumber (sn_duration env) as ''write-deadline'' (30 * second),
      so_MaxConcurrentRangeStreams = flagNumber (sn_int env) as ''max-concurrent-range-streams'' 4,
      so_MaxRangeResponseBytes = flagNumber (sn_int env) as ''max-range-response-bytes'' (64 * 1024 * 1024)\<rparr>"

fun serveAll :: "(texts \<times> (nat \<Rightarrow> turn_env) \<times> bytes) list \<Rightarrow> server \<Rightarrow> server" where
  "serveAll [] sv = sv"
| "serveAll ((tx, env, bs) # is) sv = serveAll is (fst (handleConn tx env 0 bs sv fresh_conn))"

text \<open>The deferred close of the engine: an error is printed, the exit code stays.\<close>

definition closeEngine :: "serve_env \<Rightarrow> db \<Rightarrow> 's io \<Rightarrow> 's io \<times> disk" where
  "closeEngine env db io =
     (case Close (sn_close env) db of
        (r, db') \<Rightarrow> (case r of Inl e \<Rightarrow> io\<lparr>io_err := io_err io @ [DCloseEngine e]\<rparr> | Inr _ \<Rightarrow> io, db_disk db'))"

definition serveUntilEnd :: "serve_env \<Rightarrow> settings \<Rightarrow> db \<Rightarrow> 's io \<Rightarrow> int \<times> 's io \<times> disk" where
  "serveUntilEnd env as db io =
     (if sn_bindFails env
      then (exitTransport, closeEngine env db (io\<lparr>io_err := io_err io @ [DBind]\<rparr>))
      else
        let io1 = printOut (ascii (''little-db: listening on '' @ sn_addr env @ '' (data-dir='' @ flagValue as ''data-dir'' '''' @ '')'') @ [10]) io;
            db1 = sv_db (serveAll (sn_input env) (New db (serverOptions env as))) in
        (case sn_end env of
           StopSignal shutdownFails \<Rightarrow>
             let io2 = printOut (ascii ''little-db: shutting down'' @ [10]) io1 in
             if shutdownFails then (exitTransport, closeEngine env db1 (io2\<lparr>io_err := io_err io2 @ [DShutdown]\<rparr>))
             else (exitOK, closeEngine env db1 io2)
         | ServeEnds fails \<Rightarrow>
             if fails then (exitTransport, closeEngine env db1 (io1\<lparr>io_err := io_err io1 @ [DServe]\<rparr>))
             else (exitOK, closeEngine env db1 io1)))"

definition runServe :: "serve_env \<Rightarrow> string list \<Rightarrow> 's io \<Rightarrow> disk \<Rightarrow> int \<times> 's io \<times> disk" where
  "runServe env args io d =
     (let refuse = (\<lambda>x. (exitUsage, io\<lparr>io_err := io_err io @ [x]\<rparr>, d)) in
      (case parseFlags (serveFlags env) args of
         Inl e \<Rightarrow> refuse (DFlag e)
       | Inr (as, pos) \<Rightarrow>
           if flagValue as ''data-dir'' '''' = '''' then refuse DDataDir
           else (case ParseLevel (flagValue as ''log-level'' ''info'') of
             None \<Rightarrow> refuse (DLogLevel (flagValue as ''log-level'' ''info''))
           | Some lvl \<Rightarrow>
               (case ParseFormat (flagValue as ''log-format'' ''text'') of
                  None \<Rightarrow> refuse (DLogFormat (flagValue as ''log-format'' ''text''))
                | Some format \<Rightarrow>
                    (case Open (sn_open env) (engineOptions env as) d of
                       Inl (e, d') \<Rightarrow> (exitTransport, io\<lparr>io_err := io_err io @ [DOpenEngine e]\<rparr>, d')
                     | Inr db \<Rightarrow> serveUntilEnd env as db io)))))"

section \<open>Run\<close>

definition usageText :: "string list" where
  "usageText =
     [''Usage: little-db <subcommand> [flags]'', '''', ''Subcommands:'',
      ''  serve    Run the TCP server, bound to an on-disk engine'', ''  put      PUT a key=value'', ''  get      GET a key'',
      ''  delete   DELETE a key'', ''  range    Stream a key range'', ''  batch    Submit a batch (NDJSON on stdin with \"-\")'',
      ''  stats    Print server stats'', ''  ping     Health-check the server'', '''',
      ''Run \"little-db <subcommand> --help\" for subcommand flags.'']"

definition printUsage :: bytes where
  "printUsage = concat (map (\<lambda>l. ascii l @ [10]) usageText)"

text \<open>\<open>run\<close>: the data commands leave the data directory alone; the server they dial is in \<open>io_peer\<close>.\<close>

definition run :: "'s cli_env \<Rightarrow> serve_env \<Rightarrow> string list \<Rightarrow> 's io \<Rightarrow> disk \<Rightarrow> int \<times> 's io \<times> disk" where
  "run env senv args io d =
     (case args of
        [] \<Rightarrow> (exitUsage, io\<lparr>io_err := io_err io @ [DUsage]\<rparr>, d)
      | cmd # rest \<Rightarrow>
          let local = (\<lambda>(code, io'). (code, io', d)) in
          if cmd = ''serve'' then runServe senv rest io d
          else if cmd = ''put'' then local (runPut env rest io)
          else if cmd = ''get'' then local (runGet env rest io)
          else if cmd = ''delete'' then local (runDelete env rest io)
          else if cmd = ''range'' then local (runRange env rest io)
          else if cmd = ''batch'' then local (runBatch env rest io)
          else if cmd = ''stats'' then local (runStats env rest io)
          else if cmd = ''ping'' then local (runPing env rest io)
          else if cmd = ''-h'' \<or> cmd = ''--help'' \<or> cmd = ''help'' then (exitOK, printOut printUsage io, d)
          else (exitUsage, io\<lparr>io_err := io_err io @ [DUnknown cmd, DUsage]\<rparr>, d))"

end
