(* ===== verification/Cli_Store.thy ===== *)
theory Cli_Store
  imports Cli_Main
begin

text \<open>
  What the command line promises: which exit codes occur and what a usage error leaves alone, that \<open>serve\<close> gives the lock of its data directory back, and
  that a sequence of invocations against a server is a key-value store. The composition is the contract \<open>kv_store\<close> once more, after the engine and the
  remote client, with one process and one connection per operation.
\<close>

section \<open>Exit codes\<close>

abbreviation exit_codes :: "int set" where
  "exit_codes \<equiv> {exitOK, exitTransport, exitUsage, exitRemoteBad, exitNotFound, exitOverloaded}"

text \<open>How a data command may end: a usage error has written and sent nothing.\<close>

definition ends_well :: "'s io \<Rightarrow> int \<times> 's io \<Rightarrow> bool" where
  "ends_well io x \<longleftrightarrow> fst x \<in> exit_codes \<and> (fst x = exitUsage \<longrightarrow> io_out (snd x) = io_out io \<and> io_peer (snd x) = io_peer io)"

lemma ends_well_report: "code \<in> exit_codes \<Longrightarrow> ends_well io (report code ds io)"
  by (simp add: ends_well_def report_def)

lemma ends_well_other: "code \<in> exit_codes - {exitUsage} \<Longrightarrow> ends_well io (report code ds io')" "code \<in> exit_codes - {exitUsage} \<Longrightarrow> ends_well io (code, io')"
  by (auto simp: ends_well_def report_def)

lemma classifyErr_codes: "fst (classifyErr e) \<in> exit_codes - {exitUsage}"
  by (auto simp: classifyErr_def exit_codes_def split: option.splits client_error.splits wire_error.splits)

lemma classifyErr_OK: "fst (classifyErr e) = exitOK \<longleftrightarrow> e = None"
  by (auto simp: classifyErr_def exit_codes_def split: option.splits client_error.splits wire_error.splits)

lemma dialClient_ends: "dialClient env co io = Inl x \<Longrightarrow> ends_well io x"
  by (auto simp: dialClient_def exit_codes_def split: sum.splits intro!: ends_well_report)

lemma refused_ends: "fst x \<in> {exitUsage, exitTransport} \<Longrightarrow> ends_well io (case x of (code, d) \<Rightarrow> report code [d] io)"
  by (cases x) (auto intro: ends_well_report)

lemma putArgs_codes: "putArgs env args = Inl x \<Longrightarrow> fst x \<in> {exitUsage, exitTransport}"
  by (auto simp: putArgs_def valueArg_def Let_def split: sum.splits option.splits if_splits)

lemma oneKeyArgs_codes: "oneKeyArgs cmd env args = Inl x \<Longrightarrow> fst x \<in> {exitUsage, exitTransport}"
  by (auto simp: oneKeyArgs_def split: sum.splits if_splits)

lemma noArgs_codes: "noArgs cmd env args = Inl x \<Longrightarrow> fst x \<in> {exitUsage, exitTransport}"
  by (auto simp: noArgs_def split: sum.splits if_splits)

lemma rangeArgs_codes: "rangeArgs env args = Inl x \<Longrightarrow> fst x \<in> {exitUsage, exitTransport}"
  by (auto simp: rangeArgs_def Let_def split: sum.splits if_splits)

lemma batchArgs_codes: "batchArgs env args = Inl x \<Longrightarrow> fst x \<in> {exitUsage, exitTransport}"
  by (auto simp: batchArgs_def split: sum.splits if_splits option.splits prod.splits)

lemma classified_ends: "(case classifyErr e of (code, ds) \<Rightarrow> report code (f code ds) io') = x \<Longrightarrow> ends_well io x"
  using classifyErr_codes [of e] by (auto split: prod.splits intro!: ends_well_other)

lemma ends_well_done:
  "ends_well io (report exitOK ds io')" "ends_well io (report exitTransport ds io')" "ends_well io (report exitNotFound ds io')"
  "ends_well io (exitOK, io')"
  by (simp_all add: ends_well_def report_def exit_codes_def)

lemma runPut_ends: "ends_well io (runPut env args io)"
proof (cases "putArgs env args")
  case (Inl x)
  then show ?thesis using putArgs_codes [OF Inl] by (simp add: runPut_def refused_ends)
next
  case (Inr x)
  then show ?thesis
    by (auto simp: runPut_def dialClient_ends classified_ends [where f = "\<lambda>code ds. if code \<noteq> exitOK then ds else ds @ [DOk ''put'']"]
        split: sum.splits prod.splits)
qed

lemma runDelete_ends: "ends_well io (runDelete env args io)"
proof (cases "oneKeyArgs ''delete'' env args")
  case (Inl x)
  then show ?thesis using oneKeyArgs_codes [OF Inl] by (simp add: runDelete_def refused_ends)
next
  case (Inr x)
  then show ?thesis
    by (auto simp: runDelete_def dialClient_ends classified_ends [where f = "\<lambda>code ds. if code \<noteq> exitOK then ds else ds @ [DOk ''delete'']"]
        split: sum.splits prod.splits)
qed

lemma runBatch_ends: "ends_well io (runBatch env args io)"
proof (cases "batchArgs env args")
  case (Inl x)
  then show ?thesis using batchArgs_codes [OF Inl] by (simp add: runBatch_def refused_ends)
next
  case (Inr x)
  then show ?thesis
    by (auto simp: runBatch_def dialClient_ends classified_ends [where f = "\<lambda>code ds. if code \<noteq> exitOK then ds else ds @ [DOk ''batch'']"]
        split: sum.splits prod.splits)
qed

lemma runGet_ends: "ends_well io (runGet env args io)"
proof (cases "oneKeyArgs ''get'' env args")
  case (Inl x)
  then show ?thesis using oneKeyArgs_codes [OF Inl] by (simp add: runGet_def refused_ends)
next
  case (Inr x)
  then show ?thesis
    by (auto simp: runGet_def dialClient_ends classified_ends [where f = "\<lambda>code ds. ds"] ends_well_done
        split: sum.splits prod.splits)
qed

lemma runPing_ends: "ends_well io (runPing env args io)"
proof (cases "noArgs ''ping'' env args")
  case (Inl x)
  then show ?thesis using noArgs_codes [OF Inl] by (simp add: runPing_def refused_ends)
next
  case (Inr x)
  then show ?thesis
    by (auto simp: runPing_def dialClient_ends classified_ends [where f = "\<lambda>code ds. ds"] ends_well_done
        split: sum.splits prod.splits)
qed

lemma runStats_ends: "ends_well io (runStats env args io)"
proof (cases "noArgs ''stats'' env args")
  case (Inl x)
  then show ?thesis using noArgs_codes [OF Inl] by (simp add: runStats_def refused_ends)
next
  case (Inr x)
  then show ?thesis
    by (auto simp: runStats_def dialClient_ends classified_ends [where f = "\<lambda>code ds. ds"] ends_well_done
        split: sum.splits prod.splits)
qed

lemma runRange_ends: "ends_well io (runRange env args io)"
proof (cases "rangeArgs env args")
  case (Inl x)
  then show ?thesis using rangeArgs_codes [OF Inl] by (simp add: runRange_def refused_ends)
next
  case (Inr x)
  then show ?thesis
    by (auto simp: runRange_def Let_def dialClient_ends classified_ends [where f = "\<lambda>code ds. ds"] ends_well_done
        split: sum.splits prod.splits)
qed

lemmas commands_end = runPut_ends runGet_ends runDelete_ends runRange_ends runBatch_ends runStats_ends runPing_ends

section \<open>The lock of the data directory\<close>

lemma publishOpen_lock:
  "publishOpen env a b db = Err (e, d) \<Longrightarrow> \<not> d_locked d" "publishOpen env a b db = Ok db' \<Longrightarrow> db_closed db' = db_closed db"
  by (auto simp: publishOpen_def promoteActive_def freshActive_def unlock_def Let_def split: sum.splits option.splits prod.splits if_splits)

lemma finishOpen_lock:
  "finishOpen env a b db = Err (e, d) \<Longrightarrow> \<not> d_locked d" "finishOpen env a b db = Ok db' \<Longrightarrow> db_closed db' = db_closed db"
  by (auto simp: finishOpen_def unlock_def split: sum.splits prod.splits dest: publishOpen_lock)

lemma Open_lock:
  "Open env opts d = Err (e, d') \<Longrightarrow> d_locked d' = d_locked d" "Open env opts d = Ok db \<Longrightarrow> \<not> d_locked d \<and> \<not> db_closed db"
  by (auto simp: Open_def acquireDataDirLock_def unlock_def Let_def initial_db_def split: sum.splits if_splits prod.splits
      dest: finishOpen_lock)

lemma Close_lock: "\<not> db_closed db \<Longrightarrow> \<not> d_locked (db_disk (snd (Close env db)))"
  by (simp add: Close_def Let_def releaseLock_def case_prod_unfold)

lemma submit_closed:
  assumes "\<forall>cc. req \<noteq> WCompactCommit cc"
  shows "db_closed (snd (submit env req db)) = db_closed db"
proof -
  obtain rs db' where p: "processBurst (se_syncW env) (se_syncS env) [(se_req env, req)] db = (rs, db')" by (rule that) (rule prod.collapse [symmetric])
  then show ?thesis using processBurst_one_frame [OF assms p] by (simp add: submit_def)
qed

lemma client_exec_closed: "db_closed (snd (client_exec env q db)) = db_closed db"
  by (cases q) (auto simp: Put_def Delete_def BatchPut_def submit_closed split: sum.splits)

lemma reply_server: "reply tx r sv c = (x, sv', c') \<Longrightarrow> sv' = sv"
  by (auto simp: reply_def split: sum.splits prod.splits)

lemma handleRange_server: "handleRange tx rf start stop sv c = (x, sv', c') \<Longrightarrow> sv' = sv"
  by (auto simp: handleRange_def Let_def split: prod.splits if_splits)

lemma dispatch_closed:
  assumes "dispatch tx de req sv c = (r, sv', c')"
  shows "db_closed (sv_db sv') = db_closed (sv_db sv)"
proof -
  have op: "db_closed (sv_db s) = db_closed (sv_db sv)"
    if "(case client_exec (de_submit de) q (sv_db sv) of (r, db) \<Rightarrow> reply tx (f r) (sv\<lparr>sv_db := db\<rparr>) c) = (x, s, k)" for q f x s k
    using that client_exec_closed [of "de_submit de" q "sv_db sv"] by (auto split: prod.splits dest: reply_server)
  obtain st where d: "dispatchOnce tx de req sv c = ((st, r), sv', c')" using assms by (auto simp: dispatch_def split: prod.splits)
  show ?thesis
  proof (cases req)
    case (PutRequest k v)
    then show ?thesis using op [where q = "CPut k v"] d by simp
  next
    case (DeleteRequest k)
    then show ?thesis using op [where q = "CDelete k"] d by simp
  next
    case (BatchRequest es)
    then show ?thesis using op [where q = "CBatch (map engine_entry es)"] d by simp
  qed (use d in \<open>auto simp: Let_def split: sum.splits prod.splits if_splits dest: reply_server handleRange_server\<close>)
qed

lemma handleConn_closed: "db_closed (sv_db (fst (handleConn tx env i input sv c))) = db_closed (sv_db sv)"
proof (induction tx env i input sv c rule: handleConn.induct)
  case (1 tx env i input sv c)
  show ?case
    by (subst handleConn.simps)
      (use 1 in \<open>auto split: prod.split sum.split wire_error.split dest: dispatch_closed\<close>)
qed

lemma serveAll_closed: "db_closed (sv_db (serveAll is sv)) = db_closed (sv_db sv)"
  by (induction "is" sv rule: serveAll.induct) (simp_all add: handleConn_closed)

lemma New_db [simp]: "sv_db (New db opts) = db"
  by (simp add: New_def Let_def)

text \<open>
  C32. \<open>serve\<close> gives the lock of the data directory back: however it ends (bad flags, a failed open at any step, a failed bind, a signal with a clean or
  failed shutdown, a dead listener, errors while closing) and whatever clients sent meanwhile, the directory is locked afterwards exactly if another
  process had it locked before.
\<close>

theorem serve_releases_lock: "d_locked (snd (snd (runServe env args io d))) = d_locked d"
proof -
  have close: "\<not> d_locked (snd (closeEngine env db io'))" if "\<not> db_closed db" for db and io' :: "'a io"
    using Close_lock [OF that, of "sn_close env"] by (auto simp: closeEngine_def split: prod.splits)
  have "\<not> d_locked (snd (snd (serveUntilEnd env as db io)))" if "\<not> db_closed db" for as db
    using that by (auto simp: serveUntilEnd_def Let_def close serveAll_closed split: serve_end.splits)
  then show ?thesis
    using Open_lock by (fastforce simp: runServe_def Let_def split: sum.splits option.splits if_splits prod.splits)
qed

section \<open>Run\<close>

lemma runServe_ends:
  assumes "runServe env args io d = (code, io', d')"
  shows "code \<in> exit_codes \<and> (code = exitUsage \<longrightarrow> io_out io' = io_out io \<and> io_peer io' = io_peer io \<and> d' = d)"
proof -
  have s: "fst (serveUntilEnd env as db io) \<in> {exitOK, exitTransport}" for as db
    by (auto simp: serveUntilEnd_def Let_def split: serve_end.splits)
  show ?thesis
  proof (cases "\<exists>as db. serveUntilEnd env as db io = (code, io', d')")
    case True
    then obtain as db where "serveUntilEnd env as db io = (code, io', d')" by blast
    then have "code \<in> {exitOK, exitTransport}" using s [of as db] by simp
    then show ?thesis by (auto simp: exit_codes_def)
  next
    case False
    then show ?thesis
      using assms by (auto simp: runServe_def Let_def exit_codes_def split: sum.splits option.splits if_splits prod.splits)
  qed
qed

lemma run_ends:
  assumes "run env senv args io d = (code, io', d')"
  shows "code \<in> exit_codes \<and> (code = exitUsage \<longrightarrow> io_out io' = io_out io \<and> io_peer io' = io_peer io \<and> d' = d)"
proof -
  have l: ?thesis if "(\<lambda>(code, io'). (code, io', d)) x = (code, io', d')" "ends_well io x" for x
    using that by (cases x) (simp add: ends_well_def)
  have u: "code \<in> exit_codes" if "code \<in> {exitOK, exitUsage}" using that by auto
  show ?thesis
  proof (cases args)
    case Nil
    then show ?thesis using assms by (auto simp: run_def)
  next
    case (Cons cmd rest)
    consider (serve) "cmd = ''serve''" | (data) x where "ends_well io x" "(\<lambda>(code, io'). (code, io', d)) x = (code, io', d')"
      | (helps) "code = exitOK" | (usage) "code = exitUsage" "io_out io' = io_out io" "io_peer io' = io_peer io" "d' = d"
      using assms Cons commands_end [of io env rest] unfolding run_def Let_def list.case by (auto split: if_splits)
    then show ?thesis
    proof cases
      case serve
      then show ?thesis using assms Cons runServe_ends by (simp add: run_def)
    next
      case data
      then show ?thesis using l by blast
    qed (auto simp: exit_codes_def)
  qed
qed

text \<open>
  C33. Every invocation ends with one of the six documented exit codes, and the usage code is reserved for what was refused locally: nothing was written to
  standard output, nothing was sent to a server, and the data directory is as it was.
\<close>

theorem run_exit_codes:
  assumes "run env senv args io d = (code, io', d')"
  shows "0 \<le> code \<and> code \<le> 5 \<and> (code = exitUsage \<longrightarrow> io_out io' = io_out io \<and> io_peer io' = io_peer io \<and> d' = d)"
  using run_ends [OF assms] by (auto simp: exit_codes_def)

section \<open>The command line as a store\<close>

lemma hexEncode_positional: "\<not> is_flag (hexEncode bs)" "hexEncode bs \<noteq> ''--''"
proof -
  have d: "hexVal (CHR ''-'') = None" by (simp add: hexVal_def)
  have "hexEncode bs = [] \<or> (\<exists>n < 16. hd (hexEncode bs) = hexChar n)"
    using byte_less [of "hd bs"] by (cases bs) (auto simp: hexEncode_def intro!: exI [of _ "unat (hd bs) div 16"])
  moreover have "hexChar n \<noteq> CHR ''-''" if "n < 16" for n using hexVal_hexChar [OF that] d by auto
  ultimately have "hexEncode bs = [] \<or> hd (hexEncode bs) \<noteq> CHR ''-''" by metis
  then show "\<not> is_flag (hexEncode bs)" "hexEncode bs \<noteq> ''--''" by auto
qed

text \<open>
  An invocation that writes: the command, the environment of its process (variables, standard input, files) and its arguments. What it means, told without
  the program's own checks: the bytes an argument or a field stands for, and the updates of the store.
\<close>

datatype writing = Put_command | Delete_command | Batch_command

fun command_name :: "writing \<Rightarrow> string" where
  "command_name Put_command = ''put''"
| "command_name Delete_command = ''delete''"
| "command_name Batch_command = ''batch''"

type_synonym invocation = "writing \<times> server cli_env \<times> string list"

definition or_empty :: "bytes option \<Rightarrow> bytes" where
  "or_empty x = (case x of None \<Rightarrow> [] | Some b \<Rightarrow> b)"

definition arg_bytes :: "bool \<Rightarrow> string \<Rightarrow> bytes" where
  "arg_bytes asHex arg = (if asHex then or_empty (hexDecode arg) else ascii arg)"

definition field_bytes :: "bool \<Rightarrow> string \<Rightarrow> bytes" where
  "field_bytes plain s = (if plain then ascii s else or_empty (b64Decode s))"

definition line_update :: "bool \<Rightarrow> batchLine \<Rightarrow> bytes \<times> bytes option" where
  "line_update plain l =
     (field_bytes plain (bl_Key l), if bl_Op l = ''delete'' then None else Some (field_bytes plain (bl_Value l)))"

definition batch_input :: "'s cli_env \<Rightarrow> string \<Rightarrow> reader" where
  "batch_input env file = (if file = ''-'' then ev_stdin env else case ev_open env file of None \<Rightarrow> ([], False) | Some r \<Rightarrow> r)"

fun meaning :: "writing \<times> 's cli_env \<times> string list \<Rightarrow> (bytes \<times> bytes option) list" where
  "meaning (Put_command, env, args) =
     (case readFlags (registerConnFlags env @ [(''key-hex'', boolFlag), (''value-hex'', boolFlag), (''value-stdin'', boolFlag)]) args of
        Inl _ \<Rightarrow> []
      | Inr (as, pos) \<Rightarrow>
          [(arg_bytes (flagBool as ''key-hex'') (pos ! 0),
            Some (if flagBool as ''value-stdin'' then fst (ev_stdin env) else arg_bytes (flagBool as ''value-hex'') (pos ! 1)))])"
| "meaning (Delete_command, env, args) =
     (case readFlags (registerConnFlags env @ [(''key-hex'', boolFlag)]) args of
        Inl _ \<Rightarrow> []
      | Inr (as, pos) \<Rightarrow> [(arg_bytes (flagBool as ''key-hex'') (pos ! 0), None)])"
| "meaning (Batch_command, env, args) =
     (case readFlags (registerConnFlags env @ [(''plain'', boolFlag)]) args of
        Inl _ \<Rightarrow> []
      | Inr (as, pos) \<Rightarrow> map (line_update (flagBool as ''plain'')) (fst (ev_json env (batch_input env (pos ! 0)))))"

definition at_server :: "texts \<Rightarrow> dispatch_env \<Rightarrow> server cli_env \<Rightarrow> server cli_env" where
  "at_server tx de env = env\<lparr>ev_peer := server_peer tx (quiet de), ev_fault := no_client_fault\<rparr>"

definition cli_io :: "server \<Rightarrow> server io" where
  "cli_io sv = \<lparr>io_out = \<lparr>ou_bytes = [], ou_writes = 0, ou_fault = \<lambda>_. None\<rparr>, io_err = [], io_peer = sv\<rparr>"

type_synonym cli_world = "texts \<times> dispatch_env \<times> serve_env \<times> disk"

fun cli_exec :: "cli_world \<Rightarrow> invocation \<Rightarrow> server \<Rightarrow> int \<times> server" where
  "cli_exec (tx, de, senv, d) (w, env, args) sv =
     (case run (at_server tx de env) senv (command_name w # args) (cli_io sv) d of (code, io', _) \<Rightarrow> (code, io_peer io'))"

definition cli_inv :: "server \<Rightarrow> store \<Rightarrow> bool" where
  "cli_inv sv m \<longleftrightarrow> store_inv (sv_db sv) m \<and> store_within m"

lemma dialled_inv: "dialClient env co (cli_io sv) = Inr c \<Longrightarrow> cl_peer c = sv \<and> cl_open c \<and> cl_in c = []"
  by (auto simp: dialClient_def Dial_def NewClient_def cli_io_def split: sum.splits if_splits)

lemma dialled_remote: "dialClient env co (cli_io sv) = Inr c \<Longrightarrow> remote_inv c m \<longleftrightarrow> cli_inv sv m"
  using dialled_inv [of env co sv c] by (simp add: remote_inv_def cli_inv_def)

lemma hangUp_peer: "io_peer (hangUp c io) = cl_peer c"
  by (simp add: hangUp_def client_Close_def)

lemma report_simps [simp]: "fst (report code ds io) = code" "io_peer (snd (report code ds io)) = io_peer io" "io_out (snd (report code ds io)) = io_out io"
  by (simp_all add: report_def)

lemma errOf_None: "errOf r = None \<longleftrightarrow> is_ok r"
  by (simp add: errOf_def split: sum.splits)

text \<open>The end of a modifying command: the exit code tells whether the remote operation was carried out.\<close>

lemma remote_command:
  assumes "cli_inv sv m" "good_dispatch de" "dialClient env co (cli_io sv) = Inr c" "remote_exec (tx, de) q c = (r, c')"
  shows "cli_inv (cl_peer c') (if fst (classifyErr (errOf r)) = exitOK then apply_updates m (client_updates q) else m)"
proof -
  have "remote_inv c m" using assms(1,3) dialled_remote by blast
  from remote_exec_inv [OF this _ assms(4)] assms(2)
  have "remote_inv c' (if is_ok r then apply_updates m (client_updates q) else m)" by simp
  then show ?thesis by (simp add: remote_inv_def cli_inv_def classifyErr_OK errOf_None)
qed

text \<open>Parsing the arguments gives the operation back.\<close>

lemma readFlags_bool:
  assumes "Lookup fs name = Some boolFlag" "name \<noteq> []" "hd name \<noteq> CHR ''-''" "CHR ''='' \<notin> set name"
  shows "readFlags fs ((''--'' @ name) # args) = map_sum id (apfst (\<lambda>as. (name, ''true'') # as)) (readFlags fs args)"
proof -
  have tw: "takeWhile (\<lambda>c. c \<noteq> CHR ''='') name = name" using assms(4) by (auto simp: takeWhile_eq_all_conv)
  moreover have "hd name \<noteq> CHR ''=''" using assms(2,4) by (cases name) auto
  ultimately have "flagHead fs (''--'' @ name) = Ok (name, boolFlag, None)" using assms by (simp add: flagHead_def Let_def tw)
  moreover have "boolDefault boolFlag None = Some ''true''" "fl_ok boolFlag ''true''"
    by (auto simp: boolDefault_def boolFlag_def ParseBool_def)
  ultimately show ?thesis using assms(2) by (simp add: flagSet_def)
qed

lemma readFlags_hex: "readFlags fs (hexEncode k # args) = map_sum id (apsnd (\<lambda>ps. hexEncode k # ps)) (readFlags fs args)"
  using hexEncode_positional [of k] by auto

lemma Lookup_conn:
  "Lookup (registerConnFlags env @ fs) name = (if name \<in> {''addr'', ''dial-timeout'', ''request-timeout''} then Lookup (registerConnFlags env) name else Lookup fs name)"
  by (auto simp: Lookup_def registerConnFlags_def)

lemma true_flags:
  "flagBool [(''key-hex'', ''true''), (''value-hex'', ''true'')] ''key-hex''" "flagBool [(''key-hex'', ''true''), (''value-hex'', ''true'')] ''value-hex''"
  "\<not> flagBool [(''key-hex'', ''true''), (''value-hex'', ''true'')] ''value-stdin''" "flagBool [(''key-hex'', ''true'')] ''key-hex''"
  by (simp_all add: flagBool_def flagValue_def ParseBool_def)

lemma putArgs_hex:
  "putArgs env [''--key-hex'', ''--value-hex'', hexEncode k, hexEncode v] =
     (case validateKey k ''key'' of
        Inl d \<Rightarrow> Inl (exitUsage, d)
      | Inr _ \<Rightarrow> (case validateValue v ''value'' of
          Inl d \<Rightarrow> Inl (exitUsage, d)
        | Inr _ \<Rightarrow> Inr (connOptsOf env [(''key-hex'', ''true''), (''value-hex'', ''true'')], k, v)))"
proof -
  let ?fs = "registerConnFlags env @ [(''key-hex'', boolFlag), (''value-hex'', boolFlag), (''value-stdin'', boolFlag)]"
  let ?as = "[(''key-hex'', ''true''), (''value-hex'', ''true'')]"
  have "Lookup ?fs ''key-hex'' = Some boolFlag" "Lookup ?fs ''value-hex'' = Some boolFlag"
    unfolding Lookup_conn by (simp_all add: Lookup_def)
  then have p: "parseFlags ?fs [''--key-hex'', ''--value-hex'', hexEncode k, hexEncode v] = Ok (?as, [hexEncode k, hexEncode v])"
    using readFlags_bool [of ?fs "''key-hex''"] readFlags_bool [of ?fs "''value-hex''"] unfolding parseFlags_readFlags
    by (simp add: readFlags_hex del: readFlags.simps(2))
  show ?thesis
    unfolding putArgs_def p Let_def
    by (auto simp: true_flags keyArg_def valueArg_def decodeArg_def hexDecode_hexEncode split: sum.splits if_splits)
qed

lemma key_hex_parse:
  "parseFlags (registerConnFlags env @ [(''key-hex'', boolFlag)]) [''--key-hex'', hexEncode k] = Ok ([(''key-hex'', ''true'')], [hexEncode k])"
proof -
  let ?fs = "registerConnFlags env @ [(''key-hex'', boolFlag)]"
  have "Lookup ?fs ''key-hex'' = Some boolFlag" unfolding Lookup_conn by (simp add: Lookup_def)
  then show ?thesis
    using readFlags_bool [of ?fs "''key-hex''"] unfolding parseFlags_readFlags by (simp add: readFlags_hex del: readFlags.simps(2))
qed

lemma oneKeyArgs_hex:
  "oneKeyArgs cmd env [''--key-hex'', hexEncode k] =
     (case validateKey k ''key'' of Inl d \<Rightarrow> Inl (exitUsage, d) | Inr _ \<Rightarrow> Inr (connOptsOf env [(''key-hex'', ''true'')], k))"
  by (auto simp: oneKeyArgs_def key_hex_parse true_flags keyArg_def decodeArg_def hexDecode_hexEncode split: sum.splits)

text \<open>What a command sends is what its invocation means.\<close>

lemma at_server_simps [simp]:
  "ev_peer (at_server tx de env) = server_peer tx (quiet de)" "ev_fault (at_server tx de env) = no_client_fault"
  "ev_refused (at_server tx de env) = ev_refused env" "ev_stdin (at_server tx de env) = ev_stdin env"
  "ev_open (at_server tx de env) = ev_open env" "ev_json (at_server tx de env) = ev_json env"
  "ev_frames (at_server tx de env) = ev_frames env" "registerConnFlags (at_server tx de env) = registerConnFlags env"
  by (simp_all add: at_server_def registerConnFlags_def)

lemma decodeArg_bytes: "decodeArg arg asHex label = Ok b \<Longrightarrow> arg_bytes asHex arg = b"
  by (auto simp: decodeArg_def arg_bytes_def or_empty_def split: if_splits option.splits)

lemma keyArg_bytes: "keyArg arg asHex = Ok key \<Longrightarrow> arg_bytes asHex arg = key"
  by (auto simp: keyArg_def dest: decodeArg_bytes split: sum.splits)

lemma valueArg_bytes:
  "valueArg env True h pos = Inr v \<Longrightarrow> validateValue v label = Ok u \<Longrightarrow> fst (ev_stdin env) = v"
  "valueArg env False h pos = Inr v \<Longrightarrow> arg_bytes h (pos ! Suc 0) = v"
  by (auto simp: valueArg_def readLimited_def validateValue_def dest: decodeArg_bytes split: if_splits option.splits sum.splits)

lemma putArgs_meaning:
  assumes "putArgs (at_server tx de env) args = Inr (co, key, v)"
  shows "meaning (Put_command, env, args) = client_updates (CPut key v)"
  using assms by (auto simp: putArgs_def Let_def parseFlags_readFlags split: sum.splits if_splits dest!: keyArg_bytes valueArg_bytes(2)
      intro: valueArg_bytes(1) [of "at_server tx de env", simplified])

lemma oneKeyArgs_meaning:
  assumes "oneKeyArgs cmd (at_server tx de env) args = Inr (co, key)"
  shows "meaning (Delete_command, env, args) = client_updates (CDelete key)"
  using assms by (auto simp: oneKeyArgs_def parseFlags_readFlags split: sum.splits if_splits dest!: keyArg_bytes)

definition wire_update :: "wire_entry \<Rightarrow> bytes \<times> bytes option" where
  "wire_update e = (wb_Key e, if wb_Delete e then None else Some (wb_Value e))"

lemma decodeBatchField_bytes: "decodeBatchField s plain = Ok b \<Longrightarrow> field_bytes plain s = b"
  by (auto simp: decodeBatchField_def field_bytes_def or_empty_def split: if_splits option.splits)

lemma batchLineEntry_meaning: "batchLineEntry plain n l = Ok (x, n') \<Longrightarrow> wire_update x = line_update plain l"
  by (auto simp: batchLineEntry_def wire_update_def line_update_def Let_def split: sum.splits if_splits dest!: decodeBatchField_bytes)

lemma batchEntries_meaning:
  "batchEntries plain ended i n acc ls = Ok xs \<Longrightarrow> map wire_update xs = map wire_update acc @ map (line_update plain) ls"
proof (induction ls arbitrary: i n acc)
  case (Cons l ls)
  then obtain x n' where "batchLineEntry plain n l = Ok (x, n')" "batchEntries plain ended (Suc i) n' (acc @ [x]) ls = Ok xs"
    by (auto split: sum.splits)
  then show ?case using Cons.IH batchLineEntry_meaning by fastforce
qed (auto split: if_splits)

lemma batchArgs_meaning:
  assumes "batchArgs (at_server tx de env) args = Inr (co, xs)"
  shows "meaning (Batch_command, env, args) = client_updates (CBatch (map engine_entry xs))"
proof -
  have "meaning (Batch_command, env, args) = map wire_update xs"
    using assms by (auto simp: batchArgs_def parseFlags_readFlags batch_input_def split: sum.splits if_splits option.splits prod.splits
        dest!: batchEntries_meaning)
  then show ?thesis by (simp add: wire_update_def engine_entry_def)
qed

lemma wire_engine_entry: "map wire_entry_of (map engine_entry xs) = xs"
  by (induction xs) (simp_all add: wire_entry_of_def engine_entry_def)

lemma refused_keeps:
  assumes "fst x \<in> {exitUsage, exitTransport}" "cli_inv sv m"
  shows "cli_inv (io_peer (snd (case x of (code, d) \<Rightarrow> report code [d] (cli_io sv))))
    (if fst (case x of (code, d) \<Rightarrow> report code [d] (cli_io sv)) = exitOK then m' else m)"
  using assms by (cases x) (auto simp: cli_io_def exit_codes_def)

lemma modifying_command:
  assumes "cli_inv sv m" "good_dispatch de"
    and "x = (case dialClient env co (cli_io sv) of
      Inl y \<Rightarrow> y
    | Inr c \<Rightarrow> (case remote_exec (tx, de) q c of
        (r, c') \<Rightarrow> (case classifyErr (errOf r) of (code, ds) \<Rightarrow> report code (f code ds) (hangUp c' (cli_io sv)))))"
  shows "cli_inv (io_peer (snd x)) (if fst x = exitOK then apply_updates m (client_updates q) else m)"
proof (cases "dialClient env co (cli_io sv)")
  case (Inl y)
  then have "y = report exitTransport [DDial (cn_addr co)] (cli_io sv)" by (auto simp: dialClient_def split: sum.splits)
  then show ?thesis using Inl assms(1,3) by (simp add: cli_io_def exit_codes_def)
next
  case (Inr c)
  obtain r c' where r: "remote_exec (tx, de) q c = (r, c')" by (rule that) (rule prod.collapse [symmetric])
  have x: "x = (case classifyErr (errOf r) of (code, ds) \<Rightarrow> report code (f code ds) (hangUp c' (cli_io sv)))" using assms(3) Inr r by simp
  then have "fst x = fst (classifyErr (errOf r))" "io_peer (snd x) = cl_peer c'" by (simp_all add: hangUp_peer split: prod.splits)
  then show ?thesis using remote_command [OF assms(1,2) Inr r] by simp
qed

lemma cli_exec_inv:
  assumes "cli_inv sv m" "good_dispatch de" "cli_exec (tx, de, senv, d) (w, env, args) sv = (code, sv')"
  shows "cli_inv sv' (if code = exitOK then apply_updates m (meaning (w, env, args)) else m)"
proof -
  let ?env = "at_server tx de env" and ?io = "cli_io sv"
  have goal: ?thesis if "cli_exec (tx, de, senv, d) (w, env, args) sv = (fst x, io_peer (snd x))"
    "cli_inv (io_peer (snd x)) (if fst x = exitOK then apply_updates m (meaning (w, env, args)) else m)" for x :: "int \<times> server io"
    using that assms(3) by simp
  show ?thesis
  proof (cases w)
    case Put_command
    let ?x = "runPut ?env args ?io"
    show ?thesis
    proof (rule goal [of ?x])
      show "cli_exec (tx, de, senv, d) (w, env, args) sv = (fst ?x, io_peer (snd ?x))" by (simp add: Put_command run_def split: prod.split)
      show "cli_inv (io_peer (snd ?x)) (if fst ?x = exitOK then apply_updates m (meaning (w, env, args)) else m)"
      proof (cases "putArgs ?env args")
        case (Inl x)
        then show ?thesis using refused_keeps [OF putArgs_codes [OF Inl] assms(1)] by (simp add: runPut_def)
      next
        case (Inr y)
        obtain co k v where y: "y = (co, k, v)" by (cases y)
        show ?thesis unfolding Put_command putArgs_meaning [OF Inr [unfolded y]]
          using Inr y by (intro modifying_command [OF assms(1,2), where env = ?env and co = co and tx = tx and
              f = "\<lambda>code ds. if code \<noteq> exitOK then ds else ds @ [DOk ''put'']"]) (simp add: runPut_def cong: sum.case_cong)
      qed
    qed
  next
    case Delete_command
    let ?x = "runDelete ?env args ?io"
    show ?thesis
    proof (rule goal [of ?x])
      show "cli_exec (tx, de, senv, d) (w, env, args) sv = (fst ?x, io_peer (snd ?x))" by (simp add: Delete_command run_def split: prod.split)
      show "cli_inv (io_peer (snd ?x)) (if fst ?x = exitOK then apply_updates m (meaning (w, env, args)) else m)"
      proof (cases "oneKeyArgs ''delete'' ?env args")
        case (Inl x)
        then show ?thesis using refused_keeps [OF oneKeyArgs_codes [OF Inl] assms(1)] by (simp add: runDelete_def)
      next
        case (Inr y)
        obtain co k where y: "y = (co, k)" by (cases y)
        show ?thesis unfolding Delete_command oneKeyArgs_meaning [OF Inr [unfolded y]]
          using Inr y by (intro modifying_command [OF assms(1,2), where env = ?env and co = co and tx = tx and
              f = "\<lambda>code ds. if code \<noteq> exitOK then ds else ds @ [DOk ''delete'']"]) (simp add: runDelete_def cong: sum.case_cong)
      qed
    qed
  next
    case Batch_command
    let ?x = "runBatch ?env args ?io"
    show ?thesis
    proof (rule goal [of ?x])
      show "cli_exec (tx, de, senv, d) (w, env, args) sv = (fst ?x, io_peer (snd ?x))" by (simp add: Batch_command run_def split: prod.split)
      show "cli_inv (io_peer (snd ?x)) (if fst ?x = exitOK then apply_updates m (meaning (w, env, args)) else m)"
      proof (cases "batchArgs ?env args")
        case (Inl x)
        then show ?thesis using refused_keeps [OF batchArgs_codes [OF Inl] assms(1)] by (simp add: runBatch_def)
      next
        case (Inr y)
        obtain co xs where y: "y = (co, xs)" by (cases y)
        show ?thesis unfolding Batch_command batchArgs_meaning [OF Inr [unfolded y]]
          using Inr y by (intro modifying_command [OF assms(1,2), where env = ?env and co = co and tx = tx and
              f = "\<lambda>code ds. if code \<noteq> exitOK then ds else ds @ [DOk ''batch'']"])
            (simp only: runBatch_def remote_exec.simps wire_engine_entry at_server_simps sum.case prod.case cong: sum.case_cong)
      qed
    qed
  qed
qed

text \<open>Any invocation of \<open>get\<close> that passes the local checks.\<close>

lemma cli_get:
  assumes "cli_inv sv m" "oneKeyArgs ''get'' (at_server tx de env) args = Inr (co, key)" "\<And>a. \<not> ev_refused env a" "de_read de = ok_read"
  shows "run (at_server tx de env) senv (''get'' # args) (cli_io sv) d =
    (case m key of
       None \<Rightarrow> (exitNotFound, (cli_io sv)\<lparr>io_err := [DNoSuchKey key]\<rparr>, d)
     | Some v \<Rightarrow> (exitOK, (cli_io sv)\<lparr>io_out := \<lparr>ou_bytes = v, ou_writes = 1, ou_fault = \<lambda>_. None\<rparr>\<rparr>, d))"
proof -
  let ?env = "at_server tx de env"
  have key: "key \<noteq> []" "length key \<le> MaxKeyLen"
    using assms(2) keyArg_Ok by (fastforce simp: oneKeyArgs_def split: sum.splits if_splits)+
  obtain c where c: "dialClient ?env co (cli_io sv) = Inr c"
    using assms(3) by (simp add: dialClient_def Dial_def)
  have "remote_inv c m" using assms(1) dialled_remote [OF c] by blast
  note g = remote_get_store [OF this key(1) assms(4), of tx]
  have sv: "hangUp c (cli_io sv) = cli_io sv" using dialled_inv [OF c] by (simp add: hangUp_def client_Close_def cli_io_def)
  have "client_Get (server_peer tx (quiet de)) no_client_fault key c = (case m key of None \<Rightarrow> Err ErrNotFound | Some v \<Rightarrow> Ok v, c)"
    using g key(2) by (metis leD prod.collapse)
  then show ?thesis
    using assms(2) c by (simp add: run_def runGet_def sv report_def split: option.split) (simp add: cli_io_def outWrite_def)
qed

definition plain_serve :: serve_env where
  "plain_serve = \<lparr>sn_int = \<lambda>_. None, sn_duration = \<lambda>_. None, sn_open = ok_open_env, sn_bindFails = False, sn_addr = ''127.0.0.1:4242'',
     sn_input = [], sn_end = StopSignal False, sn_close = ok_close_env\<rparr>"

theorem run_exit_codes_witness:
  "\<exists>io' d'. run plain_env plain_serve [''put''] (cli_io small_server) (db_disk (empty_db small_opts)) = (exitUsage, io', d') \<and>
     io_peer io' = small_server \<and> d' = db_disk (empty_db small_opts)"
proof -
  have "putArgs plain_env [] = Inl (exitUsage, DArgs ''put'')"
    by (simp add: putArgs_def parseFlags_readFlags flagBool_def flagValue_def ParseBool_def)
  then obtain io' d' where r: "run plain_env plain_serve [''put''] (cli_io small_server) (db_disk (empty_db small_opts)) = (exitUsage, io', d')"
    by (simp add: run_def runPut_def report_def)
  then show ?thesis using run_exit_codes [OF r] by (auto simp: cli_io_def)
qed

definition cli_value :: "texts \<Rightarrow> serve_env \<Rightarrow> disk \<Rightarrow> bytes \<Rightarrow> server \<Rightarrow> bytes option" where
  "cli_value tx senv d key sv =
     (case run (at_server tx \<lparr>de_submit = ok_submit_env 0, de_read = ok_read\<rparr> plain_env) senv
             [''get'', ''--key-hex'', hexEncode key] (cli_io sv) d of
        (code, io', _) \<Rightarrow> if code = exitOK then Some (ou_bytes (io_out io')) else None)"

lemma cli_value_inv:
  assumes "cli_inv sv m" "key \<noteq> []"
  shows "cli_value tx senv d key sv = m key"
proof (cases "length key \<le> MaxKeyLen")
  case True
  let ?de = "\<lparr>de_submit = ok_submit_env 0, de_read = ok_read\<rparr>"
  have "oneKeyArgs ''get'' (at_server tx ?de plain_env) [''--key-hex'', hexEncode key] =
      Inr (connOptsOf (at_server tx ?de plain_env) [(''key-hex'', ''true'')], key)"
    using assms(2) True by (simp add: oneKeyArgs_hex validateKey_def)
  from cli_get [OF assms(1) this] show ?thesis
    by (auto simp: cli_value_def plain_env_def exit_codes_def split: option.split)
next
  case False
  then have "m key = None" using assms(1) unfolding cli_inv_def store_within_def by (metis not_None_eq)
  then show ?thesis
    using False by (simp add: cli_value_def run_def runGet_def oneKeyArgs_hex validateKey_def report_def exit_codes_def)
qed

interpretation cli: kv_store cli_inv cli_exec meaning "\<lambda>code. code = exitOK" "\<lambda>(tx, de, _). good_dispatch de" "cli_value tx senv d"
  for tx senv d
proof unfold_locales
  fix s m e q r s'
  assume a: "cli_inv s m" "case e of (tx, de, _) \<Rightarrow> good_dispatch de" "cli_exec e q s = (r, s')"
  obtain tx de senv d w env args where e: "e = (tx, de, senv, d)" "q = (w, env, args)" by (metis prod_cases4 prod_cases3)
  from cli_exec_inv [OF a(1) _ a(3) [unfolded e]] a(2) show "cli_inv s' (if r = exitOK then apply_updates m (meaning q) else m)"
    by (simp add: e del: meaning.simps split: if_splits)
qed (rule cli_value_inv)

text \<open>
  C4. The whole program is a key-value store. Take any sequence of invocations of \<open>put\<close>, \<open>delete\<close> and \<open>batch\<close>, with any arguments (raw or hexadecimal keys
  and values, a value or a batch on standard input, a batch in a file, plain or base64 fields, any other flags), each a process of its own in an
  environment of its own. A connection may be refused; one that is made works, and the engine of the server fails in any way but an fsync failure after
  the append (which exits with an error although the value is there). Then \<open>get\<close>, invoked in any way that passes its checks, prints exactly the last value
  written by an invocation that exited with 0, and exits with 0 itself; or it prints nothing and exits with 4 when there is none.
\<close>

theorem cli_last_write_wins:
  assumes "cli_inv sv m" "\<forall>((tx, de, _), q) \<in> set qs. good_dispatch de" "run_ops cli_exec qs sv = (codes, sv')"
    and "readFlags (registerConnFlags env @ [(''key-hex'', boolFlag)]) args = Ok (as, [arg])" "keyArg arg (flagBool as ''key-hex'') = Ok key"
    and "\<forall>a. \<not> ev_refused env a" "de_read de = ok_read"
  shows "run (at_server tx de env) senv (''get'' # args) (cli_io sv') d =
    (case (case map_of (rev (done_updates (\<lambda>code. code = exitOK) meaning codes qs)) key of None \<Rightarrow> m key | Some ov \<Rightarrow> ov) of
       None \<Rightarrow> (exitNotFound, (cli_io sv')\<lparr>io_err := [DNoSuchKey key]\<rparr>, d)
     | Some v \<Rightarrow> (exitOK, (cli_io sv')\<lparr>io_out := \<lparr>ou_bytes = v, ou_writes = 1, ou_fault = \<lambda>_. None\<rparr>\<rparr>, d))"
proof -
  have "\<forall>(e, q) \<in> set qs. case e of (tx, de, _) \<Rightarrow> good_dispatch de" using assms(2) by auto
  from cli.run_inv [OF assms(1) this assms(3)]
  have inv: "cli_inv sv' (apply_updates m (done_updates (\<lambda>code. code = exitOK) meaning codes qs))" by simp
  have "oneKeyArgs ''get'' (at_server tx de env) args = Inr (connOptsOf (at_server tx de env) as, key)"
    using assms(4,5) by (simp add: oneKeyArgs_def parseFlags_readFlags)
  from cli_get [OF inv this _ assms(7)] show ?thesis using assms(6) by (simp add: apply_updates_lookup)
qed

abbreviation hex_put :: invocation where
  "hex_put \<equiv> (Put_command, plain_env, [''--key-hex'', ''--value-hex'', hexEncode [1], hexEncode [2]])"

lemma small_cli_put: "fst (cli_exec (no_texts, small_dispatch, plain_serve, d) hex_put small_server) = exitOK"
proof -
  let ?env = "at_server no_texts small_dispatch plain_env"
  let ?co = "connOptsOf ?env [(''key-hex'', ''true''), (''value-hex'', ''true'')]"
  obtain c where c: "dialClient ?env ?co (cli_io small_server) = Inr c" by (simp add: dialClient_def Dial_def plain_env_def)
  have inv: "remote_inv c Map.empty" unfolding dialled_remote [OF c] using small_remote(1,5) by (simp add: remote_inv_def cli_inv_def)
  obtain db' where "Put (ok_submit_env 5) [1] [2] (empty_db small_opts) = (Ok (), db')" using empty_put_ok by blast
  then have p: "client_exec (de_submit small_dispatch) (CPut [1] [2]) (sv_db (cl_peer c)) = (Ok (), db')"
    using dialled_inv [OF c] by (simp add: small_remote small_dispatch_def)
  have "encodeRequestBody (PutRequest [1] [2]) = Ok (kv_bytes [1] [2])" by (simp add: encodePut_Ok_iff wire_limits)
  then obtain f where "EncodeRequest (op_request (CPut [1] [2])) = Ok f" by (auto simp: EncodeRequest_def EncodeFrame_Ok_iff wire_limits)
  from remote_exec_steps [OF inv this p, of no_texts] obtain x c'
    where x: "client_Put (server_peer no_texts (quiet small_dispatch)) no_client_fault [1] [2] c = (x, c')" "is_ok x" by auto
  have "fst (classifyErr (errOf x)) = exitOK" using x(2) by (simp add: classifyErr_OK errOf_None)
  moreover have "validateKey [1] ''key'' = Ok ()" "validateValue [2] ''value'' = Ok ()" by (simp_all add: validateKey_def validateValue_def wire_limits)
  ultimately show ?thesis using c x(1) by (auto simp: run_def runPut_def putArgs_hex report_def split: prod.split)
qed

lemma hex_put_meaning: "meaning hex_put = [([1], Some [2])]"
proof -
  have v: "validateKey [1] ''key'' = Ok ()" "validateValue [2] ''value'' = Ok ()" by (simp_all add: validateKey_def validateValue_def wire_limits)
  let ?env = "at_server no_texts small_dispatch plain_env"
  have "putArgs ?env [''--key-hex'', ''--value-hex'', hexEncode [1], hexEncode [2]] =
      Inr (connOptsOf ?env [(''key-hex'', ''true''), (''value-hex'', ''true'')], [1], [2])" using v by (simp add: putArgs_hex)
  from putArgs_meaning [OF this] show ?thesis by simp
qed

text \<open>A put of the bytes 1 and 2 in hexadecimal, read back by the raw argument \<open>get\<close> takes for the key 107, which is not there, and in hexadecimal.\<close>

theorem cli_last_write_wins_witness:
  "\<exists>sv' io' io''. run_ops cli_exec [((no_texts, small_dispatch, plain_serve, db_disk (empty_db small_opts)), hex_put)] small_server = ([exitOK], sv') \<and>
     run (at_server no_texts small_dispatch plain_env) plain_serve [''get'', ''--key-hex'', hexEncode [1]] (cli_io sv') (db_disk (empty_db small_opts)) =
       (exitOK, io', db_disk (empty_db small_opts)) \<and> ou_bytes (io_out io') = [2] \<and>
     run (at_server no_texts small_dispatch plain_env) plain_serve [''get'', ''k''] (cli_io sv') (db_disk (empty_db small_opts)) =
       (exitNotFound, io'', db_disk (empty_db small_opts)) \<and> ou_bytes (io_out io'') = []"
proof -
  let ?d = "db_disk (empty_db small_opts)" and ?fs = "registerConnFlags plain_env @ [(''key-hex'', boolFlag)]"
  let ?e = "(no_texts, small_dispatch, plain_serve, ?d)"
  obtain sv' where x: "cli_exec ?e hex_put small_server = (exitOK, sv')" using small_cli_put [of ?d] by (metis prod.collapse)
  then have r: "run_ops cli_exec [(?e, hex_put)] small_server = ([exitOK], sv')" by (simp del: cli_exec.simps)
  have inv: "cli_inv small_server Map.empty" using small_remote(1,5) by (simp add: remote_inv_def cli_inv_def)
  have g: "\<forall>((tx, de, _), q) \<in> set [(?e, hex_put)]. good_dispatch de" by (simp add: small_dispatch_good)
  have n: "\<forall>a. \<not> ev_refused plain_env a" by (simp add: plain_env_def)
  have hex: "readFlags ?fs [''--key-hex'', hexEncode [1]] = Ok ([(''key-hex'', ''true'')], [hexEncode [1]])"
    "keyArg (hexEncode [1]) (flagBool [(''key-hex'', ''true'')] ''key-hex'') = Ok [1]"
    using key_hex_parse [of plain_env "[1]"] by (simp_all add: parseFlags_readFlags keyArg_def decodeArg_def true_flags hexDecode_hexEncode validateKey_def wire_limits)
  have raw: "readFlags ?fs [''k''] = Ok ([], [''k''])" "keyArg ''k'' (flagBool [] ''key-hex'') = Ok [107]"
    by (simp_all add: keyArg_def decodeArg_def flagBool_def flagValue_def ParseBool_def ascii_def validateKey_def wire_limits)
  note get = cli_last_write_wins [OF inv g r _ _ n small_dispatch_good(2), of _ _ _ _ no_texts plain_serve ?d]
  have u: "done_updates (\<lambda>code. code = exitOK) meaning [exitOK] [(?e, hex_put)] = [([1], Some [2])]"
    unfolding done_updates_def using hex_put_meaning by simp
  show ?thesis using r get [OF hex, unfolded u] get [OF raw, unfolded u] by (auto simp: cli_io_def)
qed

section \<open>Range\<close>

text \<open>What one pair looks like on standard output, and output that is still whole.\<close>

definition pair_text :: "string \<Rightarrow> KV \<Rightarrow> bytes" where
  "pair_text format kv =
     (if format = ''ndjson''
      then ascii (''{\"key\":\"'' @ b64Encode (kv_Key kv) @ ''\",\"value\":\"'' @ b64Encode (kv_Value kv) @ ''\"}'') @ [10]
      else kv_Key kv @ [9] @ kv_Value kv @ [10])"

definition printed :: "bytes \<Rightarrow> out \<times> bool \<Rightarrow> bool" where
  "printed bs a \<longleftrightarrow> ou_bytes (fst a) = bs \<and> ou_fault (fst a) = (\<lambda>_. None) \<and> \<not> snd a"

lemma outWrites_clean:
  "ou_fault o1 = (\<lambda>_. None) \<Longrightarrow>
     outWrites bss o1 = (True, o1\<lparr>ou_bytes := ou_bytes o1 @ concat bss, ou_writes := ou_writes o1 + length bss\<rparr>)"
  by (induction bss arbitrary: o1) (simp_all add: outWrite_def)

lemma emit_clean:
  "ou_fault o1 = (\<lambda>_. None) \<Longrightarrow>
     \<exists>n. emit format kv o1 = (True, o1\<lparr>ou_bytes := ou_bytes o1 @ pair_text format kv, ou_writes := n\<rparr>)"
  unfolding emit_def outWrites_clean pair_text_def by auto

lemma emitPairs_clean:
  "ou_fault o1 = (\<lambda>_. None) \<Longrightarrow>
     \<exists>n. emitPairs format kvs o1 = (True, o1\<lparr>ou_bytes := ou_bytes o1 @ concat (map (pair_text format) kvs), ou_writes := n\<rparr>)"
proof (induction kvs arbitrary: o1)
  case Nil
  show ?case by (rule exI [of _ "ou_writes o1"]) simp
next
  case (Cons kv kvs)
  obtain n where "emit format kv o1 = (True, o1\<lparr>ou_bytes := ou_bytes o1 @ pair_text format kv, ou_writes := n\<rparr>)"
    using emit_clean [OF Cons.prems] by blast
  then show ?case using Cons.IH [of "o1\<lparr>ou_bytes := ou_bytes o1 @ pair_text format kv, ou_writes := n\<rparr>"] Cons.prems by auto
qed

lemma emitPage_clean:
  assumes "printed bs a"
  shows "emitPage format kvs a = (True, snd (emitPage format kvs a)) \<and> printed (bs @ concat (map (pair_text format) kvs)) (snd (emitPage format kvs a))"
  using emitPairs_clean [of "fst a" format kvs] assms by (auto simp: printed_def emitPage_def)

lemma pages_printed:
  "printed bs a \<Longrightarrow> printed (bs @ concat (map (pair_text format) (concat pages))) (fold (\<lambda>kvs a. snd (emitPage format kvs a)) pages a)"
proof (induction pages arbitrary: bs a)
  case (Cons kvs pages)
  then show ?case using Cons.IH [OF conjunct2 [OF emitPage_clean [OF Cons.prems]], of format kvs] by simp
qed simp

text \<open>
  C18. End to end, \<open>range\<close> lists the store: for arguments that pass the local checks, on a server with a free slot for a range stream, it prints the
  pairs of the store in the half-open interval in ascending key order, each exactly once and in the chosen format, and exits with 0; or, when they exceed
  the byte cap of the server, it prints a proper prefix of that listing and exits with 5, so that a listing cut short is never taken for a whole one.
  The server is left as it was.
\<close>

theorem cli_range_lists_store:
  assumes "cli_inv sv m" "rangeArgs (at_server tx de env) args = Inr (co, start, stop, format)"
    and "int (sv_rangeSem sv) < so_MaxConcurrentRangeStreams (sv_opts sv)" "de_read de = ok_read"
    and "\<forall>a. \<not> ev_refused env a" "ev_frames env = (\<lambda>_. False)"
  shows "\<exists>ms n io'. sorted_wrt (<) (map fst ms) \<and> set ms = {(k, v). m k = Some v \<and> in_range start stop k} \<and> n \<le> length ms \<and>
    run (at_server tx de env) senv (''range'' # args) (cli_io sv) d = (if n < length ms then exitOverloaded else exitOK, io', d) \<and>
    ou_bytes (io_out io') = concat (map (pair_text format) (map to_kv (take n ms))) \<and> io_peer io' = sv"
proof -
  let ?env = "at_server tx de env"
  obtain c where c: "dialClient ?env co (cli_io sv) = Inr c" using assms(5) by (simp add: dialClient_def Dial_def)
  have inv: "remote_inv c m" using assms(1) dialled_remote [OF c] by blast
  have peer: "cl_peer c = sv" using dialled_inv [OF c] by simp
  obtain f where f: "EncodeRequest (ReadKeyRangeRequest start stop) = Ok f" using rangeArgs_encode [OF assms(2)] by blast
  have norm: "range_norm (start, stop)" using rangeArgs_Ok [OF assms(2)] by simp
  let ?h = "\<lambda>kvs a. snd (emitPage format kvs a)" and ?a = "(io_out (cli_io sv), False)"
  have p0: "printed [] ?a" by (simp add: printed_def cli_io_def)
  have cb: "emitPage format kvs a = (True, ?h kvs a) \<and> (\<exists>bs. printed bs (?h kvs a))" if "\<exists>bs. printed bs a" for kvs a
    using that emitPage_clean by blast
  from remote_range_pages [OF inv norm f, of de "\<lambda>a. \<exists>bs. printed bs a" "emitPage format" ?h ?a tx, OF _ assms(4) cb] assms(3) p0 peer
  obtain ms n pages where ms: "sorted_wrt (<) (map fst ms)" "set ms = {(k, v). m k = Some v \<and> in_range start stop k}" "n \<le> length ms"
    "concat pages = map to_kv (take n ms)"
    and r: "client_ReadKeyRange (server_peer tx (quiet de)) no_client_fault (\<lambda>_. False) start stop (Some (emitPage format)) c ?a =
      (if n < length ms then Err (ClientRemote StatusOverload (ascii ''range response exceeds byte cap'')) else Ok (), fold ?h pages ?a, c)"
    by blast
  obtain o2 e where o2: "fold ?h pages ?a = (o2, e)" by (rule prod.exhaust)
  have pr: "\<not> e" "ou_bytes o2 = concat (map (pair_text format) (map to_kv (take n ms)))"
    using pages_printed [OF p0, of format pages] ms(4) by (simp_all add: o2 printed_def)
  have "ev_frames ?env = (\<lambda>_. False)" using assms(6) by (simp add: at_server_def)
  then have "\<exists>io'. run ?env senv (''range'' # args) (cli_io sv) d = (if n < length ms then exitOverloaded else exitOK, io', d) \<and> io_out io' = o2 \<and> io_peer io' = sv"
    using assms(2) c r pr(1) by (simp add: run_def runRange_def o2 Let_def report_def errOf_def classifyErr_def wire_statuses hangUp_def client_Close_def peer)
  then show ?thesis using ms(1,2,3) pr(2) by blast
qed

theorem cli_range_lists_store_witness:
  "\<exists>io'. run (at_server no_texts small_dispatch plain_env) plain_serve [''range''] (cli_io small_server) (db_disk (empty_db small_opts)) =
     (exitOK, io', db_disk (empty_db small_opts)) \<and> ou_bytes (io_out io') = [] \<and> io_peer io' = small_server"
proof -
  let ?env = "at_server no_texts small_dispatch plain_env"
  have inv: "cli_inv small_server Map.empty" using small_remote(1,5) by (simp add: remote_inv_def cli_inv_def)
  have a: "rangeArgs ?env [] = Inr (connOptsOf ?env [], None, None, ''ndjson'')"
    by (simp add: rangeArgs_def parseFlags_readFlags rangeBound_def flagValue_def slice_of_def)
  show ?thesis
    using cli_range_lists_store [OF inv a, of plain_serve "db_disk (empty_db small_opts)"] small_dispatch_good(2)
    by (auto simp: small_remote plain_env_def)
qed

end
