(* ===== verification/Directory.thy ===== *)
theory Directory
  imports Open
begin

text \<open>
  The data directory as the program meets it: a list of names. The other theories address segment and hint files by their id; this one holds the file
  names (\<open>segmentFilename\<close> in \<open>segment.go\<close>, \<open>hintFilename\<close> in \<open>hint.go\<close>), what \<open>fmt.Sprintf\<close>, \<open>fmt.Sscanf\<close> and
  \<open>filepath.Ext\<close> do for them, and the two loops over \<open>os.ReadDir\<close> (\<open>listSegments\<close> in \<open>engine.go\<close>, \<open>sweepOrphans\<close> in
  \<open>compact.go\<close>), and shows that they compute what \<open>Open\<close> is defined with.
\<close>

section \<open>Names\<close>

text \<open>A name is a sequence of runes, the unit \<open>fmt\<close> scans by.\<close>

type_synonym rune = nat
type_synonym file_name = "rune list"

definition runes :: "string \<Rightarrow> file_name" where
  "runes s = map of_char s"

definition segmentFileExt :: file_name where "segmentFileExt = runes ''.seg''"
definition hintFileExt :: file_name where "hintFileExt = runes ''.hint''"

lemmas file_exts = segmentFileExt_def hintFileExt_def runes_def

text \<open>The verb \<open>%010d\<close> of \<open>fmt.Sprintf\<close>: the decimal digits, filled up with zeros to ten.\<close>

fun decDigits :: "nat \<Rightarrow> file_name" where
  "decDigits n = (if n < 10 then [48 + n] else decDigits (n div 10) @ [48 + n mod 10])"

declare decDigits.simps [simp del]

definition Sprintf_010d :: "nat \<Rightarrow> file_name" where
  "Sprintf_010d n = replicate (10 - length (decDigits n)) 48 @ decDigits n"

definition segmentFilename :: "u32 \<Rightarrow> file_name" where
  "segmentFilename i = Sprintf_010d (unat i) @ segmentFileExt"

definition hintFilename :: "u32 \<Rightarrow> file_name" where
  "hintFilename i = Sprintf_010d (unat i) @ hintFileExt"

text \<open>\<open>filepath.Ext\<close>: from the last dot of the last path element on.\<close>

definition Ext :: "file_name \<Rightarrow> file_name" where
  "Ext path =
     (let rest = dropWhile (\<lambda>c. c \<noteq> 46 \<and> c \<noteq> 47) (rev path) in
      if rest \<noteq> [] \<and> hd rest = 46 then 46 # rev (takeWhile (\<lambda>c. c \<noteq> 46 \<and> c \<noteq> 47) (rev path)) else [])"

text \<open>
  \<open>fmt.Sscanf\<close> with the format \<open>%010d\<close> and a literal: blanks are skipped, a newline among them is an error; at most ten digits are read, at
  least one; a number beyond \<open>uint32\<close> is an error; the literal has to follow, and what comes after it is not looked at.
\<close>

definition isSpace :: "rune \<Rightarrow> bool" where
  "isSpace r \<longleftrightarrow> 9 \<le> r \<and> r \<le> 13 \<or> r \<in> {0x20, 0x85, 0xa0, 0x1680, 0x2028, 0x2029, 0x202f, 0x205f, 0x3000} \<or> 0x2000 \<le> r \<and> r \<le> 0x200a"

fun SkipSpace :: "rune list \<Rightarrow> rune list option" where
  "SkipSpace [] = Some []"
| "SkipSpace (r # rs) = (if r = 10 then None else if isSpace r then SkipSpace rs else Some (r # rs))"

definition isDigit :: "rune \<Rightarrow> bool" where
  "isDigit r \<longleftrightarrow> 48 \<le> r \<and> r \<le> 57"

definition digitsValue :: "rune list \<Rightarrow> nat" where
  "digitsValue ds = foldl (\<lambda>a d. 10 * a + (d - 48)) 0 ds"

definition Sscanf_010d :: "file_name \<Rightarrow> file_name \<Rightarrow> u32 option" where
  "Sscanf_010d name lit =
     (case SkipSpace name of
        None \<Rightarrow> None
      | Some rs \<Rightarrow>
          let tok = takeWhile isDigit (take 10 rs) in
          if tok = [] then None
          else if digitsValue tok \<ge> 2 ^ 32 then None
          else if take (length lit) (drop (length tok) rs) \<noteq> lit then None
          else Some (of_nat (digitsValue tok)))"

section \<open>The loops over the directory\<close>

record dirent =
  en_Name :: file_name
  en_IsDir :: bool

text \<open>The id \<open>listSegments\<close> takes from an entry, if any.\<close>

definition segmentID :: "dirent \<Rightarrow> u32 option" where
  "segmentID e =
     (if en_IsDir e then None
      else if Ext (en_Name e) \<noteq> segmentFileExt then None
      else Sscanf_010d (en_Name e) segmentFileExt)"

fun collectIDs :: "dirent list \<Rightarrow> u32 list \<Rightarrow> u32 list" where
  "collectIDs [] ids = ids"
| "collectIDs (e # es) ids = (case segmentID e of None \<Rightarrow> collectIDs es ids | Some i \<Rightarrow> collectIDs es (ids @ [i]))"

text \<open>The insertion sort: the inner loop swaps \<open>ids[j]\<close> down, the outer one takes the next element.\<close>

fun sinkLoop :: "u32 list \<Rightarrow> nat \<Rightarrow> u32 list" where
  "sinkLoop ids 0 = ids"
| "sinkLoop ids (Suc j) =
     (if ids ! j > ids ! Suc j then sinkLoop (ids[j := ids ! Suc j, Suc j := ids ! j]) j else ids)"

function sortLoop :: "u32 list \<Rightarrow> nat \<Rightarrow> u32 list" where
  "sortLoop ids i = (if i < length ids then sortLoop (sinkLoop ids i) (Suc i) else ids)"
  by pat_completeness auto

lemma length_sinkLoop [simp]: "length (sinkLoop ids j) = length ids"
  by (induction ids j rule: sinkLoop.induct) simp_all

termination sortLoop
  by (relation "measure (\<lambda>(ids, i). length ids - i)") auto

declare sortLoop.simps [simp del]

definition readSegments :: "dirent list \<Rightarrow> u32 list" where
  "readSegments entries = sortLoop (collectIDs entries []) 1"

text \<open>The id of an entry that \<open>sweepOrphans\<close> unlinks when it is not live, and the loop; \<open>fault\<close> says which unlinks fail.\<close>

definition sweepID :: "dirent \<Rightarrow> u32 option" where
  "sweepID e =
     (if en_IsDir e then None
      else let ext = Ext (en_Name e) in
        if ext \<noteq> segmentFileExt \<and> ext \<noteq> hintFileExt then None
        else Sscanf_010d (en_Name e) ext)"

definition unlink :: "(file_name \<Rightarrow> bool) \<Rightarrow> file_name \<Rightarrow> dirent list \<Rightarrow> dirent list" where
  "unlink fault name dir = (if fault name then dir else filter (\<lambda>e. en_Name e \<noteq> name) dir)"

fun sweepLoop :: "(file_name \<Rightarrow> bool) \<Rightarrow> u32 list \<Rightarrow> dirent list \<Rightarrow> dirent list \<Rightarrow> dirent list" where
  "sweepLoop fault live [] dir = dir"
| "sweepLoop fault live (e # es) dir =
     (case sweepID e of
        None \<Rightarrow> sweepLoop fault live es dir
      | Some i \<Rightarrow> if i \<in> set live then sweepLoop fault live es dir else sweepLoop fault live es (unlink fault (en_Name e) dir))"

section \<open>Printing and scanning a name\<close>

lemma digitsValue_foldl: "foldl (\<lambda>a d. 10 * a + (d - 48)) b es = b * 10 ^ length es + digitsValue es"
proof (induction es arbitrary: b)
  case (Cons e es)
  have "digitsValue (e # es) = (e - 48) * 10 ^ length es + digitsValue es" unfolding digitsValue_def [of "e # es"] foldl.simps Cons.IH by simp
  then show ?case unfolding foldl.simps Cons.IH by (simp add: distrib_right)
qed (simp add: digitsValue_def)

lemma digitsValue_append: "digitsValue (ds @ es) = digitsValue ds * 10 ^ length es + digitsValue es"
  using digitsValue_foldl [of "digitsValue ds" es] by (simp add: digitsValue_def)

lemma decDigits_value: "digitsValue (decDigits n) = n"
proof (induction n rule: decDigits.induct)
  case (1 n)
  show ?case
  proof (cases "n < 10")
    case False
    then show ?thesis using 1 [OF False] by (subst decDigits.simps) (simp add: digitsValue_append, simp add: digitsValue_def)
  qed (simp add: decDigits.simps digitsValue_def)
qed

lemma decDigits_digits: "list_all isDigit (decDigits n)"
proof (induction n rule: decDigits.induct)
  case (1 n)
  then show ?case by (cases "n < 10") (simp_all add: decDigits.simps [of n] isDigit_def [of "48 + _"])
qed

lemma length_decDigits: "n < 10 ^ Suc k \<Longrightarrow> 0 < length (decDigits n) \<and> length (decDigits n) \<le> Suc k"
proof (induction k arbitrary: n)
  case (Suc k)
  then have "n div 10 < 10 ^ Suc k" by simp
  from Suc.IH [OF this] show ?case by (subst (1 2) decDigits.simps) auto
qed (simp add: decDigits.simps)

lemma Sprintf_010d_facts:
  assumes "n < 2 ^ 32"
  shows "length (Sprintf_010d n) = 10" "list_all isDigit (Sprintf_010d n)" "digitsValue (Sprintf_010d n) = n"
proof -
  have "length (decDigits n) \<le> 10" using length_decDigits [of n 9] assms by simp
  then show "length (Sprintf_010d n) = 10" by (simp add: Sprintf_010d_def)
  show "list_all isDigit (Sprintf_010d n)" using decDigits_digits by (auto simp: Sprintf_010d_def list_all_iff isDigit_def [of 48])
  have "digitsValue (replicate k 48) = 0" for k by (induction k) (simp_all add: digitsValue_append [of "[48]", simplified] digitsValue_def)
  then show "digitsValue (Sprintf_010d n) = n" by (simp add: Sprintf_010d_def digitsValue_append decDigits_value)
qed

lemma unat_u32: "unat i < 2 ^ 32" for i :: u32
  by transfer (simp add: take_bit_eq_mod)

lemma digits_prefix:
  assumes "list_all isDigit ds" "length ds = 10"
  shows "SkipSpace (ds @ rest) = Some (ds @ rest)" "takeWhile isDigit ds = ds"
proof -
  obtain d ds' where "ds = d # ds'" using assms(2) by (cases ds) auto
  then show "SkipSpace (ds @ rest) = Some (ds @ rest)" using assms(1) by (auto simp: isDigit_def isSpace_def)
  show "takeWhile isDigit ds = ds" using assms by (simp add: takeWhile_eq_all_conv list_all_iff)
qed

lemma Sscanf_Sprintf: "Sscanf_010d (Sprintf_010d (unat i) @ lit @ rest) lit = Some i" for i :: u32
proof -
  note n = unat_u32 [of i]
  note f = Sprintf_010d_facts [OF n]
  have "Sprintf_010d (unat i) \<noteq> []" using f(1) by auto
  then show ?thesis using n f by (simp add: Sscanf_010d_def digits_prefix Let_def)
qed

lemma Ext_append: "46 \<notin> set ys \<Longrightarrow> 47 \<notin> set ys \<Longrightarrow> Ext (xs @ 46 # ys) = 46 # ys"
  by (subgoal_tac "\<forall>c \<in> set (rev ys). c \<noteq> 46 \<and> c \<noteq> 47") (auto simp: Ext_def Let_def dropWhile_append takeWhile_append)

lemma Ext_filename [simp]: "Ext (segmentFilename i) = segmentFileExt" "Ext (hintFilename i) = hintFileExt"
  by (simp_all add: segmentFilename_def hintFilename_def file_exts Ext_append)

lemma exts_differ [simp]: "segmentFileExt \<noteq> hintFileExt" "hintFileExt \<noteq> segmentFileExt"
  by (simp_all add: file_exts)

text \<open>A file the engine names is read as the id it was named for, and a hint is never taken for a segment.\<close>

lemma filename_ids [simp]:
  "segmentID \<lparr>en_Name = segmentFilename i, en_IsDir = False\<rparr> = Some i" "segmentID \<lparr>en_Name = hintFilename i, en_IsDir = False\<rparr> = None"
  "sweepID \<lparr>en_Name = segmentFilename i, en_IsDir = False\<rparr> = Some i" "sweepID \<lparr>en_Name = hintFilename i, en_IsDir = False\<rparr> = Some i"
  using Sscanf_Sprintf [of i segmentFileExt "[]"] Sscanf_Sprintf [of i hintFileExt "[]"]
  by (simp_all add: segmentID_def sweepID_def) (simp_all add: segmentFilename_def hintFilename_def)

lemma filename_inj [simp]:
  "segmentFilename i = segmentFilename j \<longleftrightarrow> i = j" "hintFilename i = hintFilename j \<longleftrightarrow> i = j"
  "segmentFilename i \<noteq> hintFilename j" "hintFilename j \<noteq> segmentFilename i"
  using filename_ids(3) [of i] filename_ids(3) [of j] filename_ids(4) [of i] filename_ids(4) [of j] Ext_filename [of i] Ext_filename [of j] exts_differ
  by (metis option.inject)+

text \<open>Zero padding makes the order of the names the order of the ids, as the comment of \<open>segmentFilename\<close> says.\<close>

lemma digitsValue_Cons: "digitsValue (d # ds) = (d - 48) * 10 ^ length ds + digitsValue ds"
  using digitsValue_append [of "[d]" ds] by (simp add: digitsValue_def)

lemma digitsValue_less: "list_all isDigit ds \<Longrightarrow> digitsValue ds < 10 ^ length ds"
proof (induction ds)
  case (Cons d ds)
  then have "d - 48 \<le> 9" "digitsValue ds < 10 ^ length ds" by (auto simp: isDigit_def)
  moreover from this have "(d - 48) * 10 ^ length ds \<le> 9 * 10 ^ length ds" by (intro mult_le_mono1)
  ultimately have "(d - 48) * 10 ^ length ds + digitsValue ds < 9 * 10 ^ length ds + 10 ^ length ds" by (intro add_le_less_mono)
  then show ?case unfolding digitsValue_Cons by simp
qed (simp add: digitsValue_def)

lemma digits_order:
  assumes "length ds = length es" "list_all isDigit ds" "list_all isDigit es"
  shows "(ds @ ext, es @ ext) \<in> lexord {(a, b). a < b} \<longleftrightarrow> digitsValue ds < digitsValue es"
  using assms
proof (induction ds es rule: list_induct2)
  case Nil
  then show ?case by (simp add: lexord_irreflexive)
next
  case (Cons d ds e es)
  have l: "a * n + x < b * n + y" if "a < b" "x < n" for a b n x y :: nat
  proof -
    have "a * n + n \<le> b * n" using that(1) by (metis Suc_leI mult_Suc add.commute mult_le_mono1)
    then show ?thesis using that(2) by linarith
  qed
  let ?n = "10 ^ length ds"
  have v: "digitsValue ds < ?n" "digitsValue es < ?n" using Cons.prems Cons.hyps digitsValue_less by fastforce+
  have "d < e \<longleftrightarrow> d - 48 < e - 48" "d = e \<longleftrightarrow> d - 48 = e - 48" using Cons.prems by (auto simp: isDigit_def)
  then show ?case
    using Cons l [of "d - 48" "e - 48" "digitsValue ds" ?n "digitsValue es"] l [of "e - 48" "d - 48" "digitsValue es" ?n "digitsValue ds"] v
    by (auto simp: digitsValue_Cons not_less_iff_gr_or_eq)
qed

lemma segmentFilename_order: "(segmentFilename i, segmentFilename j) \<in> lexord {(a, b). a < b} \<longleftrightarrow> i < j"
proof -
  show ?thesis
    using digits_order [of "Sprintf_010d (unat i)" "Sprintf_010d (unat j)" segmentFileExt]
      Sprintf_010d_facts [OF unat_u32 [of i]] Sprintf_010d_facts [OF unat_u32 [of j]]
    by (simp add: segmentFilename_def word_less_nat_alt)
qed

text \<open>
  The scan is more lenient than the names: leading zeros may be missing, blanks may precede and anything may follow up to another extension. Such a
  stranger is listed as the segment of that number, a second time if that one is there as well, and the sweep unlinks it when the number is not live,
  although the comment of \<open>sweepOrphans\<close> says that files are matched by the canonical format.
\<close>

lemma stranger_taken_for_segment:
  "runes ''7.seg'' \<noteq> segmentFilename 7 \<and> segmentID \<lparr>en_Name = runes ''7.seg'', en_IsDir = False\<rparr> = Some 7 \<and>
   segmentID \<lparr>en_Name = runes '' 0000000007.seg.old.seg'', en_IsDir = False\<rparr> = Some 7 \<and>
   sweepLoop (\<lambda>_. False) [1] [\<lparr>en_Name = runes ''7.seg'', en_IsDir = False\<rparr>] [\<lparr>en_Name = runes ''7.seg'', en_IsDir = False\<rparr>] = []"
proof -
  have "length (segmentFilename 7) = 14" by (simp add: segmentFilename_def Sprintf_010d_facts file_exts)
  moreover have "length (runes ''7.seg'') = 5" by (simp add: runes_def)
  ultimately have "runes ''7.seg'' \<noteq> segmentFilename 7" by (metis num.distinct(5) numeral_eq_iff semiring_norm(88) semiring_norm(90))
  moreover have s: "segmentID \<lparr>en_Name = runes ''7.seg'', en_IsDir = False\<rparr> = Some 7"
    "segmentID \<lparr>en_Name = runes '' 0000000007.seg.old.seg'', en_IsDir = False\<rparr> = Some 7"
    by (simp_all add: segmentID_def Ext_def Let_def runes_def file_exts Sscanf_010d_def isSpace_def isDigit_def digitsValue_def)
  moreover have "sweepID \<lparr>en_Name = runes ''7.seg'', en_IsDir = False\<rparr> = Some 7"
    using s(1) by (auto simp: segmentID_def sweepID_def Let_def split: if_splits)
  ultimately show ?thesis by (simp add: unlink_def)
qed

section \<open>The insertion sort\<close>

lemma insort_last: "y \<le> x \<Longrightarrow> insort y (xs @ [x]) = insort y xs @ [x]" for x y :: "'a::linorder"
  by (induction xs) auto

lemma sinkLoop_insort:
  "sorted ys \<Longrightarrow> sinkLoop (ys @ y # zs) (length ys) = insort y ys @ zs"
proof (induction ys arbitrary: zs rule: rev_induct)
  case (snoc x ys)
  let ?ids = "(ys @ [x]) @ y # zs"
  have at: "?ids ! length ys = x" "?ids ! Suc (length ys) = y" by (simp_all add: nth_append)
  have swap: "?ids[length ys := y, Suc (length ys) := x] = ys @ y # x # zs" by (simp add: list_update_append)
  have le: "\<forall>z \<in> set (ys @ [x]). z \<le> x" "sorted ys" using snoc.prems by (auto simp: sorted_append)
  show ?case
  proof (cases "x > y")
    case True
    then have "sinkLoop ?ids (length (ys @ [x])) = sinkLoop (ys @ y # x # zs) (length ys)" unfolding length_append_singleton sinkLoop.simps at swap by simp
    then show ?thesis using True snoc.IH [OF le(2), of "x # zs"] insort_last [of y x ys] by simp
  next
    case False
    then have "insort y (ys @ [x]) = ys @ [x, y]" using sorted_insort_is_snoc [OF snoc.prems, of y] le(1) by fastforce
    then show ?thesis using False unfolding length_append_singleton sinkLoop.simps at by simp
  qed
qed simp

lemma sortLoop_fold: "sorted ys \<Longrightarrow> sortLoop (ys @ zs) (length ys) = fold insort zs ys"
proof (induction zs arbitrary: ys)
  case Nil
  show ?case by (simp add: sortLoop.simps)
next
  case (Cons z zs)
  have "sortLoop (ys @ z # zs) (length ys) = sortLoop (insort z ys @ zs) (Suc (length ys))"
    using Cons.prems by (subst sortLoop.simps) (simp add: sinkLoop_insort)
  then show ?case using Cons.IH [of "insort z ys"] Cons.prems by (simp add: sorted_insort)
qed

lemma sortLoop_sort: "sortLoop ids 1 = sort ids"
proof (cases ids)
  case (Cons i ids')
  have "sortLoop ids 1 = fold insort ids' [i]" using sortLoop_fold [of "[i]" ids'] Cons by simp
  also have "\<dots> = fold insort ids []" using Cons by simp
  finally show ?thesis by (simp add: sort_conv_fold)
qed (simp add: sortLoop.simps)

section \<open>The directory of a disk\<close>

text \<open>
  The entries show the files of a disk: its segments and hints stand there under their names, among any other entries (\<open>MANIFEST\<close>, \<open>LOCK\<close>,
  temporary files, directories, files of other programs).
\<close>

abbreviation file_entry :: "file_name \<Rightarrow> dirent" where
  "file_entry name \<equiv> \<lparr>en_Name = name, en_IsDir = False\<rparr>"

definition dir_shows :: "dirent list \<Rightarrow> disk \<Rightarrow> bool" where
  "dir_shows es d \<longleftrightarrow> distinct (map en_Name es) \<and>
     (\<forall>i. file_entry (segmentFilename i) \<in> set es \<longleftrightarrow> map_get (d_files d) i \<noteq> None) \<and>
     (\<forall>i. file_entry (hintFilename i) \<in> set es \<longleftrightarrow> map_get (d_hints d) i \<noteq> None)"

text \<open>No name of another file scans as an id. \<open>stranger_taken_for_segment\<close> has files for which this fails.\<close>

definition no_strangers :: "dirent list \<Rightarrow> bool" where
  "no_strangers es \<longleftrightarrow>
     (\<forall>e \<in> set es. sweepID e \<noteq> None \<longrightarrow> (\<exists>i. e = file_entry (segmentFilename i) \<or> e = file_entry (hintFilename i)))"

lemma segmentID_sweepID: "segmentID e = Some i \<Longrightarrow> sweepID e = Some i"
  by (auto simp: segmentID_def sweepID_def Let_def split: if_splits)

lemma segmentID_shown:
  assumes "no_strangers es" "e \<in> set es"
  shows "segmentID e = Some i \<longleftrightarrow> e = file_entry (segmentFilename i)"
proof
  assume s: "segmentID e = Some i"
  then have "sweepID e \<noteq> None" by (simp add: segmentID_sweepID)
  then obtain j where "e = file_entry (segmentFilename j) \<or> e = file_entry (hintFilename j)" using assms unfolding no_strangers_def by blast
  then show "e = file_entry (segmentFilename i)" using s by auto
qed simp

lemma collectIDs_filter: "collectIDs es ids = ids @ List.map_filter segmentID es"
  by (induction es arbitrary: ids) (simp_all add: map_filter_simps split: option.split)

lemma readSegments_sort: "readSegments es = sort (List.map_filter segmentID es)"
  unfolding readSegments_def collectIDs_filter sortLoop_sort by simp

lemma readSegments_listSegments:
  assumes "dir_shows es d" "map_ok (d_files d)" "no_strangers es"
  shows "readSegments es = listSegments d"
proof -
  let ?ids = "List.map_filter segmentID es"
  have "set ?ids = {i. file_entry (segmentFilename i) \<in> set es}"
    using segmentID_shown [OF assms(3)] by (auto simp: map_filter_def image_iff) force
  then have "set ?ids = set (map_keys (d_files d))" using assms(1) by (simp add: dir_shows_def set_map_keys)
  moreover have "distinct ?ids"
  proof -
    have "inj_on (\<lambda>e. the (segmentID e)) (set (filter (\<lambda>e. segmentID e \<noteq> None) es))"
      using segmentID_shown [OF assms(3)] by (fastforce simp: inj_on_def)
    moreover have "distinct es" using assms(1) by (simp add: dir_shows_def distinct_map)
    ultimately show ?thesis by (simp add: map_filter_def distinct_map comp_def)
  qed
  ultimately have "sort ?ids = sort (map_keys (d_files d))"
    using distinct_map_keys [OF assms(2)] by (intro sorted_distinct_set_unique) simp_all
  then show ?thesis unfolding readSegments_sort listSegments_def .
qed

section \<open>The sweep\<close>

lemma sweep_map_get:
  assumes "map_ok m"
  shows "map_get (sweep_map fault live m) i = (if i \<in> set live \<or> fault i then map_get m i else None)"
proof -
  have "map_ok m \<Longrightarrow> map_get (foldl (\<lambda>m i. if i \<in> set live \<or> fault i then m else map_del m i) m ks) i =
      (if i \<in> set ks \<and> \<not> (i \<in> set live \<or> fault i) then None else map_get m i)" for ks
    by (induction ks arbitrary: m) (auto simp: map_index_simps)
  from this [OF assms, of "map_keys m"] show ?thesis using map_keys_iff [of i m] by (auto simp: sweep_map_def)
qed

text \<open>What the loop leaves: an entry goes when one of its name was an orphan that could be unlinked.\<close>

definition swept :: "(file_name \<Rightarrow> bool) \<Rightarrow> u32 list \<Rightarrow> dirent \<Rightarrow> bool" where
  "swept fault live e \<longleftrightarrow> \<not> fault (en_Name e) \<and> (case sweepID e of None \<Rightarrow> False | Some i \<Rightarrow> i \<notin> set live)"

lemma sweepLoop_filter:
  "sweepLoop fault live es dir = filter (\<lambda>x. \<not> (\<exists>e \<in> set es. swept fault live e \<and> en_Name e = en_Name x)) dir"
proof (induction es arbitrary: dir)
  case (Cons e es)
  show ?case
    by (simp add: Cons.IH unlink_def swept_def [of _ _ e] split: option.split) (intro conjI impI allI filter_cong; auto)
qed simp

lemma sweepLoop_dir:
  assumes "distinct (map en_Name es)"
  shows "sweepLoop fault live es es = filter (\<lambda>e. \<not> swept fault live e) es"
  unfolding sweepLoop_filter using assms by (intro filter_cong) (auto dest: eq_key_imp_eq_value simp: distinct_map inj_on_def)

lemma swept_shown:
  "swept fault live (file_entry (segmentFilename i)) \<longleftrightarrow> \<not> fault (segmentFilename i) \<and> i \<notin> set live"
  "swept fault live (file_entry (hintFilename i)) \<longleftrightarrow> \<not> fault (hintFilename i) \<and> i \<notin> set live"
  by (simp_all add: swept_def)

lemma dir_shows_swept:
  assumes "dir_shows es d" "map_ok (d_files d)" "map_ok (d_hints d)"
  shows "dir_shows (sweepLoop fault live es es)
    (d\<lparr>d_files := sweep_map (\<lambda>i. fault (segmentFilename i)) live (d_files d), d_hints := sweep_map (\<lambda>i. fault (hintFilename i)) live (d_hints d)\<rparr>)"
proof -
  have d: "distinct (map en_Name es)" using assms(1) by (simp add: dir_shows_def)
  show ?thesis
    using assms(1) unfolding dir_shows_def sweepLoop_dir [OF d]
    by (auto simp: sweep_map_get assms(2,3) swept_shown distinct_map_filter)
qed

text \<open>
  C35. What the two loops over the names of the data directory do, whatever other files are in it. \<open>listSegments\<close>, through \<open>Sscanf\<close> and its own
  insertion sort, lists in ascending order the ids of all files whose names scan as one, which are exactly the segments of the disk if no name of a
  foreign file scans as an id. \<open>sweepOrphans\<close> unlinks exactly the files whose names scan as an id that is not live, where the unlink works: of the
  program's own files the orphans, so that the directory then shows the disk which the sweep by ids leaves, and of foreign files those with such a name;
  every other file stays.
\<close>

theorem directory_refines:
  assumes "dir_shows es d" "map_ok (d_files d)" "map_ok (d_hints d)"
    and "readManifest (oe_sweepManifest env) (d_manifest d) = Ok (live, active)" "\<not> oe_sweepReadDir env"
    and "oe_sweepSeg env = (\<lambda>i. fault (segmentFilename i))" "oe_sweepHint env = (\<lambda>i. fault (hintFilename i))"
  shows "readSegments es = sort (List.map_filter segmentID es) \<and> (no_strangers es \<longrightarrow> readSegments es = listSegments d) \<and>
    dir_shows (sweepLoop fault live es es) (snd (sweepOrphans env d)) \<and>
    (\<forall>e \<in> set es. e \<notin> set (sweepLoop fault live es es) \<longleftrightarrow> \<not> fault (en_Name e) \<and> (\<exists>i. sweepID e = Some i \<and> i \<notin> set live))"
proof -
  have d: "distinct (map en_Name es)" using assms(1) by (simp add: dir_shows_def)
  have "snd (sweepOrphans env d) =
      d\<lparr>d_files := sweep_map (\<lambda>i. fault (segmentFilename i)) live (d_files d), d_hints := sweep_map (\<lambda>i. fault (hintFilename i)) live (d_hints d)\<rparr>"
    using assms(4-7) by (simp add: sweepOrphans_def)
  moreover have "\<forall>e \<in> set es. e \<notin> set (sweepLoop fault live es es) \<longleftrightarrow> \<not> fault (en_Name e) \<and> (\<exists>i. sweepID e = Some i \<and> i \<notin> set live)"
    by (auto simp: sweepLoop_dir [OF d] swept_def split: option.splits)
  ultimately show ?thesis
    using readSegments_sort readSegments_listSegments [OF assms(1,2)] dir_shows_swept [OF assms(1-3), of fault live] by simp
qed

definition small_dir :: "dirent list" where
  "small_dir = [file_entry (segmentFilename 2), file_entry (runes ''MANIFEST''), file_entry (segmentFilename 1),
     \<lparr>en_Name = runes ''backup.seg'', en_IsDir = True\<rparr>, file_entry (hintFilename 1)]"

definition small_disk :: disk where
  "small_disk = \<lparr>d_files = [(2, \<lparr>f_data = [], f_synced = 0\<rparr>), (1, \<lparr>f_data = [], f_synced = 0\<rparr>)], d_hints = [(1, [])],
     d_manifest = Some (Some \<lparr>mf_version = 1, mf_segments = [2], mf_active = Some 2\<rparr>), d_locked = False\<rparr>"

lemma filename_digit: "isDigit (hd (segmentFilename i))" "isDigit (hd (hintFilename i))"
proof -
  note f = Sprintf_010d_facts [OF unat_u32 [of i]]
  obtain d ds where "Sprintf_010d (unat i) = d # ds" using f(1) by (cases "Sprintf_010d (unat i)") auto
  then show "isDigit (hd (segmentFilename i))" "isDigit (hd (hintFilename i))" using f(2) by (simp_all add: segmentFilename_def hintFilename_def)
qed

lemma small_dir_shows: "dir_shows small_dir small_disk" "no_strangers small_dir"
proof -
  have n: "runes ''MANIFEST'' \<noteq> segmentFilename i" "runes ''MANIFEST'' \<noteq> hintFilename i"
    "runes ''backup.seg'' \<noteq> segmentFilename i" "runes ''backup.seg'' \<noteq> hintFilename i" for i
  proof -
    have "\<not> isDigit (hd (runes ''MANIFEST''))" "\<not> isDigit (hd (runes ''backup.seg''))" by (simp_all add: runes_def isDigit_def)
    then show "runes ''MANIFEST'' \<noteq> segmentFilename i" "runes ''MANIFEST'' \<noteq> hintFilename i"
      "runes ''backup.seg'' \<noteq> segmentFilename i" "runes ''backup.seg'' \<noteq> hintFilename i"
      using filename_digit [of i] by metis+
  qed
  note n' = n n [symmetric]
  have "Ext (runes ''MANIFEST'') = []" by (simp add: Ext_def runes_def)
  then have s: "sweepID (file_entry (runes ''MANIFEST'')) = None" "sweepID \<lparr>en_Name = runes ''backup.seg'', en_IsDir = True\<rparr> = None"
    by (simp_all add: sweepID_def file_exts)
  have "runes ''MANIFEST'' \<noteq> runes ''backup.seg''" by (simp add: runes_def)
  then have "distinct (map en_Name small_dir)" by (simp add: small_dir_def n')
  moreover have "file_entry (segmentFilename i) \<in> set small_dir \<longleftrightarrow> map_get (d_files small_disk) i \<noteq> None"
    "file_entry (hintFilename i) \<in> set small_dir \<longleftrightarrow> map_get (d_hints small_disk) i \<noteq> None" for i
    by (auto simp: small_dir_def small_disk_def map_get_def n')
  moreover have "\<forall>e \<in> set small_dir. sweepID e \<noteq> None \<longrightarrow> (\<exists>i. e = file_entry (segmentFilename i) \<or> e = file_entry (hintFilename i))"
    using s by (auto simp: small_dir_def)
  ultimately show "dir_shows small_dir small_disk" "no_strangers small_dir" unfolding dir_shows_def no_strangers_def by blast+
qed

theorem directory_refines_witness:
  "readSegments small_dir = [1, 2] \<and> dir_shows (sweepLoop (\<lambda>_. False) [2] small_dir small_dir) (snd (sweepOrphans ok_open_env small_disk)) \<and>
   file_entry (runes ''MANIFEST'') \<in> set (sweepLoop (\<lambda>_. False) [2] small_dir small_dir) \<and>
   file_entry (segmentFilename 2) \<in> set (sweepLoop (\<lambda>_. False) [2] small_dir small_dir)"
proof -
  have "listSegments small_disk = [1, 2]" by (simp add: listSegments_def small_disk_def map_keys_def word_le_nat_alt)
  moreover have "Ext (runes ''MANIFEST'') = []" by (simp add: Ext_def runes_def)
  then have "sweepID (file_entry (runes ''MANIFEST'')) = None" by (simp add: sweepID_def file_exts)
  moreover have "file_entry (runes ''MANIFEST'') \<in> set small_dir" "file_entry (segmentFilename 2) \<in> set small_dir" by (simp_all add: small_dir_def)
  moreover have "readManifest False (d_manifest small_disk) = Ok ([2], 2)" by (simp add: small_disk_def readManifest_def manifestVersion_def)
  ultimately show ?thesis
    using directory_refines [OF small_dir_shows(1), of ok_open_env "[2]" 2 "\<lambda>_. False"]
    by (auto simp: ok_open_env_def small_disk_def map_ok_def small_dir_shows(2))
qed

end
