(* ===== verification/Sequential_Reader.thy ===== *)
theory Sequential_Reader
  imports Segment Log_Record
begin

text \<open>
  Reading a segment from its beginning (\<open>segmentSequentialReader\<close> in \<open>recovery.go\<close>), the reader that recovery and compaction hand to
  \<open>io.ReadFull\<close>, and the read-only handle of \<open>segment.go\<close>. The other theories scan a segment as the list of its bytes up to the published size; here
  that is derived from the reads by offset, for a file of any length.
\<close>

section \<open>The read-only handle\<close>

definition openSegmentReadOnly :: "bool \<Rightarrow> bool \<Rightarrow> (u32, osfile) gomap \<Rightarrow> u32 \<Rightarrow> os_error + segment" where
  "openSegmentReadOnly openFault statFault files i =
     (case map_get files i of
        None \<Rightarrow> Err ErrNotExist
      | Some f \<Rightarrow>
          if openFault then Err ErrOS
          else if statFault then Err ErrOS
          else Ok \<lparr>seg_id = i, seg_size = length (f_data f), seg_bw = None, seg_werr = False\<rparr>)"

text \<open>It has no writer: an append through it fails and changes nothing, a flush does nothing.\<close>

lemma read_only_handle:
  "openSegmentReadOnly openFault statFault files i = Ok s \<Longrightarrow>
     seg_append fault f s p = (Err ErrNilWriter, f, s) \<and> seg_flush fault f s = (Ok (), f, s) \<and>
     (\<exists>g. map_get files i = Some g \<and> seg_size s = length (f_data g))"
  by (auto simp: openSegmentReadOnly_def seg_append_def seg_flush_def split: option.splits if_splits)

section \<open>The reader\<close>

text \<open>
  \<open>Read\<close> into a buffer of \<open>plen\<close> bytes with the reader at \<open>off\<close>: never past the published size, and an \<open>EOF\<close> of \<open>ReadAt\<close> that comes with bytes
  is kept for the next call. The result is the bytes, the error and the new offset.
\<close>

definition seq_Read :: "osfile \<Rightarrow> segment \<Rightarrow> nat \<Rightarrow> nat \<Rightarrow> (bytes \<times> record_error option) \<times> nat" where
  "seq_Read f s plen off =
     (if off \<ge> seg_size s then (([], Some ErrEOF), off)
      else
        let remaining = seg_size s - off; k = min plen remaining;
            bs = take k (drop off (f_data f)); err = (if length bs < k then Some ErrEOF else None) in
        ((bs, if err = Some ErrEOF \<and> length bs > 0 then None else err), off + length bs))"

text \<open>What is left to read at an offset; one read delivers its beginning.\<close>

definition unread :: "osfile \<Rightarrow> segment \<Rightarrow> nat \<Rightarrow> bytes" where
  "unread f s off = drop off (take (seg_size s) (f_data f))"

lemma seq_Read_unread:
  assumes "0 < plen"
  shows "seq_Read f s plen off =
    (if unread f s off = [] then (([], Some ErrEOF), off) else ((take plen (unread f s off), None), off + length (take plen (unread f s off))))"
proof -
  have t: "take (min plen (seg_size s - off)) (drop off (f_data f)) = take plen (unread f s off)"
    by (simp add: unread_def drop_take min.commute)
  show ?thesis unfolding seq_Read_def t Let_def using assms by (auto simp: unread_def)
qed

text \<open>\<open>io.ReadFull\<close> over it: read into the rest of the buffer until it is full or a read fails.\<close>

function ReadFull_seq :: "osfile \<Rightarrow> segment \<Rightarrow> nat \<Rightarrow> bytes \<Rightarrow> nat \<Rightarrow> (record_error + bytes) \<times> nat" where
  "ReadFull_seq f s n got off =
     (if length got < n then
        (case seq_Read f s (n - length got) off of
           ((bs, None), off') \<Rightarrow> ReadFull_seq f s n (got @ bs) off'
         | ((bs, Some err), off') \<Rightarrow>
             if length (got @ bs) \<ge> n then (Ok (got @ bs), off')
             else if length (got @ bs) > 0 \<and> err = ErrEOF then (Err ErrUnexpectedEOF, off')
             else (Err err, off'))
      else (Ok got, off))"
  by pat_completeness auto

lemma seq_Read_progress:
  assumes "seq_Read f s plen off = ((bs, None), off')" "0 < plen"
  shows "bs \<noteq> []"
  using assms by (auto simp: seq_Read_unread split: if_splits)

lemma less_buffer: "length got < n \<Longrightarrow> bs \<noteq> [] \<Longrightarrow> n - length (got @ bs) < n - length got"
  by (cases bs) simp_all

termination ReadFull_seq
proof (relation "measure (\<lambda>(f, s, n, got, off). n - length got)", simp, unfold in_measure prod.case)
  fix f s n and got :: bytes and off x1 y bs x2
  assume "length got < n" "(x1, y) = seq_Read f s (n - length got) off" "(bs, x2) = x1" "x2 = (None :: record_error option)"
  then show "n - length (got @ bs) < n - length got" using seq_Read_progress [of f s "n - length got" off bs y] less_buffer [of got n bs] by simp
qed

declare ReadFull_seq.simps [simp del]

section \<open>Reads by offset are reads of the byte list\<close>

lemma ReadFull_seq_unread:
  "length got \<le> n \<Longrightarrow> ReadFull_seq f s n got off =
     (if n - length got \<le> length (unread f s off) then (Ok (got @ take (n - length got) (unread f s off)), off + (n - length got))
      else (Err (if got = [] \<and> unread f s off = [] then ErrEOF else ErrUnexpectedEOF), off + length (unread f s off)))"
proof (induction "n - length got" arbitrary: got off rule: less_induct)
  case less
  let ?u = "unread f s off" and ?k = "n - length got"
  show ?case
  proof (cases "0 < ?k \<and> ?u \<noteq> []")
    case True
    let ?bs = "take ?k ?u"
    have r: "ReadFull_seq f s n got off = ReadFull_seq f s n (got @ ?bs) (off + length ?bs)"
      using True by (subst ReadFull_seq.simps) (simp add: seq_Read_unread)
    have u: "unread f s (off + length ?bs) = drop ?k ?u" by (simp add: unread_def add.commute min_def)
    have "n - length (got @ ?bs) < ?k" "length (got @ ?bs) \<le> n" using True less_buffer [of got n ?bs] by auto
    from less.hyps [OF this, of "off + length ?bs", unfolded u] show ?thesis unfolding r using True
      by (cases "?k \<le> length ?u") simp_all
  next
    case False
    then show ?thesis using less.prems by (subst ReadFull_seq.simps) (auto simp: seq_Read_unread)
  qed
qed

text \<open>
  Every \<open>io.ReadFull\<close> of recovery and compaction, wherever the reader stands, gives what \<open>readFull\<close> gives on the bytes not yet read, errors included,
  and leaves the reader before the rest.
\<close>

theorem sequential_reads:
  "ReadFull_seq f s n [] off =
     (case readFull n (unread f s off) of
        Inl e \<Rightarrow> (Err e, off + length (unread f s off))
      | Inr (xs, rest) \<Rightarrow> (Ok xs, off + n)) \<and>
   (\<forall>xs rest. readFull n (unread f s off) = Ok (xs, rest) \<longrightarrow> rest = unread f s (off + n))"
  by (auto simp: ReadFull_seq_unread readFull_def unread_def add.commute)

end
