(* ===== verification/Lock_Steps.thy ===== *)
theory Lock_Steps
  imports Compact_Inv
begin

text \<open>
  The writer goroutine step by step. The handlers of theory \<open>Writer\<close> are functions from state to state; here they are cut into the steps that a
  concurrent reader can tell apart (\<open>handleOne\<close>, \<open>handleBatch\<close>, \<open>rotateActive\<close> in \<open>engine.go\<close>, \<open>handleCompactCommit\<close> in \<open>compact.go\<close>), each
  with the answer whether \<open>segmentsMu\<close> is held exclusively for it. Shown are that the steps add up to the handler, and the guarantee they give to
  readers: without the lock a step only adds to the files of open segments, and after every step the index leads to the values of
  the store, which changes in one step.
\<close>

section \<open>Steps\<close>

datatype mutex = Free | Excl

text \<open>A step: whether the lock is held, the state behind it, and the updates that the index shows from then on.\<close>

type_synonym updates = "(bytes \<times> bytes option) list"
type_synonym micro = "mutex \<times> db \<times> updates"

definition publish_micros :: "rotate_env \<Rightarrow> segment \<Rightarrow> db \<Rightarrow> micro list" where
  "publish_micros env nxt db =
     (if re_dirSync env then [(Free, remove_file (re_remove env) (seg_id nxt) db, [])]
      else
        let live = map_keys (db_segments db) @ [seg_id nxt] in
        (case writeManifest (re_manifest env) (d_manifest (db_disk db)) live (seg_id nxt) of
           (Inl e, mf) \<Rightarrow>
             (Free, set_manifest mf db, []) #
             (if e = ErrManifestPublishedButUncertain then [(Free, (set_manifest mf db)\<lparr>db_writesDisabled := True\<rparr>, [])]
              else [(Free, remove_file (re_remove env) (seg_id nxt) (set_manifest mf db), [])])
         | (Inr _, mf) \<Rightarrow>
             [(Free, set_manifest mf db, []),
              (Excl, (set_manifest mf db)\<lparr>db_segments := map_set (db_segments db) (seg_id nxt) nxt, db_active := Some (seg_id nxt)\<rparr>, [])]))"

definition rotate_micros :: "rotate_env \<Rightarrow> db \<Rightarrow> micro list" where
  "rotate_micros env db =
     (case active_seg db of
        None \<Rightarrow> []
      | Some (a, f, s) \<Rightarrow>
          (case seg_sync (re_syncW env) (re_syncS env) f s of
             (Inl e, f1, s1) \<Rightarrow> [(Free, seg_update a f1 s1 db, [])]
           | (Inr _, f1, s1) \<Rightarrow>
               let db1 = seg_update a f1 s1 db;
                   nextID = db_nextID db1;
                   db2 = db1\<lparr>db_nextID := nextID + 1\<rparr> in
               (Free, db1, []) # (Free, db2, []) #
               (case createSegment (re_create env) (db_files db2) nextID of
                  (Inl e, _) \<Rightarrow> []
                | (Inr nxt, files) \<Rightarrow> (Free, set_files files db2, []) # publish_micros env nxt (set_files files db2))))"

definition append_micros :: "write_env \<Rightarrow> bytes \<Rightarrow> db \<Rightarrow> micro list" where
  "append_micros env encBuf db =
     (case active_seg db of
        None \<Rightarrow> []
      | Some (a, f, s) \<Rightarrow>
          (case seg_append (we_append env) f s encBuf of
             (Inl e, f1, s1) \<Rightarrow> [(Free, seg_update a f1 s1 db, [])]
           | (Inr offset, f1, s1) \<Rightarrow>
               (case seg_flush (we_flush env) f1 s1 of
                  (_, f2, s2) \<Rightarrow> [(Free, seg_update a f1 s1 db, []), (Free, seg_update a f2 s2 db, [])])))"

text \<open>
  The part that \<open>handleOne\<close> and \<open>handleBatch\<close> have in common, from the rotation on: \<open>enc\<close> is the encoded record, \<open>idx\<close> the index after the append,
  \<open>us\<close> the updates it shows.
\<close>

definition write_micros ::
  "write_env \<Rightarrow> bool \<Rightarrow> record_error + nat \<times> bytes \<Rightarrow> (u32 \<Rightarrow> nat \<Rightarrow> keydir \<Rightarrow> keydir) \<Rightarrow> updates \<Rightarrow> db \<Rightarrow> micro list" where
  "write_micros env full enc idx us db =
     (if full then rotate_micros (we_rotate env) db else []) @
     (case (if full then rotateActive (we_rotate env) db else (Ok (), db)) of
        (Inl e, db1) \<Rightarrow> []
      | (Inr _, db1) \<Rightarrow>
          (case enc of
             Inl e \<Rightarrow> []
           | Inr (_, encBuf) \<Rightarrow>
               append_micros env encBuf db1 @
               (case appendFlush env encBuf db1 of
                  (Inl e, db2) \<Rightarrow> []
                | (Inr (fileID, offset), db2) \<Rightarrow> [(Free, db2\<lparr>db_keydir := idx fileID offset (db_keydir db2)\<rparr>, us)])))"

definition single_micros :: "write_env \<Rightarrow> byte \<Rightarrow> bytes \<Rightarrow> bytes \<Rightarrow> db \<Rightarrow> micro list" where
  "single_micros env flag key value db =
     (let now = nextTstamp (we_now env) (db_lastTstamp db);
          db0 = db\<lparr>db_lastTstamp := now\<rparr>;
          rec = \<lparr>rec_tstamp = now, rec_flag = flag, rec_key = key, rec_value = value\<rparr> in
      (Free, db0, []) #
      write_micros env (int (active_size db0) + int (encodedSize rec) > o_MaxSegmentSize (db_opts db0))
        (encode rec (replicate (encodedSize rec) 0))
        (\<lambda>fileID offset k.
           if flag = recordFlagTombstone then keydir_delete k key
           else keydir_put k key \<lparr>ke_fileID = fileID, ke_valuePos = int offset + int (recordHeaderSize + length key),
                                  ke_valueLen = word_of_nat (length value), ke_tstamp = now\<rparr>)
        [(key, if flag = recordFlagTombstone then None else Some value)] db0)"

definition batch_micros :: "write_env \<Rightarrow> batch_entry list \<Rightarrow> db \<Rightarrow> micro list" where
  "batch_micros env entries db =
     (let now = nextTstamp (we_now env) (db_lastTstamp db);
          db0 = db\<lparr>db_lastTstamp := now\<rparr>;
          encodedSize = recordHeaderSize + encodedBatchBodySize entries in
      (Free, db0, []) #
      write_micros env (active_size db0 > 0 \<and> int (active_size db0) + int encodedSize > o_MaxSegmentSize (db_opts db0))
        (encodeBatchRecord (replicate encodedSize 0) now entries)
        (\<lambda>fileID offset k. keydir_applyBatch k (batchOps fileID offset now batchCountSize entries))
        (request_updates (WBatch entries)) db0)"

text \<open>The old segments are closed and unlinked one after the other, behind the locked section.\<close>

fun retire_micros :: "commit_env \<Rightarrow> bool \<Rightarrow> segment list \<Rightarrow> db \<Rightarrow> micro list" where
  "retire_micros env u [] db = []"
| "retire_micros env u (s # ss) db = (Free, retireSegment env u db s, []) # retire_micros env u ss (retireSegment env u db s)"

definition commit_micros :: "commit_env \<Rightarrow> compactCommit \<Rightarrow> db \<Rightarrow> micro list" where
  "commit_micros env cc db =
     (let candidateSet = map seg_id (cc_oldSegs cc);
          newLive = filter (\<lambda>i. i \<notin> set candidateSet) (map_keys (db_segments db)) @
            (case cc_newSeg cc of None \<Rightarrow> [] | Some s \<Rightarrow> [seg_id s]) in
      (case db_active db of
         None \<Rightarrow> []
       | Some activeID \<Rightarrow>
           if cc_newSeg cc \<noteq> None \<and> ce_dirSync env then []
           else
             let (r, mf) = writeManifest (ce_manifest env) (d_manifest (db_disk db)) newLive activeID;
                 db1 = set_manifest mf db in
             (Free, db1, []) #
             (if r \<noteq> Ok () \<and> r \<noteq> Err ErrManifestPublishedButUncertain then []
              else
                let segs1 = (case cc_newSeg cc of None \<Rightarrow> db_segments db1 | Some s \<Rightarrow> map_set (db_segments db1) (seg_id s) s);
                    kd1 = foldl (\<lambda>k r. snd (keydir_compareAndSwap k (rw_key r) (rw_oldEntry r) (rw_newEntry r)))
                            (db_keydir db1) (cc_rewrites cc);
                    segs2 = foldl (\<lambda>m s. map_del m (seg_id s)) segs1 (cc_oldSegs cc);
                    db2 = db1\<lparr>db_segments := segs2, db_keydir := kd1\<rparr> in
                (Excl, db2, []) # retire_micros env (r \<noteq> Ok ()) (cc_oldSegs cc) db2)))"

definition one_micros :: "request_env \<Rightarrow> writeRequest \<Rightarrow> db \<Rightarrow> micro list" where
  "one_micros env req db =
     (if db_writesDisabled db then []
      else (case req of
        WBatch entries \<Rightarrow> batch_micros (qe_write env) entries db
      | WCompactCommit cc \<Rightarrow> commit_micros (qe_commit env) cc db
      | WPut key value \<Rightarrow> single_micros (qe_write env) recordFlagPut key value db
      | WDelete key \<Rightarrow> single_micros (qe_write env) recordFlagTombstone key [] db))"

section \<open>The steps add up to the handler\<close>

fun settle :: "db \<Rightarrow> micro list \<Rightarrow> db" where
  "settle db [] = db"
| "settle db ((x, db', us) # ms) = settle db' ms"

lemma settle_append [simp]: "settle db (ms @ ms') = settle (settle db ms) ms'"
  by (induction db ms rule: settle.induct) simp_all

lemma settle_publish: "settle db (publish_micros env nxt db) = snd (publishActive env nxt db)"
  by (simp add: publish_micros_def publishActive_def Let_def split: prod.split sum.split)

lemma settle_rotate: "settle db (rotate_micros env db) = snd (rotateActive env db)"
  by (simp add: rotate_micros_def rotateActive_def Let_def settle_publish split: prod.split sum.split option.split)

lemma settle_append_micros: "settle db (append_micros env p db) = snd (appendFlush env p db)"
  by (simp add: append_micros_def appendFlush_def split: prod.split sum.split option.split)

lemma settle_opt: "settle db (if b then rotate_micros env db else []) = snd (if b then rotateActive env db else (Ok (), db))"
  by (simp add: settle_rotate)

text \<open>The same part as one function.\<close>

definition write_result ::
  "write_env \<Rightarrow> bool \<Rightarrow> record_error + nat \<times> bytes \<Rightarrow> (u32 \<Rightarrow> nat \<Rightarrow> keydir \<Rightarrow> keydir) \<Rightarrow> db \<Rightarrow> (engine_error + bool) \<times> db" where
  "write_result env full enc idx db =
     (case (if full then rotateActive (we_rotate env) db else (Ok (), db)) of
        (Inl e, db1) \<Rightarrow> (Err e, db1)
      | (Inr _, db1) \<Rightarrow>
          (case enc of
             Inl e \<Rightarrow> (Err (EngRecord e), db1)
           | Inr (_, encBuf) \<Rightarrow>
               (case appendFlush env encBuf db1 of
                  (Inl e, db2) \<Rightarrow> (Err e, db2)
                | (Inr (fileID, offset), db2) \<Rightarrow> (Ok True, db2\<lparr>db_keydir := idx fileID offset (db_keydir db2)\<rparr>))))"

lemma settle_write: "settle db (write_micros env full enc idx us db) = snd (write_result env full enc idx db)"
proof -
  obtain r1 db1 where r: "(if full then rotateActive (we_rotate env) db else (Ok (), db)) = (r1, db1)" by (metis surj_pair)
  have s: "settle db (if full then rotate_micros (we_rotate env) db else []) = db1" unfolding settle_opt r by simp
  show ?thesis
    unfolding write_micros_def write_result_def settle_append r s
    by (cases r1; cases enc) (auto simp: settle_append_micros split: prod.split sum.split)
qed

lemma handler_write:
  "\<exists>full enc idx db0. db0 = db\<lparr>db_lastTstamp := nextTstamp (we_now env) (db_lastTstamp db)\<rparr> \<and>
     single_micros env flag key v db = (Free, db0, []) #
       write_micros env full enc idx [(key, if flag = recordFlagTombstone then None else Some v)] db0 \<and>
     handleSingle env flag key v db = write_result env full enc idx db0"
  "\<exists>full enc idx db0. db0 = db\<lparr>db_lastTstamp := nextTstamp (we_now env) (db_lastTstamp db)\<rparr> \<and>
     batch_micros env es db = (Free, db0, []) # write_micros env full enc idx (request_updates (WBatch es)) db0 \<and>
     handleBatch env es db = write_result env full enc idx db0"
  unfolding single_micros_def handleSingle_def batch_micros_def handleBatch_def write_result_def Let_def by blast+

lemma settle_single: "settle db (single_micros env flag key v db) = snd (handleSingle env flag key v db)"
  using handler_write(1) [where db = db and env = env and flag = flag and key = key and v = v] by (auto simp: settle_write)

lemma settle_batch: "settle db (batch_micros env es db) = snd (handleBatch env es db)"
  using handler_write(2) [where db = db and env = env and es = es] by (auto simp: settle_write)

lemma settle_retire: "settle db (retire_micros env u ss db) = foldl (retireSegment env u) db ss"
  by (induction ss arbitrary: db) simp_all

lemma settle_commit: "settle db (commit_micros env cc db) = snd (handleCompactCommit env cc db)"
proof (cases "db_active db")
  case (Some a)
  let ?live = "filter (\<lambda>i. i \<notin> set (map seg_id (cc_oldSegs cc))) (map_keys (db_segments db)) @
    (case cc_newSeg cc of None \<Rightarrow> [] | Some s \<Rightarrow> [seg_id s])"
  obtain r mf where w: "writeManifest (ce_manifest env) (d_manifest (db_disk db)) ?live a = (r, mf)" by (metis surj_pair)
  show ?thesis
    unfolding commit_micros_def handleCompactCommit_def Let_def Some option.case w prod.case
    by (simp add: settle_retire cong: if_cong option.case_cong)
qed (simp add: commit_micros_def handleCompactCommit_def)

lemma settle_one: "settle db (one_micros env req db) = snd (handleOne env req db)"
  by (cases req) (auto simp: one_micros_def handleOne_def settle_single settle_batch settle_commit split: prod.split sum.split)

section \<open>What readers rely on\<close>

text \<open>The rely of a reader inside the read lock: open segments stay open, and their files only get longer.\<close>

definition grows :: "db \<Rightarrow> db \<Rightarrow> bool" where
  "grows db db' \<longleftrightarrow>
     (\<forall>i. map_get (db_segments db) i \<noteq> None \<longrightarrow> map_get (db_segments db') i \<noteq> None \<and>
        (\<forall>f. map_get (db_files db) i = Some f \<longrightarrow> (\<exists>f' d. map_get (db_files db') i = Some f' \<and> f_data f' = f_data f @ d)))"

text \<open>The index leads to the values of the store.\<close>

definition readable :: "store \<Rightarrow> db \<Rightarrow> bool" where
  "readable m db \<longleftrightarrow> map_ok (db_keydir db) \<and>
     (\<forall>key. case keydir_get (db_keydir db) key of
        None \<Rightarrow> m key = None
      | Some e \<Rightarrow> map_get (db_segments db) (ke_fileID e) \<noteq> None \<and> (\<exists>v. m key = Some v \<and> readValue ok_read e db = Ok v))"

lemma grows_refl [simp]: "grows db db"
  by (force simp: grows_def)

lemma grows_cong: "db_segments db' = db_segments db \<Longrightarrow> db_files db' = db_files db \<Longrightarrow> grows db db'"
  by (force simp: grows_def)

lemma grows_open: "grows db db' \<Longrightarrow> map_get (db_segments db) i \<noteq> None \<Longrightarrow> map_get (db_segments db') i \<noteq> None"
  by (simp add: grows_def)

lemma readValue_grows:
  assumes "grows db db'" "map_get (db_segments db) (ke_fileID e) \<noteq> None" "readValue ok_read e db = Ok v"
  shows "readValue ok_read e db' = Ok v"
proof (cases "ke_valueLen e > 0")
  case True
  then obtain f where f: "map_get (db_files db) (ke_fileID e) = Some f"
    "seg_readAt False f (unat (ke_valueLen e)) (ke_valuePos e) = Ok v"
    using assms(3) by (auto simp: readValue_def split: option.splits)
  then obtain f' d where "map_get (db_files db') (ke_fileID e) = Some f'" "f_data f' = f_data f @ d"
    using assms(1,2) unfolding grows_def by blast
  moreover from this f(2) have "seg_readAt False f' (unat (ke_valueLen e)) (ke_valuePos e) = Ok v"
    by (auto simp: seg_readAt_def slice_def split: if_splits)
  ultimately show ?thesis using True by (simp add: readValue_def)
next
  case False
  then show ?thesis using assms(3) by (simp add: readValue_def)
qed

lemma readable_entry:
  assumes "readable m db" "keydir_get (db_keydir db) key = Some e"
  obtains v where "map_get (db_segments db) (ke_fileID e) \<noteq> None" "m key = Some v" "readValue ok_read e db = Ok v"
proof -
  have "case keydir_get (db_keydir db) key of None \<Rightarrow> m key = None
      | Some e \<Rightarrow> map_get (db_segments db) (ke_fileID e) \<noteq> None \<and> (\<exists>v. m key = Some v \<and> readValue ok_read e db = Ok v)"
    using assms(1) unfolding readable_def by blast
  with assms(2) that show ?thesis by auto
qed

lemma readable_None: "readable m db \<Longrightarrow> keydir_get (db_keydir db) key = None \<Longrightarrow> m key = None"
  unfolding readable_def by (drule conjunct2, drule spec [of _ key]) simp

lemma readable_grows:
  assumes "readable m db" "grows db db'" "db_keydir db' = db_keydir db"
  shows "readable m db'"
proof -
  have "case keydir_get (db_keydir db') key of None \<Rightarrow> m key = None
      | Some e \<Rightarrow> map_get (db_segments db') (ke_fileID e) \<noteq> None \<and> (\<exists>v. m key = Some v \<and> readValue ok_read e db' = Ok v)" for key
  proof (cases "keydir_get (db_keydir db) key")
    case None
    then show ?thesis using readable_None [OF assms(1)] assms(3) by simp
  next
    case (Some e)
    from readable_entry [OF assms(1) Some] obtain v where
      "map_get (db_segments db) (ke_fileID e) \<noteq> None" "m key = Some v" "readValue ok_read e db = Ok v" .
    then show ?thesis using Some assms(3) readValue_grows [OF assms(2)] grows_open [OF assms(2)] by simp
  qed
  then show ?thesis using assms(1,3) by (simp add: readable_def)
qed

lemma readable_inv:
  assumes "db_inv L db m"
  shows "readable m db"
proof -
  have rep: "represents (live_contents L db) (db_keydir db) m" using assms by (simp add: db_inv_def)
  have "case keydir_get (db_keydir db) key of None \<Rightarrow> m key = None
      | Some e \<Rightarrow> map_get (db_segments db) (ke_fileID e) \<noteq> None \<and> (\<exists>v. m key = Some v \<and> readValue ok_read e db = Ok v)" for key
  proof (cases "keydir_get (db_keydir db) key")
    case None
    moreover have "m key = None" using represents_None [OF rep, of key] None by simp
    ultimately show ?thesis by (simp only: option.case)
  next
    case (Some e)
    from db_inv_entry [OF assms Some] show ?thesis using Some by auto
  qed
  then show ?thesis using rep by (simp add: readable_def represents_def)
qed

lemma readable_unique: "readable m db \<Longrightarrow> readable m' db \<Longrightarrow> m = m'"
proof
  fix key
  assume r: "readable m db" "readable m' db"
  show "m key = m' key"
  proof (cases "keydir_get (db_keydir db) key")
    case None
    then show ?thesis using readable_None r by metis
  next
    case (Some e)
    then show ?thesis using readable_entry [OF r(1) Some] readable_entry [OF r(2) Some] by (metis Inr_inject)
  qed
qed

section \<open>The guarantee of the writer\<close>

fun micros_ok :: "store \<Rightarrow> db \<Rightarrow> micro list \<Rightarrow> bool" where
  "micros_ok m db [] \<longleftrightarrow> True"
| "micros_ok m db ((x, db', us) # ms) \<longleftrightarrow>
     (x = Free \<longrightarrow> grows db db') \<and> readable (apply_updates m us) db' \<and> micros_ok (apply_updates m us) db' ms"

definition shown :: "micro list \<Rightarrow> updates" where
  "shown ms = concat (map (snd \<circ> snd) ms)"

lemma shown_simps [simp]: "shown [] = []" "shown ((x, db, us) # ms) = us @ shown ms" "shown (ms @ ms') = shown ms @ shown ms'"
  by (simp_all add: shown_def)

lemma micros_ok_append [simp]:
  "micros_ok m db (ms @ ms') \<longleftrightarrow> micros_ok m db ms \<and> micros_ok (apply_updates m (shown ms)) (settle db ms) ms'"
  by (induction m db ms rule: micros_ok.induct) (simp_all add: apply_updates_append)

text \<open>Steps that readers do not notice.\<close>

fun unnoticed :: "db \<Rightarrow> micro list \<Rightarrow> bool" where
  "unnoticed db [] \<longleftrightarrow> True"
| "unnoticed db ((x, db', us) # ms) \<longleftrightarrow> x = Free \<and> us = [] \<and> grows db db' \<and> db_keydir db' = db_keydir db \<and> unnoticed db' ms"

lemma unnoticed_ok: "unnoticed db ms \<Longrightarrow> readable m db \<Longrightarrow> micros_ok m db ms \<and> shown ms = []"
  by (induction db ms rule: unnoticed.induct) (auto intro: readable_grows)

lemma seg_ops_grow:
  "seg_append w f s p = (r, f', s') \<Longrightarrow> \<exists>d. f_data f' = f_data f @ d"
  "seg_flush w f s = (r1, f', s') \<Longrightarrow> \<exists>d. f_data f' = f_data f @ d"
  "seg_sync w b f s = (r2, f', s') \<Longrightarrow> \<exists>d. f_data f' = f_data f @ d"
  by (auto simp: seg_append_def seg_flush_def seg_sync_def fullSync_def Let_def split: option.splits if_splits prod.splits sum.splits)

lemma grows_update:
  assumes "segs_inv L db" "active_seg db = Some (a, f, s)" "f_data f' = f_data f @ d"
  shows "grows db (seg_update a f' s' db)"
  using assms segs_invD(1,2) [OF assms(1)] by (auto simp: grows_def active_seg_Some map_index_simps)

lemma grows_update_twice:
  assumes "segs_inv L db" "f_data f2 = f_data f1 @ d"
  shows "grows (seg_update a f1 s1 db) (seg_update a f2 s2 db)"
  using assms segs_invD(1,2) [OF assms(1)] by (auto simp: grows_def map_index_simps)

lemma append_unnoticed:
  assumes "segs_inv L db"
  shows "unnoticed db (append_micros env p db)"
proof -
  have "unnoticed db [(Free, seg_update a f1 s1 db, []), (Free, seg_update a f2 s2 db, [])]"
    if "active_seg db = Some (a, f, s)" "seg_append w f s p = (r, f1, s1)" "seg_flush w' f1 s1 = (r', f2, s2)" for a f s w w' r r' f1 s1 f2 s2
    using seg_ops_grow(1) [OF that(2)] seg_ops_grow(2) [OF that(3)] grows_update [OF assms that(1)] grows_update_twice [OF assms] by auto
  moreover have "unnoticed db [(Free, seg_update a f1 s1 db, [])]"
    if "active_seg db = Some (a, f, s)" "seg_append w f s p = (r, f1, s1)" for a f s w r f1 s1
    using seg_ops_grow(1) [OF that(2)] grows_update [OF assms that(1)] by auto
  ultimately show ?thesis by (auto simp: append_micros_def split: option.split sum.split prod.split)
qed

lemma grows_new_file:
  assumes "segs_inv L db" "map_get (db_files db) i = None"
  shows "grows db (set_files (map_set (db_files db) i new_file) db)"
  using assms segs_invD(1) [OF assms(1)] by (force simp: grows_def map_index_simps)

lemma grows_remove:
  assumes "map_ok (db_files db)" "map_get (db_segments db) i = None"
  shows "grows db (remove_file b i db)"
  using assms by (force simp: grows_def remove_file_def map_index_simps)

lemma publish_ok:
  assumes "segs_inv L db" "map_get (db_files db) i = None" "db3 = set_files (map_set (db_files db) i new_file) db"
    and "readable m db3" "readable m (snd (publishActive env (new_segment i) db3))"
  shows "micros_ok m db3 (publish_micros env (new_segment i) db3) \<and> shown (publish_micros env (new_segment i) db3) = []"
proof -
  have none: "map_get (db_segments db3) i = None" using segs_invD(4) [OF assms(1), of i] assms(2,3) by (cases "map_get (db_segments db) i") auto
  have ok: "map_ok (db_files db3)" using segs_invD(1) [OF assms(1)] assms(3) by (simp add: map_index_simps)
  have mf: "grows db3 (set_manifest mf db3)" for mf by (rule grows_cong) simp_all
  have rm: "grows db3 (remove_file b i db3)" "grows (set_manifest mf db3) (remove_file b i (set_manifest mf db3))" for b mf
    using ok none by (intro grows_remove; simp)+
  have dis: "grows (set_manifest mf db3) ((set_manifest mf db3)\<lparr>db_writesDisabled := True\<rparr>)" for mf by (rule grows_cong) simp_all
  have r: "readable m (set_manifest mf db3)" for mf by (rule readable_grows [OF assms(4) mf]) simp
  have "readable m (remove_file b i db3)" "readable m (remove_file b i (set_manifest mf db3))"
    "readable m ((set_manifest mf db3)\<lparr>db_writesDisabled := True\<rparr>)" for b mf
    using readable_grows [OF assms(4) rm(1)] readable_grows [OF r rm(2)] readable_grows [OF r dis] by simp_all
  with mf rm dis r assms(5) show ?thesis
    unfolding publish_micros_def publishActive_def Let_def by (simp add: new_segment_def split: prod.splits sum.splits if_splits)
qed

lemma rotate_ok:
  assumes "db_inv L db m"
  shows "micros_ok m db (rotate_micros env db) \<and> shown (rotate_micros env db) = []"
proof -
  have si: "segs_inv L db" using assms by (simp add: db_inv_def)
  then obtain a f s where a: "active_seg db = Some (a, f, s)" by (rule segs_inv_active)
  obtain r1 f1 s1 where sy: "seg_sync (re_syncW env) (re_syncS env) f s = (r1, f1, s1)" by (metis prod_cases3)
  let ?db1 = "seg_update a f1 s1 db"
  let ?db2 = "?db1\<lparr>db_nextID := db_nextID db + 1\<rparr>"
  obtain r2 files where cr: "createSegment (re_create env) (db_files ?db2) (db_nextID db) = (r2, files)" by (metis surj_pair)
  let ?db3 = "set_files files ?db2"
  have g1: "grows db ?db1" using seg_ops_grow(3) [OF sy] grows_update [OF si a] by blast
  have g2: "grows ?db1 ?db2" by (rule grows_cong) simp_all
  have r0: "readable m db" by (rule readable_inv [OF assms])
  have rd: "readable m ?db1" "readable m ?db2" using readable_grows [OF r0 g1] readable_grows [OF _ g2] by simp_all
  show ?thesis
  proof (cases "\<exists>u nxt. r1 = Inr u \<and> r2 = Inr nxt")
    case False
    then show ?thesis using a sy cr g1 g2 rd by (auto simp: rotate_micros_def Let_def split: sum.splits)
  next
    case True
    then obtain nxt where r: "r1 = Inr ()" "r2 = Inr nxt" by auto
    then have n: "nxt = new_segment (db_nextID db)" "map_get (db_files ?db2) (db_nextID db) = None"
      "files = map_set (db_files ?db2) (db_nextID db) new_file" using createSegment_cases [OF cr] by auto
    have "db_inv L ?db1 m" by (rule db_inv_sync(1) [OF assms a sy])
    then have "segs_inv L ?db1" by (simp add: db_inv_def)
    then have si2: "segs_inv L ?db2" by (rule segs_inv_cong) simp_all
    have db3: "?db3 = set_files (map_set (db_files ?db2) (db_nextID db) new_file) ?db2" using n(3) by simp
    have g3: "grows ?db2 ?db3" unfolding db3 by (rule grows_new_file [OF si2 n(2)])
    have r3: "readable m ?db3" using readable_grows [OF rd(2) g3] by simp
    have e: "rotateActive env db = publishActive env nxt ?db3"
      using a sy cr r by (simp add: rotateActive_def Let_def)
    have "readable m (snd (rotateActive env db))" using readable_inv rotateActive_inv(1) [OF assms] by (metis prod.collapse)
    with publish_ok [OF si2 n(2) db3 r3] show ?thesis
      using a sy cr r n(1) e g1 g2 g3 rd r3 by (simp add: rotate_micros_def Let_def)
  qed
qed

lemma write_ok:
  assumes "db_inv L db m" "\<And>db'. write_result env full enc idx db = (Ok True, db') \<Longrightarrow> readable (apply_updates m us) db'"
  shows "micros_ok m db (write_micros env full enc idx us db) \<and>
    shown (write_micros env full enc idx us db) = (if fst (write_result env full enc idx db) = Ok True then us else [])"
proof -
  obtain r1 db1 where r: "(if full then rotateActive (we_rotate env) db else (Ok (), db)) = (r1, db1)" by (metis surj_pair)
  let ?rot = "if full then rotate_micros (we_rotate env) db else []"
  have st: "settle db ?rot = db1" unfolding settle_opt r by simp
  have rot: "micros_ok m db ?rot" "shown ?rot = []" using rotate_ok [OF assms(1)] by simp_all
  have inv1: "db_inv L db1 m" using assms(1) r rotateActive_inv(1) by (auto split: if_splits)
  then have si: "segs_inv L db1" by (simp add: db_inv_def)
  have ap: "micros_ok m db1 (append_micros env p db1)" "shown (append_micros env p db1) = []" for p
    using unnoticed_ok [OF append_unnoticed [OF si] readable_inv [OF inv1]] by simp_all
  have g: "grows d (d\<lparr>db_keydir := k\<rparr>)" for d k by (rule grows_cong) simp_all
  show ?thesis
  proof (cases "\<exists>u n p. r1 = Inr u \<and> enc = Inr (n, p)")
    case False
    then have "write_micros env full enc idx us db = ?rot" "fst (write_result env full enc idx db) \<noteq> Ok True"
      unfolding write_micros_def write_result_def r by (auto split: sum.splits)
    then show ?thesis using rot by simp
  next
    case True
    then obtain n p where t: "r1 = Inr ()" "enc = Inr (n, p)" by auto
    obtain r2 db2 where a2: "appendFlush env p db1 = (r2, db2)" by (metis surj_pair)
    then have st2: "settle db1 (append_micros env p db1) = db2" by (simp add: settle_append_micros)
    show ?thesis
    proof (cases r2)
      case (Inl e)
      have "write_micros env full enc idx us db = ?rot @ append_micros env p db1"
        unfolding write_micros_def r t using a2 Inl by simp
      moreover have "fst (write_result env full enc idx db) \<noteq> Ok True" unfolding write_result_def r t using a2 Inl by simp
      ultimately show ?thesis using rot st ap by simp
    next
      case (Inr x)
      obtain i off where x: "x = (i, off)" by (cases x)
      let ?db3 = "db2\<lparr>db_keydir := idx i off (db_keydir db2)\<rparr>"
      have "write_micros env full enc idx us db = ?rot @ append_micros env p db1 @ [(Free, ?db3, us)]"
        unfolding write_micros_def r t using a2 Inr x by simp
      moreover have w: "write_result env full enc idx db = (Ok True, ?db3)" unfolding write_result_def r t using a2 Inr x by simp
      ultimately show ?thesis using rot st ap st2 assms(2) [OF w] g by simp
    qed
  qed
qed

lemma stamped_ok:
  assumes "db_inv L db m" "db0 = db\<lparr>db_lastTstamp := now\<rparr>" "ms = (Free, db0, []) # write_micros env full enc idx us db0"
    and "h = write_result env full enc idx db0" "\<And>db'. h = (Ok True, db') \<Longrightarrow> readable (apply_updates m us) db'"
  shows "micros_ok m db ms \<and> shown ms = (if fst h = Ok True then us else [])"
proof -
  have inv0: "db_inv L db0 m" by (rule db_inv_cong [OF assms(1)]) (simp_all add: assms(2))
  have "grows db db0" by (rule grows_cong) (simp_all add: assms(2))
  then show ?thesis using write_ok [OF inv0, of env full enc idx us] readable_inv [OF inv0] assms(3-5) by simp
qed

text \<open>A write: readers notice nothing until the index shows all of its updates at once, and that only if it succeeds.\<close>

lemma request_ok:
  assumes "db_inv L db m" "valid_request req" "int64_range (we_now (qe_write env))"
  shows "micros_ok m db (one_micros env req db) \<and>
    shown (one_micros env req db) = (if fst (handleOne env req db) = Ok True then request_updates req else [])"
proof (cases "db_writesDisabled db")
  case True
  then show ?thesis by (simp add: one_micros_def handleOne_def)
next
  case False
  have rd: "readable (apply_updates m (request_updates req)) db'" if "handleOne env req db = (Ok True, db')" for db'
    using handleOne_inv [OF assms that] readable_inv by auto
  have single: ?thesis if "one_micros env req db = single_micros (qe_write env) flag key v db" "handleOne env req db = handleSingle (qe_write env) flag key v db"
    "request_updates req = [(key, if flag = recordFlagTombstone then None else Some v)]" for flag key v
    using handler_write(1) [where db = db and env = "qe_write env" and flag = flag and key = key and v = v] stamped_ok [OF assms(1)] rd that by metis
  show ?thesis
  proof (cases req)
    case (WPut key v)
    then show ?thesis using False by (intro single [of recordFlagPut key v]) (simp_all add: one_micros_def handleOne_def record_flags)
  next
    case (WDelete key)
    then show ?thesis using False by (intro single [of recordFlagTombstone key "[]"]) (simp_all add: one_micros_def handleOne_def)
  next
    case (WBatch es)
    then have "one_micros env req db = batch_micros (qe_write env) es db" "handleOne env req db = handleBatch (qe_write env) es db"
      using False by (simp_all add: one_micros_def handleOne_def)
    then show ?thesis using handler_write(2) [where db = db and env = "qe_write env" and es = es] stamped_ok [OF assms(1)] rd WBatch by metis
  next
    case (WCompactCommit cc)
    then show ?thesis using assms(2) by simp
  qed
qed

lemma retire_unnoticed:
  "map_ok (db_files db) \<Longrightarrow> \<forall>s \<in> set ss. map_get (db_segments db) (seg_id s) = None \<Longrightarrow> unnoticed db (retire_micros env u ss db)"
proof (induction ss arbitrary: db)
  case (Cons s ss)
  note fr = retireSegment_frame [OF Cons.prems(1), of env u s]
  have "grows db (retireSegment env u db s)"
    unfolding grows_def
  proof (intro allI impI)
    fix i
    assume i: "map_get (db_segments db) i \<noteq> None"
    then have "i \<noteq> seg_id s" using Cons.prems(2) by auto
    then show "map_get (db_segments (retireSegment env u db s)) i \<noteq> None \<and>
      (\<forall>f. map_get (db_files db) i = Some f \<longrightarrow> (\<exists>f' d. map_get (db_files (retireSegment env u db s)) i = Some f' \<and> f_data f' = f_data f @ d))"
      using i fr [of i] by auto
  qed
  then show ?case using Cons.IH [of "retireSegment env u db s"] Cons.prems fr by simp
qed simp

text \<open>A commit of compaction: readers notice nothing; index and segments change together under the lock.\<close>

lemma commit_micros_ok:
  assumes "db_inv L db m" "commit_ok L n items cc db"
  shows "micros_ok m db (commit_micros env cc db) \<and> shown (commit_micros env cc db) = []"
proof -
  have si: "segs_inv L db" using assms(1) by (simp add: db_inv_def)
  obtain a where a: "db_active db = Some a" using segs_inv_active [OF si] by metis
  let ?live = "filter (\<lambda>i. i \<notin> set (map seg_id (cc_oldSegs cc))) (map_keys (db_segments db)) @
    (case cc_newSeg cc of None \<Rightarrow> [] | Some s \<Rightarrow> [seg_id s])"
  obtain r mf where w: "writeManifest (ce_manifest env) (d_manifest (db_disk db)) ?live a = (r, mf)" by (metis surj_pair)
  let ?segs1 = "case cc_newSeg cc of None \<Rightarrow> db_segments db | Some s \<Rightarrow> map_set (db_segments db) (seg_id s) s"
  let ?segs2 = "foldl (\<lambda>m s. map_del m (seg_id s)) ?segs1 (cc_oldSegs cc)"
  let ?db1 = "set_manifest mf db"
  define db2 where "db2 = ?db1\<lparr>db_segments := ?segs2, db_keydir := casAll (db_keydir db) (cc_rewrites cc)\<rparr>"
  have g1: "grows db ?db1" by (rule grows_cong) simp_all
  have r1: "readable m ?db1" by (rule readable_grows [OF readable_inv [OF assms(1)] g1]) simp
  have "db_inv (\<lambda>i. if i \<in> seg_id ` set (cc_oldSegs cc) then [] else if i = n then items else L i)
      (db\<lparr>db_segments := ?segs2, db_keydir := casAll (db_keydir db) (cc_rewrites cc)\<rparr>) m"
    by (rule swap_inv [OF assms refl refl refl refl])
  then have "db_inv (\<lambda>i. if i \<in> seg_id ` set (cc_oldSegs cc) then [] else if i = n then items else L i) db2 m"
    by (rule db_inv_cong) (simp_all add: db2_def)
  then have r2: "readable m db2" by (rule readable_inv)
  have "map_ok ?segs1" using segs_invD(2) [OF si] by (auto simp: map_index_simps split: option.splits)
  note del = foldl_map_del [OF this, of "cc_oldSegs cc"]
  have "\<forall>s \<in> set (cc_oldSegs cc). map_get (db_segments db2) (seg_id s) = None" using del by (simp add: db2_def)
  then have "unnoticed db2 (retire_micros env u (cc_oldSegs cc) db2)" for u using segs_invD(1) [OF si] by (intro retire_unnoticed) (simp_all add: db2_def)
  note re = unnoticed_ok [OF this r2]
  have "commit_micros env cc db =
      (if cc_newSeg cc \<noteq> None \<and> ce_dirSync env then []
       else (Free, ?db1, []) # (if r \<noteq> Ok () \<and> r \<noteq> Err ErrManifestPublishedButUncertain then []
         else (Excl, db2, []) # retire_micros env (r \<noteq> Ok ()) (cc_oldSegs cc) db2))"
    unfolding commit_micros_def Let_def a option.case w prod.case db2_def by (simp cong: if_cong option.case_cong)
  then show ?thesis using g1 r1 r2 re by simp
qed

section \<open>Requests\<close>

text \<open>What the writer may be asked: a validated write, or the commit of a compaction pass.\<close>

definition request_fits :: "request_env \<Rightarrow> writeRequest \<Rightarrow> db \<Rightarrow> bool" where
  "request_fits env req db \<longleftrightarrow>
     (case req of
        WCompactCommit cc \<Rightarrow> \<exists>L m n items. db_inv L db m \<and> commit_ok L n items cc db
      | _ \<Rightarrow> valid_request req \<and> int64_range (we_now (qe_write env)))"

lemma one_micros_ok:
  assumes "db_inv L db m" "request_fits env req db" "ms = one_micros env req db"
  shows "micros_ok m db ms \<and> (\<exists>L'. db_inv L' (settle db ms) (apply_updates m (shown ms))) \<and>
    shown ms = (if fst (handleOne env req db) = Ok True then request_updates req else [])"
proof (cases "\<exists>cc. req = WCompactCommit cc")
  case False
  then have v: "valid_request req" "int64_range (we_now (qe_write env))" using assms(2) by (auto simp: request_fits_def split: writeRequest.splits)
  obtain r db' where h: "handleOne env req db = (r, db')" by (metis surj_pair)
  note ok = request_ok [OF assms(1) v]
  have "\<exists>L'. db_inv L' db' (apply_updates m (if r = Ok True then request_updates req else []))"
    using handleOne_inv [OF assms(1) v h] by auto
  then show ?thesis using ok h assms(3) by (simp add: settle_one)
next
  case True
  then obtain cc where cc: "req = WCompactCommit cc" by blast
  obtain L1 m1 n items where c: "db_inv L1 db m1" "commit_ok L1 n items cc db" using assms(2) cc by (auto simp: request_fits_def)
  have m: "m1 = m" using readable_unique readable_inv [OF c(1)] readable_inv [OF assms(1)] by blast
  obtain r db' where h: "handleCompactCommit (qe_commit env) cc db = (r, db')" by (metis surj_pair)
  have s: "settle db ms = (if db_writesDisabled db then db else db')"
    unfolding assms(3) settle_one using cc h by (simp add: handleOne_def split: sum.split)
  have "db_inv L1 (set_manifest mf db) m1" for mf by (rule db_inv_cong [OF c(1)]) simp_all
  then have "\<exists>L'. db_inv L' db' m" using handleCompactCommit_inv [OF c h] c(1) m by auto
  moreover have "micros_ok m db ms \<and> shown ms = []"
    using commit_micros_ok [OF c, of "qe_commit env"] m cc assms(3) by (simp add: one_micros_def)
  ultimately show ?thesis using s assms(1) cc by (auto simp: handleOne_def)
qed

text \<open>The fsync behind a burst.\<close>

definition sync_micros :: "nat option \<Rightarrow> bool \<Rightarrow> db \<Rightarrow> micro list" where
  "sync_micros w b db =
     (case active_seg db of
        None \<Rightarrow> []
      | Some (a, f, s) \<Rightarrow> (case seg_sync w b f s of (_, f', s') \<Rightarrow> [(Free, seg_update a f' s' db, [])]))"

lemma sync_micros_ok:
  assumes "db_inv L db m" "ms = sync_micros w b db"
  shows "micros_ok m db ms \<and> (\<exists>L'. db_inv L' (settle db ms) (apply_updates m (shown ms))) \<and> shown ms = []"
proof -
  have si: "segs_inv L db" using assms(1) by (simp add: db_inv_def)
  then obtain a f s where a: "active_seg db = Some (a, f, s)" by (rule segs_inv_active)
  obtain r f' s' where sy: "seg_sync w b f s = (r, f', s')" by (metis prod_cases3)
  have inv: "db_inv L (seg_update a f' s' db) m" by (rule db_inv_sync(1) [OF assms(1) a sy])
  have "grows db (seg_update a f' s' db)" using seg_ops_grow(3) [OF sy] grows_update [OF si a] by blast
  then show ?thesis using assms(2) a sy inv readable_inv [OF inv] by (auto simp: sync_micros_def)
qed

end
