(* ===== verification/Concurrent_Reads.thy ===== *)
theory Concurrent_Reads
  imports Lock_Steps Store
begin

text \<open>
  Reads beside the writer. \<open>Get\<close> and \<open>ReadKeyRange\<close> (\<open>engine.go\<close>) run on the goroutines of their callers: they take \<open>segmentsMu\<close> for reading, look the
  index up under its own lock, and then read values by offset while the writer goes on appending, updating the index, rotating and
  committing compactions, and while \<open>Close\<close> may begin. Here any number of such calls interleave with the steps of theory \<open>Lock_Steps\<close>. Shown is
  that every call behaves as if it had run alone, at one moment between call and return.
\<close>

section \<open>A reader\<close>

datatype read_op =
    OGet bytes
  | ORange "bytes option" "bytes option"

datatype read_result =
    GotValue "engine_error + bytes"
  | GotPairs "engine_error + (bytes \<times> bytes) list"

text \<open>
  Where a call stands. The first number counts the requests carried out when it was made, the last one those when it
  returned; both are only there to state what it saw.
\<close>

datatype phase =
    Idle
  | Called read_op nat
  | Waits read_op nat
  | Holds read_op nat
  | Looks read_op nat
  | Reads read_op nat "rangePair list" "(bytes \<times> bytes) list"
  | Done read_op read_result nat nat

fun failed :: "read_op \<Rightarrow> engine_error \<Rightarrow> read_result" where
  "failed (OGet key) e = GotValue (Err e)"
| "failed (ORange start stop) e = GotPairs (Err e)"

fun finished :: "read_op \<Rightarrow> (bytes \<times> bytes) list \<Rightarrow> read_result" where
  "finished (OGet key) acc = GotValue (Ok (case acc of [] \<Rightarrow> [] | (k, v) # _ \<Rightarrow> v))"
| "finished (ORange start stop) acc = GotPairs (Ok acc)"

fun missing :: "read_op \<Rightarrow> u32 \<Rightarrow> engine_error" where
  "missing (OGet key) i = ErrKeyNotFound"
| "missing (ORange start stop) i = EngMissingSegment i"

definition inverted :: "bytes option \<Rightarrow> bytes option \<Rightarrow> bool" where
  "inverted start stop = (case (start, stop) of (Some a, Some b) \<Rightarrow> bytesCompare a b \<ge> 0 | _ \<Rightarrow> False)"

text \<open>
  One step of a call: the checks before the lock, the lock, the check under it, the index, and one value at a time. \<open>n\<close> is the number of requests
  carried out so far. The lock is given back when the call returns.
\<close>

fun reader_step :: "(u32 \<Rightarrow> int \<Rightarrow> bool) \<Rightarrow> db \<Rightarrow> nat \<Rightarrow> phase \<Rightarrow> phase" where
  "reader_step rf db n Idle = Idle"
| "reader_step rf db n (Called (OGet key) lo) =
     (if length key = 0 then Done (OGet key) (failed (OGet key) ErrEmptyKey) lo n
      else if db_closed db then Done (OGet key) (failed (OGet key) ErrDBClosed) lo n
      else Waits (OGet key) lo)"
| "reader_step rf db n (Called (ORange start stop) lo) =
     (if db_closed db then Done (ORange start stop) (failed (ORange start stop) ErrDBClosed) lo n
      else if inverted start stop then Done (ORange start stop) (finished (ORange start stop) []) lo n
      else Waits (ORange start stop) lo)"
| "reader_step rf db n (Waits op lo) = Holds op lo"
| "reader_step rf db n (Holds op lo) = (if db_closed db then Done op (failed op ErrDBClosed) lo n else Looks op lo)"
| "reader_step rf db n (Looks (OGet key) lo) =
     (case keydir_get (db_keydir db) key of
        None \<Rightarrow> Done (OGet key) (failed (OGet key) ErrKeyNotFound) lo n
      | Some entry \<Rightarrow> Reads (OGet key) lo [\<lparr>rp_key = key, rp_entry = entry\<rparr>] [])"
| "reader_step rf db n (Looks (ORange start stop) lo) =
     Reads (ORange start stop) lo (keydir_snapshotRange (db_keydir db) start stop) []"
| "reader_step rf db n (Reads op lo [] acc) = Done op (finished op acc) lo n"
| "reader_step rf db n (Reads op lo (p # ps) acc) =
     (case map_get (db_segments db) (ke_fileID (rp_entry p)) of
        None \<Rightarrow> Done op (failed op (missing op (ke_fileID (rp_entry p)))) lo n
      | Some seg \<Rightarrow>
          (case readValue rf (rp_entry p) db of
             Inl e \<Rightarrow> Done op (failed op (EngOS e)) lo n
           | Inr val \<Rightarrow> Reads op lo ps (acc @ [(rp_key p, val)])))"
| "reader_step rf db n (Done op res lo hi) = Done op res lo hi"

fun in_lock :: "phase \<Rightarrow> bool" where
  "in_lock (Holds op lo) = True"
| "in_lock (Looks op lo) = True"
| "in_lock (Reads op lo ps acc) = True"
| "in_lock _ = False"

fun resting :: "phase \<Rightarrow> bool" where
  "resting Idle = True"
| "resting (Done op res lo hi) = True"
| "resting _ = False"

section \<open>Alone, a call is the function\<close>

fun alone :: "read_op \<Rightarrow> (u32 \<Rightarrow> int \<Rightarrow> bool) \<Rightarrow> db \<Rightarrow> read_result" where
  "alone (OGet key) rf db = GotValue (Get rf key db)"
| "alone (ORange start stop) rf db = GotPairs (rangeSnapshot rf start stop db)"

lemma reads_alone:
  "((reader_step rf db n) ^^ (length ps + 1)) (Reads op lo ps acc) =
     Done op (case materialise rf ps db of
        Inl e \<Rightarrow> failed op (case e of EngMissingSegment i \<Rightarrow> missing op i | _ \<Rightarrow> e)
      | Inr ms \<Rightarrow> finished op (acc @ ms)) lo n"
proof (induction ps arbitrary: acc)
  case (Cons p ps)
  have stay: "(reader_step rf db n ^^ k) (Done op r lo n) = Done op r lo n" for k r by (induction k) simp_all
  show ?case
    using Cons.IH stay
    by (auto simp: funpow_swap1 simp del: funpow.simps(2) split: option.split sum.split)
      (simp_all add: funpow_Suc_right stay del: funpow.simps(2))
qed simp

lemma call_alone: "\<exists>k. ((reader_step rf db n) ^^ k) (Called op lo) = Done op (alone op rf db) lo n"
proof -
  let ?st = "reader_step rf db n"
  have add: "\<exists>k. (?st ^^ k) p = q" if "(?st ^^ i) p = p'" "\<exists>k. (?st ^^ k) p' = q" for i p p' q
    using that by (metis comp_apply funpow_add)
  have one: "(?st ^^ 1) p = ?st p" "(?st ^^ 4) p = ?st (?st (?st (?st p)))" for p by (simp_all add: numeral_eq_Suc)
  show ?thesis
  proof (cases op)
    case (OGet key)
    show ?thesis
    proof (cases "length key = 0 \<or> db_closed db \<or> keydir_get (db_keydir db) key = None")
      case True
      then have "(?st ^^ 1) (Called op lo) = Done op (alone op rf db) lo n \<or> (?st ^^ 4) (Called op lo) = Done op (alone op rf db) lo n"
        unfolding one by (auto simp: OGet Get_def)
      then show ?thesis by blast
    next
      case False
      then obtain entry where e: "keydir_get (db_keydir db) key = Some entry" by blast
      then have "(?st ^^ 4) (Called op lo) = Reads op lo [\<lparr>rp_key = key, rp_entry = entry\<rparr>] []" using False unfolding one by (simp add: OGet)
      moreover have "\<exists>k. (?st ^^ k) (Reads op lo [\<lparr>rp_key = key, rp_entry = entry\<rparr>] []) = Done op (alone op rf db) lo n"
        using e False
        by (intro exI [of _ 2]) (auto simp: OGet Get_def numeral_2_eq_2 split: option.splits sum.splits)
      ultimately show ?thesis by (rule add)
    qed
  next
    case (ORange start stop)
    show ?thesis
    proof (cases "db_closed db \<or> inverted start stop")
      case True
      then have "(?st ^^ 1) (Called op lo) = Done op (alone op rf db) lo n"
        unfolding one by (auto simp: ORange rangeSnapshot_def inverted_def)
      then show ?thesis by blast
    next
      case False
      let ?ps = "keydir_snapshotRange (db_keydir db) start stop"
      have miss: "(case e of EngMissingSegment i \<Rightarrow> missing op i | _ \<Rightarrow> e) = e" for e by (simp add: ORange split: engine_error.split)
      have "(?st ^^ 4) (Called op lo) = Reads op lo ?ps []" using False unfolding one by (simp add: ORange)
      moreover have "(?st ^^ (length ?ps + 1)) (Reads op lo ?ps []) = Done op (alone op rf db) lo n"
        using False unfolding reads_alone miss by (auto simp: ORange rangeSnapshot_def inverted_def split: sum.splits)
      then have "\<exists>k. (?st ^^ k) (Reads op lo ?ps []) = Done op (alone op rf db) lo n" by blast
      ultimately show ?thesis by (rule add)
    qed
  qed
qed

section \<open>The system\<close>

text \<open>
  The shared state, the steps the writer has still to do for its current request, the calls, and the history: the updates of the requests carried out so
  far, in order. The flag \<open>closed\<close> is an atomic of its own, so a step of the writer leaves it as it is.
\<close>

record csys =
  cs_db :: db
  cs_todo :: "micro list"
  cs_calls :: "nat \<Rightarrow> phase"
  cs_hist :: "updates list"
  cs_down :: bool

text \<open>The rest of \<open>Close\<close>, once the writer has ended, under the exclusive lock.\<close>

definition teardown :: "close_env \<Rightarrow> db \<Rightarrow> db" where
  "teardown env db =
     (let db1 = db\<lparr>db_cachedStats := Some (statsLocked db)\<rparr>;
          (r1, db2) = (case active_seg db1 of
                         None \<Rightarrow> (Ok (), db1)
                       | Some (a, f, s) \<Rightarrow>
                           (case seg_sync (cl_syncW env) (cl_syncS env) f s of
                              (r, f', s') \<Rightarrow> (case r of Inl e \<Rightarrow> Err (EngOS e) | Inr _ \<Rightarrow> Ok (), seg_update a f' s' db1)));
          (r2, db3) = closeAllSegmentsLocked env db2;
          closeErr = (case r1 of Inl e \<Rightarrow> Err e | Inr _ \<Rightarrow> r2) in
      (releaseLock db3)\<lparr>db_closeErr := closeErr\<rparr>)"

lemma Close_teardown: "\<not> db_closed db \<Longrightarrow> snd (Close env db) = teardown env (db\<lparr>db_closed := True\<rparr>)"
  by (simp add: Close_def teardown_def Let_def case_prod_unfold)

definition advance :: "db \<Rightarrow> updates \<Rightarrow> micro list \<Rightarrow> csys \<Rightarrow> csys" where
  "advance db us ms s = s\<lparr>cs_db := db\<lparr>db_closed := db_closed (cs_db s)\<rparr>, cs_todo := ms,
     cs_hist := (if us = [] then cs_hist s else cs_hist s @ [us])\<rparr>"

inductive cstep :: "(u32 \<Rightarrow> int \<Rightarrow> bool) \<Rightarrow> csys \<Rightarrow> csys \<Rightarrow> bool" for rf where
  call: "resting (cs_calls s i) \<Longrightarrow> cstep rf s (s\<lparr>cs_calls := (cs_calls s)(i := Called op (length (cs_hist s)))\<rparr>)"
| reader: "cstep rf s (s\<lparr>cs_calls := (cs_calls s)(i := reader_step rf (cs_db s) (length (cs_hist s)) (cs_calls s i))\<rparr>)"
| request: "cs_todo s = [] \<Longrightarrow> \<not> cs_down s \<Longrightarrow> request_fits env req (cs_db s) \<Longrightarrow>
    cstep rf s (s\<lparr>cs_todo := one_micros env req (cs_db s)\<rparr>)"
| fsync: "cs_todo s = [] \<Longrightarrow> \<not> cs_down s \<Longrightarrow> cstep rf s (s\<lparr>cs_todo := sync_micros w b (cs_db s)\<rparr>)"
| free_step: "cs_todo s = (Free, db, us) # ms \<Longrightarrow> cstep rf s (advance db us ms s)"
| locked_step: "cs_todo s = (Excl, db, us) # ms \<Longrightarrow> \<forall>i. \<not> in_lock (cs_calls s i) \<Longrightarrow> cstep rf s (advance db us ms s)"
| mark_closed: "cstep rf s (s\<lparr>cs_db := (cs_db s)\<lparr>db_closed := True\<rparr>\<rparr>)"
| tear_down: "db_closed (cs_db s) \<Longrightarrow> cs_todo s = [] \<Longrightarrow> \<not> cs_down s \<Longrightarrow> \<forall>i. \<not> in_lock (cs_calls s i) \<Longrightarrow>
    cstep rf s (s\<lparr>cs_db := teardown env (cs_db s), cs_down := True\<rparr>)"

definition csys_init :: "db \<Rightarrow> csys" where
  "csys_init db = \<lparr>cs_db = db, cs_todo = [], cs_calls = \<lambda>_. Idle, cs_hist = [], cs_down = False\<rparr>"

section \<open>What a call may return\<close>

text \<open>The store after the first \<open>n\<close> requests of the history.\<close>

definition store_at :: "store \<Rightarrow> updates list \<Rightarrow> nat \<Rightarrow> store" where
  "store_at m hist n = foldl apply_updates m (take n hist)"

fun agrees :: "read_op \<Rightarrow> store \<Rightarrow> read_result \<Rightarrow> bool" where
  "agrees (OGet key) m res \<longleftrightarrow> res = GotValue (case m key of None \<Rightarrow> Err ErrKeyNotFound | Some v \<Rightarrow> Ok v)"
| "agrees (ORange start stop) m res \<longleftrightarrow>
     (\<exists>ms. res = GotPairs (Ok ms) \<and> sorted_wrt (<) (map fst ms) \<and> set ms = {(k, v). m k = Some v \<and> in_range start stop k})"

definition result_ok :: "(u32 \<Rightarrow> int \<Rightarrow> bool) \<Rightarrow> store \<Rightarrow> updates list \<Rightarrow> bool \<Rightarrow> read_op \<Rightarrow> read_result \<Rightarrow> nat \<Rightarrow> nat \<Rightarrow> bool" where
  "result_ok rf m hist closed op res lo hi \<longleftrightarrow>
     op = OGet [] \<and> res = failed op ErrEmptyKey \<or>
     closed \<and> res = failed op ErrDBClosed \<or>
     (\<exists>i off. rf i off) \<and> res = failed op (EngOS ErrOS) \<or>
     (\<exists>n. lo \<le> n \<and> n \<le> hi \<and> agrees op (store_at m hist n) res)"

text \<open>The keys a call is about, once it has looked them up in a store.\<close>

fun covers :: "read_op \<Rightarrow> store \<Rightarrow> bytes list \<Rightarrow> bool" where
  "covers (OGet key) m ks \<longleftrightarrow> ks = [key]"
| "covers (ORange start stop) m ks \<longleftrightarrow> sorted_wrt (<) ks \<and> set ks = {k. m k \<noteq> None \<and> in_range start stop k}"

text \<open>What it has read so far is in that store, and what it has still to read is there to be read.\<close>

definition seen :: "store \<Rightarrow> db \<Rightarrow> read_op \<Rightarrow> rangePair list \<Rightarrow> (bytes \<times> bytes) list \<Rightarrow> bool" where
  "seen m db op ps acc \<longleftrightarrow> covers op m (map fst acc @ map rp_key ps) \<and> (\<forall>(k, v) \<in> set acc. m k = Some v) \<and>
     (\<forall>p \<in> set ps. map_get (db_segments db) (ke_fileID (rp_entry p)) \<noteq> None \<and>
        (\<exists>v. m (rp_key p) = Some v \<and> readValue ok_read (rp_entry p) db = Ok v))"

fun phase_ok :: "(u32 \<Rightarrow> int \<Rightarrow> bool) \<Rightarrow> store \<Rightarrow> updates list \<Rightarrow> db \<Rightarrow> phase \<Rightarrow> bool" where
  "phase_ok rf m hist db Idle \<longleftrightarrow> True"
| "phase_ok rf m hist db (Called op lo) \<longleftrightarrow> lo \<le> length hist"
| "phase_ok rf m hist db (Waits op lo) \<longleftrightarrow> lo \<le> length hist"
| "phase_ok rf m hist db (Holds op lo) \<longleftrightarrow> lo \<le> length hist"
| "phase_ok rf m hist db (Looks op lo) \<longleftrightarrow> lo \<le> length hist"
| "phase_ok rf m hist db (Reads op lo ps acc) \<longleftrightarrow>
     (\<exists>n. lo \<le> n \<and> n \<le> length hist \<and> seen (store_at m hist n) db op ps acc)"
| "phase_ok rf m hist db (Done op res lo hi) \<longleftrightarrow>
     lo \<le> hi \<and> hi \<le> length hist \<and> result_ok rf m hist (db_closed db) op res lo hi"

section \<open>Stability\<close>

lemma store_at_append [simp]: "n \<le> length hist \<Longrightarrow> store_at m (hist @ us) n = store_at m hist n"
  by (simp add: store_at_def)

lemma result_ok_append:
  "hi \<le> length hist \<Longrightarrow> result_ok rf m (hist @ us) c op res lo hi \<longleftrightarrow> result_ok rf m hist c op res lo hi"
  by (auto simp: result_ok_def)

text \<open>A step under which the open segments grow keeps what every call has seen.\<close>

lemma seen_grows: "seen m db op ps acc \<Longrightarrow> grows db db' \<Longrightarrow> seen m db' op ps acc"
  unfolding seen_def using readValue_grows grows_open by blast

lemma phase_ok_grows:
  assumes "phase_ok rf m hist db p" "grows db db'" "db_closed db \<Longrightarrow> db_closed db'"
  shows "phase_ok rf m (hist @ us) db' p"
proof (cases p)
  case (Reads op lo ps acc)
  then obtain n where "lo \<le> n" "n \<le> length hist" "seen (store_at m hist n) db op ps acc" using assms(1) by auto
  then show ?thesis using seen_grows [OF _ assms(2)] Reads by (auto intro!: exI [of _ n])
next
  case (Done op res lo hi)
  then show ?thesis using assms(1,3) by (auto simp: result_ok_append) (auto simp: result_ok_def)
qed (use assms(1) in auto)

text \<open>Outside the lock nothing has been seen yet.\<close>

lemma phase_ok_outside:
  assumes "phase_ok rf m hist db p" "\<not> in_lock p" "db_closed db \<Longrightarrow> db_closed db'"
  shows "phase_ok rf m (hist @ us) db' p"
proof (cases p)
  case (Done op res lo hi)
  then show ?thesis using assms(1,3) by (auto simp: result_ok_append) (auto simp: result_ok_def)
qed (use assms(1,2) in auto)

section \<open>A step of a call\<close>

lemma readValue_fault:
  "readValue ok_read e db = Ok v \<Longrightarrow> readValue rf e db = Ok v \<or> readValue rf e db = Err ErrOS \<and> (\<exists>i off. rf i off)"
  by (auto simp: readValue_def seg_readAt_def split: if_splits option.splits)

lemma seen_snapshot:
  assumes "readable M db"
  shows "seen M db (ORange start stop) (keydir_snapshotRange (db_keydir db) start stop) []"
proof -
  let ?ps = "keydir_snapshotRange (db_keydir db) start stop"
  have ok: "map_ok (db_keydir db)" using assms by (simp add: readable_def)
  have set: "p \<in> set ?ps \<longleftrightarrow> keydir_get (db_keydir db) (rp_key p) = Some (rp_entry p) \<and> in_range start stop (rp_key p)" for p
    using set_snapshotRange [OF ok, of start stop] by blast
  have dom: "M k \<noteq> None \<longleftrightarrow> keydir_get (db_keydir db) k \<noteq> None" for k
  proof (cases "keydir_get (db_keydir db) k")
    case (Some e)
    from readable_entry [OF assms Some] obtain v where "M k = Some v" .
    then show ?thesis using Some by simp
  qed (use readable_None [OF assms] in simp)
  have "rp_key ` set ?ps = {k. M k \<noteq> None \<and> in_range start stop k}"
  proof (intro equalityI subsetI)
    fix k
    assume "k \<in> {k. M k \<noteq> None \<and> in_range start stop k}"
    then obtain e where "keydir_get (db_keydir db) k = Some e" "in_range start stop k" using dom [of k] by auto
    then have "\<lparr>rp_key = k, rp_entry = e\<rparr> \<in> set ?ps" using set by simp
    then show "k \<in> rp_key ` set ?ps" by (rule rev_image_eqI) simp
  next
    fix k
    assume "k \<in> rp_key ` set ?ps"
    then obtain p where "p \<in> set ?ps" "k = rp_key p" by blast
    then show "k \<in> {k. M k \<noteq> None \<and> in_range start stop k}" using set [of p] dom [of k] by simp
  qed
  moreover have "sorted_wrt (<) (map rp_key ?ps)" using strict_sorted_snapshotRange [OF ok] by blast
  moreover have "map_get (db_segments db) (ke_fileID (rp_entry p)) \<noteq> None \<and>
      (\<exists>v. M (rp_key p) = Some v \<and> readValue ok_read (rp_entry p) db = Ok v)" if "p \<in> set ?ps" for p
  proof -
    have "keydir_get (db_keydir db) (rp_key p) = Some (rp_entry p)" using that set by blast
    from readable_entry [OF assms this] show ?thesis by blast
  qed
  ultimately show ?thesis by (simp add: seen_def)
qed

lemma looks_ok:
  assumes "readable (store_at m hist (length hist)) db" "lo \<le> length hist"
  shows "phase_ok rf m hist db (reader_step rf db (length hist) (Looks op lo))"
proof (cases op)
  case (OGet key)
  show ?thesis
  proof (cases "keydir_get (db_keydir db) key")
    case None
    then show ?thesis using readable_None [OF assms(1) None] assms(2) OGet by (auto simp: result_ok_def)
  next
    case (Some e)
    from readable_entry [OF assms(1) Some] obtain v where "map_get (db_segments db) (ke_fileID e) \<noteq> None"
      "store_at m hist (length hist) key = Some v" "readValue ok_read e db = Ok v" .
    then have "seen (store_at m hist (length hist)) db op [\<lparr>rp_key = key, rp_entry = e\<rparr>] []" by (simp add: seen_def OGet)
    then show ?thesis using assms(2) Some OGet by auto
  qed
next
  case (ORange start stop)
  then show ?thesis using seen_snapshot [OF assms(1)] assms(2) by auto
qed

lemma covered_agrees:
  assumes "covers op M (map fst acc)" "\<forall>(k, v) \<in> set acc. M k = Some v"
  shows "agrees op M (finished op acc)"
proof (cases op)
  case (OGet key)
  then obtain v where "acc = [(key, v)]" using assms(1) by (cases acc) auto
  then show ?thesis using assms(2) OGet by simp
next
  case (ORange start stop)
  have dom: "k \<in> fst ` set acc \<longleftrightarrow> M k \<noteq> None \<and> in_range start stop k" for k using assms(1) ORange by simp
  have val: "(k, v) \<in> set acc \<Longrightarrow> M k = Some v" for k v using assms(2) by blast
  have "(k, v) \<in> set acc \<longleftrightarrow> M k = Some v \<and> in_range start stop k" for k v
  proof
    assume a: "(k, v) \<in> set acc"
    then have "k \<in> fst ` set acc" by force
    then show "M k = Some v \<and> in_range start stop k" using dom val a by blast
  next
    assume a: "M k = Some v \<and> in_range start stop k"
    then obtain w where w: "(k, w) \<in> set acc" using dom by fastforce
    then show "(k, v) \<in> set acc" using val [OF w] a by simp
  qed
  then have "set acc = {(k, v). M k = Some v \<and> in_range start stop k}" by auto
  then show ?thesis using assms(1) ORange by simp
qed

lemma reads_ok:
  assumes "phase_ok rf m hist db (Reads op lo ps acc)"
  shows "phase_ok rf m hist db (reader_step rf db (length hist) (Reads op lo ps acc))"
proof -
  obtain n where n: "lo \<le> n" "n \<le> length hist" "seen (store_at m hist n) db op ps acc" using assms by auto
  show ?thesis
  proof (cases ps)
    case Nil
    then have "agrees op (store_at m hist n) (finished op acc)" using covered_agrees n(3) by (simp add: seen_def)
    then show ?thesis using n(1,2) Nil by (auto simp: result_ok_def)
  next
    case (Cons p ps')
    then obtain s v where p: "map_get (db_segments db) (ke_fileID (rp_entry p)) = Some s" "store_at m hist n (rp_key p) = Some v"
      "readValue ok_read (rp_entry p) db = Ok v" using n(3) by (auto simp: seen_def)
    from readValue_fault [OF p(3), of rf] show ?thesis
    proof
      assume r: "readValue rf (rp_entry p) db = Ok v"
      have "seen (store_at m hist n) db op ps' (acc @ [(rp_key p, v)])" using n(3) p(2) Cons by (simp add: seen_def)
      then show ?thesis using p(1) r Cons n(1,2) by auto
    next
      assume "readValue rf (rp_entry p) db = Err ErrOS \<and> (\<exists>i off. rf i off)"
      then show ?thesis using p(1) Cons n(1,2) by (auto simp: result_ok_def)
    qed
  qed
qed

lemma reader_step_ok:
  assumes "phase_ok rf m hist db p" "\<And>op lo. p = Looks op lo \<Longrightarrow> readable (store_at m hist (length hist)) db"
  shows "phase_ok rf m hist db (reader_step rf db (length hist) p)"
proof (cases p)
  case (Called op lo)
  have "\<not> in_range start stop k" if "inverted start stop" for start stop k
    using that by (auto simp: inverted_def in_range_iff bytesCompare_ge split: option.splits)
  then have "inverted start stop \<Longrightarrow> agrees (ORange start stop) M (finished (ORange start stop) [])" for start stop M by simp
  then show ?thesis using assms(1) Called by (cases op) (auto simp: result_ok_def simp del: agrees.simps finished.simps)
next
  case (Looks op lo)
  then show ?thesis using looks_ok assms by (simp del: reader_step.simps)
next
  case (Reads op lo ps acc)
  then show ?thesis using reads_ok assms(1) by (simp del: reader_step.simps phase_ok.simps)
qed (use assms(1) in \<open>auto simp: result_ok_def\<close>)

section \<open>The invariant\<close>

definition cinv :: "(u32 \<Rightarrow> int \<Rightarrow> bool) \<Rightarrow> store \<Rightarrow> csys \<Rightarrow> bool" where
  "cinv rf m s \<longleftrightarrow>
     (\<forall>i. phase_ok rf m (cs_hist s) (cs_db s) (cs_calls s i)) \<and>
     (if cs_down s then db_closed (cs_db s) \<and> cs_todo s = [] \<and> (\<forall>i op lo. cs_calls s i \<noteq> Looks op lo)
      else
        let now = store_at m (cs_hist s) (length (cs_hist s)) in
        readable now (cs_db s) \<and> micros_ok now (cs_db s) (cs_todo s) \<and>
        (\<exists>L. db_inv L (settle (cs_db s) (cs_todo s)) (apply_updates now (shown (cs_todo s)))))"

lemma closed_irrelevant [simp]:
  "grows d (db\<lparr>db_closed := c\<rparr>) \<longleftrightarrow> grows d db" "grows (db\<lparr>db_closed := c\<rparr>) d \<longleftrightarrow> grows db d"
  "readable m (db\<lparr>db_closed := c\<rparr>) \<longleftrightarrow> readable m db" "micros_ok m (db\<lparr>db_closed := c\<rparr>) ms \<longleftrightarrow> micros_ok m db ms"
proof -
  show "grows d (db\<lparr>db_closed := c\<rparr>) \<longleftrightarrow> grows d db" and g: "grows (db\<lparr>db_closed := c\<rparr>) d \<longleftrightarrow> grows db d" for d by (simp_all add: grows_def)
  show "readable m (db\<lparr>db_closed := c\<rparr>) \<longleftrightarrow> readable m db"
    using readable_grows [of m db "db\<lparr>db_closed := c\<rparr>"] readable_grows [of m "db\<lparr>db_closed := c\<rparr>" db] grows_cong [of "db\<lparr>db_closed := c\<rparr>" db]
      grows_cong [of db "db\<lparr>db_closed := c\<rparr>"] by auto
  show "micros_ok m (db\<lparr>db_closed := c\<rparr>) ms \<longleftrightarrow> micros_ok m db ms" using g by (cases ms) (auto simp: grows_def)
qed

lemma settle_inv_closed:
  assumes "db_inv L (settle db ms) m"
  shows "db_inv L (settle (db\<lparr>db_closed := c\<rparr>) ms) m"
proof (cases ms)
  case Nil
  then show ?thesis using assms by (auto intro: db_inv_cong [of L db])
next
  case (Cons x ms')
  then show ?thesis using assms by (cases x) simp
qed

lemma store_at_step: "store_at m (if us = [] then hist else hist @ [us]) (length (if us = [] then hist else hist @ [us])) =
    apply_updates (store_at m hist (length hist)) us"
  by (simp add: store_at_def)

lemma advance_inv:
  assumes "cinv rf m s" "cs_todo s = (x, db, us) # ms" "x = Excl \<Longrightarrow> \<forall>i. \<not> in_lock (cs_calls s i)"
  shows "cinv rf m (advance db us ms s)"
proof -
  let ?now = "store_at m (cs_hist s) (length (cs_hist s))" and ?db' = "db\<lparr>db_closed := db_closed (cs_db s)\<rparr>"
  have up: "\<not> cs_down s" and ph: "\<forall>i. phase_ok rf m (cs_hist s) (cs_db s) (cs_calls s i)"
    using assms(1,2) by (auto simp: cinv_def split: if_splits)
  then have ok: "x = Free \<longrightarrow> grows (cs_db s) db" "readable (apply_updates ?now us) db" "micros_ok (apply_updates ?now us) db ms"
    and inv: "\<exists>L. db_inv L (settle db ms) (apply_updates ?now (us @ shown ms))"
    using assms(1,2) by (simp_all add: cinv_def Let_def)
  have "phase_ok rf m (cs_hist s @ us') ?db' (cs_calls s i)" for i us'
  proof (cases x)
    case Free
    then show ?thesis using phase_ok_grows [OF ph [rule_format], of ?db'] ok(1) by simp
  next
    case Excl
    then show ?thesis using phase_ok_outside [OF ph [rule_format], of i ?db'] assms(3) by simp
  qed
  from this [of "[]"] this [of "[us]"]
  have "\<forall>i. phase_ok rf m (if us = [] then cs_hist s else cs_hist s @ [us]) ?db' (cs_calls s i)" by simp
  moreover have "\<exists>L. db_inv L (settle ?db' ms) (apply_updates (apply_updates ?now us) (shown ms))"
    using inv unfolding apply_updates_append by (blast intro: settle_inv_closed)
  ultimately show ?thesis using ok up unfolding cinv_def advance_def by (simp add: store_at_step Let_def del: if_split)
qed

lemma teardown_closed: "db_closed (teardown env db) = db_closed db"
  by (simp add: teardown_def Let_def closeAllSegmentsLocked_def releaseLock_def case_prod_unfold split: option.split)

lemma cstep_inv:
  assumes "cstep rf s t" "cinv rf m s"
  shows "cinv rf m t"
  using assms
proof (induction rule: cstep.induct)
  case (call s i op)
  then show ?case by (auto simp: cinv_def Let_def)
next
  case (reader s i)
  let ?p = "reader_step rf (cs_db s) (length (cs_hist s)) (cs_calls s i)"
  have "phase_ok rf m (cs_hist s) (cs_db s) ?p"
    using reader by (intro reader_step_ok) (auto simp: cinv_def Let_def split: if_splits)
  moreover have "?p \<noteq> Looks op lo" if "cs_down s" for op lo
    using that reader by (cases "(rf, cs_db s, length (cs_hist s), cs_calls s i)" rule: reader_step.cases)
      (auto simp: cinv_def split: option.splits sum.splits)
  ultimately show ?case using reader by (auto simp: cinv_def Let_def)
next
  case (request s env req)
  let ?now = "store_at m (cs_hist s) (length (cs_hist s))"
  obtain L where "db_inv L (cs_db s) ?now" using request by (auto simp: cinv_def Let_def)
  from one_micros_ok [OF this request(3) refl] show ?case using request by (auto simp: cinv_def Let_def)
next
  case (fsync s w b)
  let ?now = "store_at m (cs_hist s) (length (cs_hist s))"
  obtain L where "db_inv L (cs_db s) ?now" using fsync by (auto simp: cinv_def Let_def)
  from sync_micros_ok [OF this refl, of w b] show ?case using fsync by (auto simp: cinv_def Let_def)
next
  case (free_step s db us ms)
  then show ?case by (intro advance_inv) auto
next
  case (locked_step s db us ms)
  then show ?case by (intro advance_inv) auto
next
  case (mark_closed s)
  have "phase_ok rf m (cs_hist s) ((cs_db s)\<lparr>db_closed := True\<rparr>) (cs_calls s i)" for i
    using phase_ok_grows [of rf m "cs_hist s" "cs_db s" "cs_calls s i" "(cs_db s)\<lparr>db_closed := True\<rparr>" "[]"] mark_closed by (simp add: cinv_def)
  moreover have "\<exists>L. db_inv L (settle ((cs_db s)\<lparr>db_closed := True\<rparr>) (cs_todo s)) m'" if "\<exists>L. db_inv L (settle (cs_db s) (cs_todo s)) m'" for m'
    using that settle_inv_closed by blast
  ultimately show ?case using mark_closed by (cases "cs_down s") (simp_all add: cinv_def Let_def)
next
  case (tear_down s env)
  have "phase_ok rf m (cs_hist s) (teardown env (cs_db s)) (cs_calls s i)" for i
    using phase_ok_outside [of rf m "cs_hist s" "cs_db s" "cs_calls s i" "teardown env (cs_db s)" "[]"] tear_down
    by (simp add: cinv_def teardown_closed)
  moreover have "cs_calls s i \<noteq> Looks op lo" for i op lo using tear_down(4) by (metis in_lock.simps(2))
  ultimately show ?case using tear_down by (simp add: cinv_def teardown_closed)
qed

lemma csys_init_inv: "db_inv L db m \<Longrightarrow> cinv rf m (csys_init db)"
  by (auto simp: cinv_def csys_init_def store_at_def dest: readable_inv)

lemma reachable_inv: "(cstep rf)\<^sup>*\<^sup>* s t \<Longrightarrow> cinv rf m s \<Longrightarrow> cinv rf m t"
  by (induction rule: rtranclp_induct) (auto intro: cstep_inv)

section \<open>Linearizability\<close>

text \<open>A call can always be finished, whatever the others are doing: it never waits for the writer once it has the lock.\<close>

definition at_phase :: "csys \<Rightarrow> nat \<Rightarrow> phase \<Rightarrow> csys" where
  "at_phase s i p = s\<lparr>cs_calls := (cs_calls s)(i := p)\<rparr>"

lemma at_phase_step: "cstep rf (at_phase s i p) (at_phase s i (reader_step rf (cs_db s) (length (cs_hist s)) p))"
  using cstep.reader [of rf "at_phase s i p" i] by (simp add: at_phase_def)

lemma reader_runs: "(cstep rf)\<^sup>*\<^sup>* (at_phase s i p) (at_phase s i ((reader_step rf (cs_db s) (length (cs_hist s)) ^^ k) p))"
proof (induction k)
  case (Suc k)
  then show ?case using at_phase_step by (auto intro: rtranclp.rtrancl_into_rtrancl)
qed simp

lemma call_returns:
  assumes "resting (cs_calls s i)" "n = length (cs_hist s)"
  shows "(cstep rf)\<^sup>*\<^sup>* s (at_phase s i (Done op (alone op rf (cs_db s)) n n))"
proof -
  obtain k where k: "(reader_step rf (cs_db s) n ^^ k) (Called op n) = Done op (alone op rf (cs_db s)) n n"
    using call_alone by blast
  have "cstep rf s (at_phase s i (Called op n))" unfolding at_phase_def assms(2) by (rule cstep.call [OF assms(1)])
  moreover have "(cstep rf)\<^sup>*\<^sup>* (at_phase s i (Called op n)) (at_phase s i (Done op (alone op rf (cs_db s)) n n))"
    using reader_runs [of rf s i "Called op n" k] unfolding assms(2) [symmetric] k .
  ultimately show ?thesis by (rule converse_rtranclp_into_rtranclp)
qed

text \<open>
  C6. Reads are linearizable. Any number of \<open>Get\<close> and \<open>ReadKeyRange\<close> calls interleave, step by step, with each other, with the writer (appends, index
  updates, rotations, commits of compaction, fsyncs, failing in any way) and with \<open>Close\<close>. A call that has returned either
  reported an empty key, a database that was being closed or a failed read of a file, or its result is that of the store at one moment
  between its call and its return: the value of the key, or all pairs of the range in ascending order, a snapshot although the
  values were read one by one. Since the requests of the history take effect as a whole, a batch is seen as a whole or not at all.
\<close>

theorem reads_linearizable:
  assumes "db_inv L db m" "(cstep rf)\<^sup>*\<^sup>* (csys_init db) s" "cs_calls s i = Done op res lo hi"
  shows "lo \<le> hi \<and> hi \<le> length (cs_hist s) \<and>
    (op = OGet [] \<and> res = failed op ErrEmptyKey \<or>
     db_closed (cs_db s) \<and> res = failed op ErrDBClosed \<or>
     (\<exists>j off. rf j off) \<and> res = failed op (EngOS ErrOS) \<or>
     (\<exists>n. lo \<le> n \<and> n \<le> hi \<and> agrees op (store_at m (cs_hist s) n) res))"
proof -
  have "cinv rf m s" using reachable_inv [OF assms(2) csys_init_inv [OF assms(1)]] .
  then have "phase_ok rf m (cs_hist s) (cs_db s) (cs_calls s i)" unfolding cinv_def by blast
  then have "phase_ok rf m (cs_hist s) (cs_db s) (Done op res lo hi)" unfolding assms(3) .
  then show ?thesis by (simp add: result_ok_def)
qed

theorem reads_linearizable_witness:
  "\<exists>db' s. Put (ok_submit_env 5) [1] [2] (empty_db small_opts) = (Ok (), db') \<and> (cstep ok_read)\<^sup>*\<^sup>* (csys_init db') s \<and>
     cs_calls s 0 = Done (OGet [1]) (GotValue (Ok [2])) 0 0 \<and> agrees (OGet [1]) (store_at [[1] \<mapsto> [2]] (cs_hist s) 0) (GotValue (Ok [2]))"
proof -
  obtain db' where p: "Put (ok_submit_env 5) [1] [2] (empty_db small_opts) = (Ok (), db')" using empty_put_ok by blast
  then have "client_exec (ok_submit_env 5) (CPut [1] [2]) (empty_db small_opts) = (Ok (), db')" by simp
  from client_exec_inv [OF small_store _ this] have "store_inv db' [[1] \<mapsto> [2]]"
    by (simp add: good_submit_ok int64_range_def apply_updates_def)
  then obtain L where inv: "db_inv L db' [[1] \<mapsto> [2]]" "\<not> db_closed db'" by (auto simp: store_inv_def)
  have g: "Get ok_read [1] db' = Ok [2]" using Get_store [OF inv, of "[1]"] by simp
  let ?t = "at_phase (csys_init db') 0 (Done (OGet [1]) (GotValue (Ok [2])) 0 0)"
  have t: "(cstep ok_read)\<^sup>*\<^sup>* (csys_init db') ?t" "cs_calls ?t 0 = Done (OGet [1]) (GotValue (Ok [2])) 0 0" "cs_db ?t = db'"
    using call_returns [of "csys_init db'" 0 0 ok_read "OGet [1]"] g by (simp_all add: csys_init_def at_phase_def)
  from reads_linearizable [OF inv(1) t(1,2)] show ?thesis using p t inv(2) by (intro exI [of _ db'] exI [of _ ?t]) auto
qed

end
