(* ===== verification/Range_Stream.thy ===== *)
theory Range_Stream
  imports Client "HOL-Library.Stream"
begin

text \<open>
  The two loops that read a range response, \<open>ReadRangeStream\<close> of \<open>internal/wire/response.go\<close> and the receive loop of \<open>ReadKeyRange\<close> in
  \<open>internal/client/client.go\<close>, on a connection that need not end. Neither loop bounds the length of a stream, so each is a partial function whose
  value \<open>None\<close> means that it does not return. On a connection that ends, both are the total functions \<open>ReadRangeStream\<close> and \<open>readPages\<close> the
  other theories compose; on one that does not, the theory says exactly when they return.
\<close>

section \<open>Connections that need not end\<close>

text \<open>What a connection delivers: some bytes and then the end of the file, or bytes for ever.\<close>

datatype source = Ends bytes | Endless "byte stream"

text \<open>\<open>io.ReadFull\<close> and \<open>ReadFrame\<close> on such a connection.\<close>

fun readFullFrom :: "nat \<Rightarrow> source \<Rightarrow> wire_error + bytes \<times> source" where
  "readFullFrom n (Ends src) = map_sum id (apsnd Ends) (wireReadFull n src)"
| "readFullFrom n (Endless b) = Ok (stake n b, Endless (sdrop n b))"

definition ReadFrameFrom :: "source \<Rightarrow> wire_error + byte \<times> bytes \<times> source" where
  "ReadFrameFrom r =
     (case readFullFrom 4 r of
        Inl e \<Rightarrow> Err e
      | Inr (hdr, r1) \<Rightarrow>
          let payloadLen = BE_Uint32 hdr in
          if payloadLen < 1 then Err (FrameError PayloadLenZero)
          else if unat payloadLen > MaxFramePayload then Err (FrameError (PayloadTooLarge (unat payloadLen)))
          else (case readFullFrom (unat payloadLen) r1 of
                  Inl e \<Rightarrow> Err (if e = WireEOF then WireUnexpectedEOF else e)
                | Inr (buf, r2) \<Rightarrow> Ok (buf ! 0, drop 1 buf, r2)))"

section \<open>The loops\<close>

partial_function (option) ReadRangeStreamFrom ::
  "(KV list \<Rightarrow> 's \<Rightarrow> bool \<times> 's) \<Rightarrow> source \<Rightarrow> 's \<Rightarrow> ((stream_error + unit) \<times> 's \<times> source) option" where
  "ReadRangeStreamFrom pageFn r s =
     (case ReadFrameFrom r of
        Inl e \<Rightarrow> Some (Err (StreamWire e), s, Ends [])
      | Inr (tag, body, rest) \<Rightarrow>
          if tag \<noteq> StatusOK
          then (case DecodeError body of
                  Inl e \<Rightarrow> Some (Err (StreamWire e), s, rest)
                | Inr msg \<Rightarrow> Some (Err (RemoteError tag msg), s, rest))
          else (case DecodeRangeFrame body of
                  Inl e \<Rightarrow> Some (Err (StreamWire e), s, rest)
                | Inr None \<Rightarrow> Some (Ok (), s, rest)
                | Inr (Some pairs) \<Rightarrow>
                    (case pageFn pairs s of
                       (go, s') \<Rightarrow>
                         if go then ReadRangeStreamFrom pageFn rest s' else Some (Err ErrStreamStopped, s', rest))))"

text \<open>In the client a read deadline is set before each frame: \<open>fails i\<close> says that setting it fails, or that it expires, at frame \<open>i\<close>.\<close>

partial_function (option) readPagesFrom ::
  "(KV list \<Rightarrow> 'a \<Rightarrow> bool \<times> 'a) \<Rightarrow> (nat \<Rightarrow> bool) \<Rightarrow> nat \<Rightarrow> source \<Rightarrow> 'a \<Rightarrow> ((client_error + unit) \<times> 'a \<times> source) option" where
  "readPagesFrom pageFn fails i r a =
     (if fails i then Some (Err (ClientWire WireIO), a, r)
      else (case ReadFrameFrom r of
        Inl e \<Rightarrow> Some (Err (ClientWire e), a, Ends [])
      | Inr (tag, fbody, rest) \<Rightarrow>
          if tag \<noteq> StatusOK
          then (case DecodeError fbody of
                  Inl e \<Rightarrow> Some (Err (ClientWire e), a, rest)
                | Inr msg \<Rightarrow> Some (Err (ClientRemote tag msg), a, rest))
          else (case DecodeRangeFrame fbody of
                  Inl e \<Rightarrow> Some (Err (ClientWire e), a, rest)
                | Inr None \<Rightarrow> Some (Ok (), a, rest)
                | Inr (Some pairs) \<Rightarrow>
                    (case pageFn pairs a of
                       (go, a') \<Rightarrow>
                         if go then readPagesFrom pageFn fails (Suc i) rest a' else Some (Err ClientStreamStopped, a', rest)))))"

section \<open>Frames of an endless connection\<close>

lemma ReadFrameFrom_Ends: "ReadFrameFrom (Ends bs) = map_sum id (apsnd (apsnd Ends)) (ReadFrame bs)"
  by (auto simp: ReadFrameFrom_def ReadFrame_def Let_def split: sum.splits)

text \<open>Of an endless connection at most a frame of the largest size is looked at.\<close>

lemma ReadFrameFrom_Endless:
  assumes "N = 4 + MaxFramePayload"
  shows "ReadFrameFrom (Endless b) =
    map_sum id (apsnd (apsnd (\<lambda>rest. Endless (rest @- sdrop N b)))) (ReadFrame (stake N b))"
proof -
  let ?p = "BE_Uint32 (stake 4 b)"
  have N: "4 \<le> N" "N - 4 = MaxFramePayload" "stake N b \<noteq> []" using assms by simp_all
  have h: "wireReadFull 4 (stake N b) = Ok (stake 4 b, stake MaxFramePayload (sdrop 4 b))"
    using N by (simp add: wireReadFull_def take_stake drop_stake min_absorb1)
  show ?thesis
  proof (cases "?p < 1 \<or> unat ?p > MaxFramePayload")
    case True
    then show ?thesis unfolding ReadFrameFrom_def ReadFrame_def h by (auto simp: Let_def)
  next
    case False
    then have p: "unat ?p \<le> MaxFramePayload" "0 < unat ?p" "\<not> ?p < 1" by (auto simp: word_less_nat_alt)
    have "wireReadFull (unat ?p) (stake MaxFramePayload (sdrop 4 b)) =
        Ok (stake (unat ?p) (sdrop 4 b), stake (MaxFramePayload - unat ?p) (sdrop (unat ?p) (sdrop 4 b)))"
      using p by (simp add: wireReadFull_def take_stake drop_stake min_absorb1)
    moreover have "sdrop N b = sdrop (MaxFramePayload - unat ?p) (sdrop (unat ?p) (sdrop 4 b))" using p assms by simp
    then have "stake (MaxFramePayload - unat ?p) (sdrop (unat ?p) (sdrop 4 b)) @- sdrop N b = sdrop (unat ?p) (sdrop 4 b)"
      by (simp only: stake_sdrop)
    ultimately show ?thesis using p unfolding ReadFrameFrom_def ReadFrame_def h by (simp add: Let_def)
  qed
qed

lemma ReadFrameFrom_Endless_Ok:
  assumes "ReadFrameFrom (Endless b) = Ok (tag, body, r)"
  obtains f rest where "EncodeFrame tag body = Ok f" "b = f @- rest" "r = Endless rest"
proof -
  obtain bs where bs: "ReadFrame (stake (4 + MaxFramePayload) b) = Ok (tag, body, bs)"
    "r = Endless (bs @- sdrop (4 + MaxFramePayload) b)"
    using assms unfolding ReadFrameFrom_Endless [OF refl] by (cases "ReadFrame (stake (4 + MaxFramePayload) b)") auto
  obtain f where f: "EncodeFrame tag body = Ok f" "stake (4 + MaxFramePayload) b = f @ bs" using ReadFrame_Ok [OF bs(1)] by blast
  have "b = f @- (bs @- sdrop (4 + MaxFramePayload) b)" by (metis f(2) shift_append stake_sdrop)
  then show ?thesis using that f(1) bs(2) by blast
qed

lemma ReadFrameFrom_frame:
  assumes "EncodeFrame tag body = Ok f"
  shows "ReadFrameFrom (Endless (f @- rest)) = Ok (tag, body, Endless rest)"
proof -
  let ?N = "4 + MaxFramePayload"
  have l: "length f \<le> ?N" using assms EncodeFrame_length [OF assms] by (simp add: EncodeFrame_Ok_iff)
  then have "ReadFrame (stake ?N (f @- rest)) = Ok (tag, body, stake (?N - length f) rest)"
    using ReadFrame_EncodeFrame [OF assms] by (simp add: stake_shift)
  moreover have "sdrop ?N (f @- rest) = sdrop (?N - length f) rest" using l by (simp add: sdrop_shift)
  ultimately show ?thesis by (simp only: ReadFrameFrom_Endless [OF refl] map_sum.simps apsnd_conv stake_sdrop)
qed

section \<open>When the loops return\<close>

text \<open>
  The one way to read for ever: what comes is a page, in the encoding of the protocol, the callback goes on, and so for ever. The definition does not
  mention the reader.
\<close>

coinductive endless_pages :: "(KV list \<Rightarrow> 's \<Rightarrow> bool \<times> 's) \<Rightarrow> byte stream \<Rightarrow> 's \<Rightarrow> bool" for fn where
  "EncodeRangePage ps = Ok body \<Longrightarrow> EncodeFrame StatusOK body = Ok f \<Longrightarrow> fn ps s = (True, s') \<Longrightarrow> endless_pages fn rest s' \<Longrightarrow>
   endless_pages fn (f @- rest) s"

text \<open>A frame that the loops read on after, and nothing else, begins such a stream.\<close>

definition page_first :: "(KV list \<Rightarrow> 's \<Rightarrow> bool \<times> 's) \<Rightarrow> byte stream \<Rightarrow> 's \<Rightarrow> KV list \<Rightarrow> byte stream \<Rightarrow> 's \<Rightarrow> bool" where
  "page_first fn b s ps rest s' \<longleftrightarrow>
     (\<exists>body f. EncodeRangePage ps = Ok body \<and> EncodeFrame StatusOK body = Ok f \<and> b = f @- rest \<and> fn ps s = (True, s'))"

lemma endless_pages_first: "endless_pages fn b s \<longleftrightarrow> (\<exists>ps rest s'. page_first fn b s ps rest s' \<and> endless_pages fn rest s')"
  unfolding page_first_def by (subst endless_pages.simps) blast

lemma page_first_read:
  assumes "page_first fn b s ps rest s'"
  obtains body where "ReadFrameFrom (Endless b) = Ok (StatusOK, body, Endless rest)" "DecodeRangeFrame body = Ok (Some ps)" "fn ps s = (True, s')"
  using assms ReadFrameFrom_frame DecodeRangeFrame_page unfolding page_first_def by blast

lemma page_read_first:
  assumes "ReadFrameFrom (Endless b) = Ok (StatusOK, body, r)" "DecodeRangeFrame body = Ok (Some ps)" "fn ps s = (True, s')"
  obtains rest where "r = Endless rest" "page_first fn b s ps rest s'"
proof -
  obtain f rest where f: "EncodeFrame StatusOK body = Ok f" "b = f @- rest" "r = Endless rest"
    by (rule ReadFrameFrom_Endless_Ok [OF assms(1)])
  then have "EncodeRangePage ps = Ok body" using DecodeRangeFrame_Ok [OF assms(2)] by (auto simp: EncodeFrame_Ok_iff)
  then show ?thesis using that f assms(3) unfolding page_first_def by blast
qed

lemma ReadRangeStreamFrom_first:
  assumes "page_first fn b s ps rest s'"
  shows "ReadRangeStreamFrom fn (Endless b) s = ReadRangeStreamFrom fn (Endless rest) s'"
proof -
  obtain body where "ReadFrameFrom (Endless b) = Ok (StatusOK, body, Endless rest)" "DecodeRangeFrame body = Ok (Some ps)" "fn ps s = (True, s')"
    by (rule page_first_read [OF assms])
  then show ?thesis by (subst ReadRangeStreamFrom.simps) simp
qed

lemma readPagesFrom_first:
  assumes "page_first fn b s ps rest s'" "\<not> fails i"
  shows "readPagesFrom fn fails i (Endless b) s = readPagesFrom fn fails (Suc i) (Endless rest) s'"
proof -
  obtain body where "ReadFrameFrom (Endless b) = Ok (StatusOK, body, Endless rest)" "DecodeRangeFrame body = Ok (Some ps)" "fn ps s = (True, s')"
    by (rule page_first_read [OF assms(1)])
  then show ?thesis using assms(2) by (subst readPagesFrom.simps) simp
qed

lemma ReadRangeStreamFrom_None:
  assumes "ReadRangeStreamFrom fn (Endless b) s = None"
  obtains ps rest s' where "page_first fn b s ps rest s'"
proof -
  have "\<exists>body r ps s'. ReadFrameFrom (Endless b) = Ok (StatusOK, body, r) \<and> DecodeRangeFrame body = Ok (Some ps) \<and> fn ps s = (True, s')"
    using assms by (subst (asm) ReadRangeStreamFrom.simps) (auto split: sum.splits option.splits prod.splits if_splits)
  then show ?thesis using that by (auto elim: page_read_first)
qed

lemma readPagesFrom_None:
  assumes "readPagesFrom fn fails i (Endless b) s = None"
  obtains ps rest s' where "page_first fn b s ps rest s'" "\<not> fails i"
proof -
  have "\<exists>body r ps s'. ReadFrameFrom (Endless b) = Ok (StatusOK, body, r) \<and> DecodeRangeFrame body = Ok (Some ps) \<and> fn ps s = (True, s')"
    "\<not> fails i"
    using assms by (subst (asm) readPagesFrom.simps, auto split: sum.splits option.splits prod.splits if_splits)+
  then show ?thesis using that by (auto elim: page_read_first)
qed

text \<open>On a connection that ends the loops are the total functions of the other theories.\<close>

lemma ReadRangeStreamFrom_Ends: "ReadRangeStreamFrom fn (Ends bs) s = Some (apsnd (apsnd Ends) (ReadRangeStream fn bs s))"
proof (induction bs arbitrary: s rule: length_induct)
  case (1 bs)
  show ?case
  proof (cases "ReadFrame bs")
    case (Inl e)
    then show ?thesis by (subst ReadRangeStreamFrom.simps, subst ReadRangeStream.simps) (simp add: ReadFrameFrom_Ends)
  next
    case (Inr p)
    obtain tag body rest where p: "p = (tag, body, rest)" by (cases p)
    have "length rest < length bs" using ReadFrame_shrinks Inr p by fastforce
    then have "ReadRangeStreamFrom fn (Ends rest) s' = Some (apsnd (apsnd Ends) (ReadRangeStream fn rest s'))" for s' using 1 by blast
    then show ?thesis
      by (subst ReadRangeStreamFrom.simps, subst ReadRangeStream.simps)
        (auto simp: ReadFrameFrom_Ends Inr p split: sum.split option.split prod.split)
  qed
qed

lemma readPagesFrom_Ends:
  "readPagesFrom fn fails i (Ends (cl_in c)) a = Some (apsnd (apsnd (Ends \<circ> cl_in)) (readPages fn fails i c a))"
proof (induction "cl_in c" arbitrary: i c a rule: length_induct)
  case 1
  show ?case
  proof (cases "ReadFrame (cl_in c)")
    case (Inl e)
    then show ?thesis by (subst readPagesFrom.simps, subst readPages.simps) (simp add: ReadFrameFrom_Ends recvFrame_def)
  next
    case (Inr p)
    obtain tag body rest where p: "p = (tag, body, rest)" by (cases p)
    have "length rest < length (cl_in c)" using ReadFrame_shrinks Inr p by fastforce
    then have "readPagesFrom fn fails (Suc i) (Ends rest) a' =
        Some (apsnd (apsnd (Ends \<circ> cl_in)) (readPages fn fails (Suc i) (c\<lparr>cl_in := rest\<rparr>) a'))" for a'
      using 1 [rule_format, of rest "c\<lparr>cl_in := rest\<rparr>"] by simp
    then show ?thesis
      by (subst readPagesFrom.simps, subst readPages.simps)
        (auto simp: ReadFrameFrom_Ends recvFrame_def Inr p split: sum.split option.split prod.split)
  qed
qed

text \<open>
  A stream that has come to its end marker, to an error frame or to a page the callback refuses is answered whatever follows, and what follows is left
  unread.
\<close>

lemma ReadRangeStreamFrom_prefix:
  assumes "ReadRangeStream fn bs s = (res, s', rest)" "\<forall>e. res \<noteq> Err (StreamWire e)"
  shows "ReadRangeStreamFrom fn (Endless (bs @- b)) s = Some (res, s', Endless (rest @- b))"
  using assms
proof (induction bs arbitrary: s rule: length_induct)
  case (1 bs)
  have "\<not> (\<exists>e. ReadFrame bs = Err e)" using 1(2,3) by (subst (asm) ReadRangeStream.simps) auto
  then obtain tag body bs' where f: "ReadFrame bs = Ok (tag, body, bs')" by (metis prod_cases3 sum.exhaust)
  obtain g where "EncodeFrame tag body = Ok g" "bs = g @ bs'" using ReadFrame_Ok [OF f] by blast
  then have r: "ReadFrameFrom (Endless (bs @- b)) = Ok (tag, body, Endless (bs' @- b))" using ReadFrameFrom_frame by simp
  have "length bs' < length bs" using ReadFrame_shrinks [OF f] by simp
  then have "ReadRangeStreamFrom fn (Endless (bs' @- b)) t = Some (res, s', Endless (rest @- b))"
    if "ReadRangeStream fn bs' t = (res, s', rest)" for t using 1(1,3) that by blast
  moreover note e = 1(2) [unfolded ReadRangeStream.simps [of fn bs s] f]
  ultimately show ?case using 1(3) unfolding ReadRangeStreamFrom.simps [of fn "Endless (bs @- b)" s] r
    by (simp split: sum.splits option.splits prod.splits if_splits; blast)
qed

text \<open>Reading for ever.\<close>

lemma diverges_endless: "ReadRangeStreamFrom fn (Endless b) s = None \<Longrightarrow> endless_pages fn b s"
proof (coinduction arbitrary: b s)
  case endless_pages
  obtain ps rest s' where p: "page_first fn b s ps rest s'" by (rule ReadRangeStreamFrom_None [OF endless_pages])
  then have "ReadRangeStreamFrom fn (Endless rest) s' = None" using endless_pages ReadRangeStreamFrom_first by metis
  then show ?case using p unfolding page_first_def by blast
qed

lemma endless_diverges:
  assumes "ReadRangeStreamFrom fn r s = Some y"
  shows "\<forall>b. r = Endless b \<longrightarrow> \<not> endless_pages fn b s"
proof (rule ReadRangeStreamFrom.raw_induct [where P = "\<lambda>fn r s y. \<forall>b. r = Endless b \<longrightarrow> \<not> endless_pages fn b s", OF _ assms], intro allI impI notI)
  fix g :: "(KV list \<Rightarrow> 's \<Rightarrow> bool \<times> 's) \<Rightarrow> source \<Rightarrow> 's \<Rightarrow> ((stream_error + unit) \<times> 's \<times> source) option" and fn r s y b
  assume IH: "\<And>fn r s y. g fn r s = Some y \<Longrightarrow> \<forall>b. r = Endless b \<longrightarrow> \<not> endless_pages fn b s"
    and step: "(case ReadFrameFrom r of
        Inl e \<Rightarrow> Some (Err (StreamWire e), s, Ends [])
      | Inr (tag, body, rest) \<Rightarrow>
          if tag \<noteq> StatusOK
          then (case DecodeError body of
                  Inl e \<Rightarrow> Some (Err (StreamWire e), s, rest)
                | Inr msg \<Rightarrow> Some (Err (RemoteError tag msg), s, rest))
          else (case DecodeRangeFrame body of
                  Inl e \<Rightarrow> Some (Err (StreamWire e), s, rest)
                | Inr None \<Rightarrow> Some (Ok (), s, rest)
                | Inr (Some pairs) \<Rightarrow>
                    (case fn pairs s of
                       (go, s') \<Rightarrow> if go then g fn rest s' else Some (Err ErrStreamStopped, s', rest)))) = Some y"
    and r: "r = Endless b" and e: "endless_pages fn b s"
  obtain ps rest s' where p: "page_first fn b s ps rest s'" "endless_pages fn rest s'" using e unfolding endless_pages_first [of fn b] by blast
  obtain body where "ReadFrameFrom (Endless b) = Ok (StatusOK, body, Endless rest)" "DecodeRangeFrame body = Ok (Some ps)" "fn ps s = (True, s')"
    by (rule page_first_read [OF p(1)])
  then have "g fn (Endless rest) s' = Some y" using step r by simp
  then show False using IH p(2) by blast
qed

text \<open>The same for the loop of the client, which a failed deadline ends as well.\<close>

lemma client_diverges_endless: "readPagesFrom fn fails i (Endless b) s = None \<Longrightarrow> endless_pages fn b s"
proof (coinduction arbitrary: i b s)
  case endless_pages
  obtain ps rest s' where p: "page_first fn b s ps rest s'" "\<not> fails i" by (rule readPagesFrom_None [OF endless_pages])
  then have "readPagesFrom fn fails (Suc i) (Endless rest) s' = None" using endless_pages readPagesFrom_first by metis
  then show ?case using p unfolding page_first_def by blast
qed

lemma client_diverges_deadlines: "readPagesFrom fn fails i (Endless b) s = None \<Longrightarrow> \<not> fails (i + k)"
proof (induction k arbitrary: i b s)
  case 0
  then show ?case by (auto elim: readPagesFrom_None)
next
  case (Suc k)
  obtain ps rest s' where "page_first fn b s ps rest s'" "\<not> fails i" by (rule readPagesFrom_None [OF Suc.prems])
  then have "readPagesFrom fn fails (Suc i) (Endless rest) s' = None" using Suc.prems readPagesFrom_first by metis
  from Suc.IH [OF this] show ?case by simp
qed

lemma endless_client_diverges:
  assumes "readPagesFrom fn fails i r a = Some y"
  shows "\<forall>b. r = Endless b \<longrightarrow> endless_pages fn b a \<longrightarrow> (\<exists>j \<ge> i. fails j)"
proof (rule readPagesFrom.raw_induct
    [where P = "\<lambda>fn fails i r a y. \<forall>b. r = Endless b \<longrightarrow> endless_pages fn b a \<longrightarrow> (\<exists>j \<ge> i. fails j)", OF _ assms], intro allI impI)
  fix g :: "(KV list \<Rightarrow> 'a \<Rightarrow> bool \<times> 'a) \<Rightarrow> (nat \<Rightarrow> bool) \<Rightarrow> nat \<Rightarrow> source \<Rightarrow> 'a \<Rightarrow> ((client_error + unit) \<times> 'a \<times> source) option"
    and fn fails i r a y b
  assume IH: "\<And>fn fails i r a y. g fn fails i r a = Some y \<Longrightarrow> \<forall>b. r = Endless b \<longrightarrow> endless_pages fn b a \<longrightarrow> (\<exists>j \<ge> i. fails j)"
    and step: "(if fails i then Some (Err (ClientWire WireIO), a, r)
      else (case ReadFrameFrom r of
        Inl e \<Rightarrow> Some (Err (ClientWire e), a, Ends [])
      | Inr (tag, fbody, rest) \<Rightarrow>
          if tag \<noteq> StatusOK
          then (case DecodeError fbody of
                  Inl e \<Rightarrow> Some (Err (ClientWire e), a, rest)
                | Inr msg \<Rightarrow> Some (Err (ClientRemote tag msg), a, rest))
          else (case DecodeRangeFrame fbody of
                  Inl e \<Rightarrow> Some (Err (ClientWire e), a, rest)
                | Inr None \<Rightarrow> Some (Ok (), a, rest)
                | Inr (Some pairs) \<Rightarrow>
                    (case fn pairs a of
                       (go, a') \<Rightarrow>
                         if go then g fn fails (Suc i) rest a' else Some (Err ClientStreamStopped, a', rest))))) = Some y"
    and r: "r = Endless b" and e: "endless_pages fn b a"
  obtain ps rest a' where p: "page_first fn b a ps rest a'" "endless_pages fn rest a'" using e unfolding endless_pages_first [of fn b] by blast
  obtain body where "ReadFrameFrom (Endless b) = Ok (StatusOK, body, Endless rest)" "DecodeRangeFrame body = Ok (Some ps)" "fn ps a = (True, a')"
    by (rule page_first_read [OF p(1)])
  then have "fails i \<or> g fn fails (Suc i) (Endless rest) a' = Some y" using step r by (cases "fails i") simp_all
  then show "\<exists>j \<ge> i. fails j"
  proof
    assume "g fn fails (Suc i) (Endless rest) a' = Some y"
    then obtain j where "j \<ge> Suc i" "fails j" using IH p(2) by blast
    then show ?thesis using Suc_leD by blast
  qed blast
qed

text \<open>
  C27. When reading a range response returns. On a connection that ends, \<open>ReadRangeStream\<close> and the receive loop of the client's \<open>ReadKeyRange\<close> always
  return, with the results of the total functions. On one that delivers bytes for ever, \<open>ReadRangeStream\<close> returns exactly unless what comes is
  nothing but well-formed pages, each accepted by the callback: so the end marker, an error frame, a malformed frame and a callback that stops each end it,
  and a server that never sends any of them keeps it reading for ever. For the loop of the client it is the same, but that a deadline that fails
  for any frame ends it too.
\<close>

theorem range_stream_returns:
  "ReadRangeStreamFrom fn (Ends bs) s = Some (apsnd (apsnd Ends) (ReadRangeStream fn bs s)) \<and>
   readPagesFrom fn fails i (Ends (cl_in c)) s = Some (apsnd (apsnd (Ends \<circ> cl_in)) (readPages fn fails i c s)) \<and>
   (ReadRangeStreamFrom fn (Endless b) s = None \<longleftrightarrow> endless_pages fn b s) \<and>
   (readPagesFrom fn fails i (Endless b) s = None \<longleftrightarrow> endless_pages fn b s \<and> (\<forall>k. \<not> fails (i + k)))"
proof (intro conjI)
  show "ReadRangeStreamFrom fn (Ends bs) s = Some (apsnd (apsnd Ends) (ReadRangeStream fn bs s))" by (rule ReadRangeStreamFrom_Ends)
  show "readPagesFrom fn fails i (Ends (cl_in c)) s = Some (apsnd (apsnd (Ends \<circ> cl_in)) (readPages fn fails i c s))"
    by (rule readPagesFrom_Ends)
  show "ReadRangeStreamFrom fn (Endless b) s = None \<longleftrightarrow> endless_pages fn b s"
    using diverges_endless endless_diverges by (metis not_None_eq)
  show "readPagesFrom fn fails i (Endless b) s = None \<longleftrightarrow> endless_pages fn b s \<and> (\<forall>k. \<not> fails (i + k))"
    using client_diverges_endless client_diverges_deadlines endless_client_diverges by (metis le_Suc_ex not_None_eq)
qed

text \<open>The streams that keep the loops reading are there: the same page again and again, and a callback that never stops.\<close>

lemma endless_example:
  assumes "EncodeRangePage ps = Ok body" "EncodeFrame StatusOK body = Ok f"
  shows "ReadRangeStreamFrom collect (Endless (cycle f)) acc = None"
proof -
  have "f \<noteq> []" using EncodeFrame_length [OF assms(2)] by auto
  then have c: "cycle f = f @- cycle f" by (rule cycle_decomp)
  have "endless_pages collect (cycle f) acc"
  proof (coinduction arbitrary: acc)
    case endless_pages
    show ?case using assms c by blast
  qed
  then show ?thesis using endless_diverges by (metis not_None_eq)
qed

end
