(* ===== verification/Spec2Isabelle.thy ===== *)
theory Spec2Isabelle
  imports Crash Compaction Write_Queue Server_Lifecycle Cli_Store Directory Sequential_Reader Concurrent_Reads Range_Stream
begin

text \<open>
  A verification development for little-db, a Bitcask-style key-value store in Go: an append-only storage engine with an
  in-memory index, a binary protocol over TCP, a server, a client and a command line.

  \<^bold>\<open>The program and how its parts interact.\<close> A write enters through \<open>Put\<close>, \<open>Delete\<close> or \<open>BatchPut\<close> (\<open>src/internal/engine/engine.go\<close>), is
  validated and handed through a channel to the one writer goroutine, which appends a checksummed record (\<open>record.go\<close>) to the active
  segment (\<open>segment.go\<close>), updates the index (\<open>keydir.go\<close>), rotates the segment when it is full and publishes the live set in the manifest
  (\<open>manifest.go\<close>). Reads look the key up in the index and read the value from its segment. \<open>Open\<close> rebuilds the index from hints (\<open>hint.go\<close>) and
  by scanning segments (\<open>recovery.go\<close>). Compaction (\<open>compact.go\<close>) merges sealed segments beside the writer. The server
  (\<open>src/internal/server/server.go\<close>) reads requests in the format of \<open>src/internal/wire\<close> from its connections, calls the engine and writes the
  responses; the client (\<open>src/internal/client/client.go\<close>) is the other end. The command line (\<open>src/cmd/little-db\<close>) runs the server or one client call.

  \<^bold>\<open>Theories, from the bottom.\<close>
  \<^item> \<open>Prelude\<close>: machine types, Go slices, the integer codecs of \<open>encoding/binary\<close> (locale \<open>int_codec\<close>, six interpretations), and the
    contract \<open>winding\<close> of concurrent parts that finish by themselves. \<open>Crc32c\<close>: the checksum. \<open>Go_Map\<close>: Go maps (locale \<open>map_index\<close>).
  \<^item> \<open>Log_Record\<close> (\<open>record.go\<close>), \<open>Keydir\<close> (\<open>keydir.go\<close>), \<open>Segment\<close> (\<open>segment.go\<close>, \<open>fsync_other.go\<close>), \<open>Hint\<close> (\<open>hint.go\<close>),
    \<open>Manifest\<close> (\<open>manifest.go\<close>): formats and files, with write faults and what is durable.
  \<^item> \<open>Log\<close>: the specification of a segment as a list of records (locale \<open>log_scan\<close>). \<open>Recovery\<close> and \<open>Replay\<close> (\<open>recovery.go\<close>): the scan, the hint
    replay, and that both rebuild the index of the log.
  \<^item> \<open>Engine_State\<close>, \<open>Writer\<close>, \<open>Reader\<close> (\<open>engine.go\<close>, \<open>stats.go\<close>, the commit of \<open>compact.go\<close>): the state of a database and its operations.
    \<open>Writer_Inv\<close>: the invariant \<open>db_inv L db m\<close>, which ties files, logs \<open>L\<close>, index and abstract store \<open>m\<close>, kept by every handler.
    \<open>Engine\<close>: bursts. \<open>Store\<close>: the engine as a key-value store (locale \<open>kv_store\<close>). \<open>Write_Queue\<close>: callers, writer goroutine and \<open>Close\<close>
    interleaving over the request channel. \<open>Lock_Steps\<close> cuts the handlers into the steps that happen under or outside \<open>segmentsMu\<close>, with the guarantee
    they give to readers; \<open>Concurrent_Reads\<close>: any number of \<open>Get\<close> and \<open>ReadKeyRange\<close> calls among these steps.
  \<^item> \<open>Open\<close>: \<open>Open\<close> with all its error paths. \<open>Crash\<close>: a burst, a crash and a restart.
  \<^item> \<open>Directory\<close> and \<open>Sequential_Reader\<close>: the two abstractions the engine theories rest on. Files are addressed by id there, and a segment is scanned as its
    bytes; here file names, directory listing, orphan sweep and reads by offset are as in the code, and shown to give just that.
  \<^item> \<open>Compact\<close>, \<open>Compact_Merge\<close>, \<open>Compact_Inv\<close>, \<open>Compaction\<close> (\<open>compact.go\<close>): a pass beside the writer.
  \<^item> \<open>Wire\<close> (\<open>wire.go\<close>, \<open>frame.go\<close>), \<open>Wire_Request\<close> (\<open>request.go\<close>), \<open>Wire_Response\<close> (\<open>response.go\<close>): the protocol, bytes for bytes
    (locales \<open>body_codec\<close>, \<open>item_loop\<close>).
  \<^item> \<open>Server\<close> and \<open>Server_Lifecycle\<close> (\<open>server.go\<close>), \<open>Client\<close> (\<open>client.go\<close>), \<open>Remote\<close>: the client against the server, again a \<open>kv_store\<close>.
    \<open>Range_Stream\<close>: the two loops that read a range response, on a connection that may deliver for ever, and exactly when they return.
  \<^item> \<open>Flags\<close> and \<open>Text_Codec\<close> (Go's \<open>flag\<close>, \<open>encoding/hex\<close>, \<open>encoding/base64\<close> as used, and \<open>parseFlags\<close>), \<open>Cli\<close> (\<open>subcommands.go\<close>), \<open>Cli_Main\<close>
    (\<open>main.go\<close>, the parsers of \<open>src/internal/logging/logging.go\<close>), \<open>Cli_Store\<close>: exit codes, the lock of the data directory, and the command line as
    the third \<open>kv_store\<close>.

  \<^bold>\<open>What is shown.\<close> Codecs are inverse to each other and refuse changed bytes. Every handler of the writer either carries its updates out on the
  abstract store and in the log or leaves the store alone, whatever fails. After a crash the applied updates, and nothing else, come
  back, as long as nothing was compacted. Opening a directory rebuilds the store of its live log when time stamps do not decrease along it, and fails on a
  corrupt record it scans; names in it and ids agree as far as no foreign name scans as an id. Reads, ranges, batches, remote calls refine the abstract map.
  Compaction keeps the store for any interleaving with the writer. Every submitted request is answered exactly once, and reads beside the writer are linearizable. \<open>Shutdown\<close> leaves no goroutine,
  and returns. The command line parses its arguments as a left-to-right reader would, sends only what the wire accepts, and a sequence of invocations is a
  key-value store end to end, which \<open>range\<close> lists. Two theorems show behaviour the code does not intend: a deleted key can come back after compaction and a restart
  (\<open>recover_resurrects_deleted_key\<close>), and a drain can wait for a read deadline (\<open>poke_can_be_lost\<close>). A third, \<open>stranger_taken_for_segment\<close>, shows
  that a foreign file with a similar name is listed and swept as a segment.

  \<^bold>\<open>How effects are modelled.\<close> A file is its bytes and how many of them are durable; a buffered writer may lose any suffix when a write fails. Every call of
  the operating system takes a fault from an environment record, so a theorem without a condition on the environment holds for all
  failures. Errors are values of a sum type, \<open>Err\<close> on the left. Concurrent parts are step relations whose steps are the sections under a lock or
  the channel operations. Time stamps are a parameter of a write; recovery theorems assume that they do not
  decrease along the log, which the writer ensures until a compaction gives older records a segment with a higher id.

  \<^bold>\<open>Termination.\<close> No fuel is used: the loops over bytes terminate by the bytes left, those over entries by the list. What a connection delivers is a finite
  list of bytes wherever client and server are composed; the loops that read a range response have no bound of their own, and \<open>Range_Stream\<close> has
  them as partial functions on connections without end.

  \<^bold>\<open>Not modelled.\<close> The texts of log lines and errors (parameters where they reach the wire, values on standard error); log handlers; \<open>F_FULLFSYNC\<close> on Darwin
  (\<open>fsync_darwin.go\<close>), a system call; JSON syntax: the file of the manifest is the parsed document, and the input of \<open>batch\<close> is the
  lines its decoder yields; the syntax of numbers and durations in flags (parameters); the address getters and the clearing of deadlines.
\<close>

end
